(* ===== verification/Prelude.thy ===== *)
theory Prelude
  imports Complex_Main "HOL-Library.Multiset" "HOL-Library.Word"
begin

text \<open>
  Shared vocabulary of the development: the types that name clock readings, durations and
  bytes, the saturating bounds of the steady clock, the unsigned decrement of a
  \<^verbatim>\<open>std::size_t\<close>, \<^verbatim>\<open>std::to_string\<close>, and the generic facts on lists of lists and
  multisets that every component proof uses. The named collections below carry the
  component proofs: \<open>mset_level\<close> for facts on the multiset of all elements of a list of
  levels, and \<open>frame\<close> for the fields an operation leaves alone.
\<close>

named_theorems mset_level
named_theorems frame

section \<open>Types\<close>

text \<open>
  A \<^verbatim>\<open>steady_clock::time_point\<close> is a signed 64-bit count of nanoseconds and a
  \<^verbatim>\<open>std::chrono::milliseconds\<close> a signed 64-bit count of milliseconds. Both are integers
  here; the places where the source saturates at the end of the clock's range are written
  out with \<open>clock_max\<close>. A \<^verbatim>\<open>double\<close> is a real number or one of the non-finite values:
  rounding is not modelled.
\<close>

type_synonym time = int
type_synonym millis = int
type_synonym byte = "8 word"
type_synonym header_map = "string \<rightharpoonup> string"

datatype double = Finite real | PosInf | NegInf | NaN

definition isfinite :: "double \<Rightarrow> bool" where
  "isfinite d = (case d of Finite _ \<Rightarrow> True | _ \<Rightarrow> False)"

definition clock_max :: time where
  "clock_max = 9223372036854775807"

definition ns_per_ms :: int where
  "ns_per_ms = 1000000"

text \<open>\<^verbatim>\<open>duration_cast<milliseconds>(Clock::duration::max())\<close>.\<close>

definition max_ms :: millis where
  "max_ms = clock_max div ns_per_ms"

text \<open>\<^verbatim>\<open>duration_cast<Clock::duration>\<close> of a millisecond count.\<close>

definition ms_to_ns :: "millis \<Rightarrow> time" where
  "ms_to_ns d = d * ns_per_ms"

text \<open>\<^verbatim>\<open>duration_cast<milliseconds>\<close> of a nanosecond count truncates towards zero.\<close>

definition ns_to_ms :: "time \<Rightarrow> millis" where
  "ns_to_ms t = (if t < 0 then - ((- t) div ns_per_ms) else t div ns_per_ms)"

lemma ms_to_ns_pos [simp]: "0 < ms_to_ns d \<longleftrightarrow> 0 < d"
  by (simp add: ms_to_ns_def ns_per_ms_def zero_less_mult_iff)

lemma ms_to_ns_mono [simp]: "ms_to_ns a \<le> ms_to_ns b \<longleftrightarrow> a \<le> b"
  by (simp add: ms_to_ns_def ns_per_ms_def)

text \<open>
  \<^verbatim>\<open>--n\<close> on a \<^verbatim>\<open>std::size_t\<close>: decrementing zero wraps to the largest value. Counts of
  queued elements stay far below that bound, so increments are plain successors.
\<close>

definition size_dec :: "nat \<Rightarrow> nat" where
  "size_dec n = (if n = 0 then 2 ^ 64 - 1 else n - 1)"

lemma size_dec_Suc [simp]: "size_dec (Suc n) = n"
  by (simp add: size_dec_def)

lemma size_dec_pos: "0 < n \<Longrightarrow> size_dec n = n - 1"
  by (simp add: size_dec_def)

section \<open>Decimal printing: std::to_string\<close>

definition digit_char :: "nat \<Rightarrow> char" where
  "digit_char d = char_of (48 + d)"

fun nat_to_string :: "nat \<Rightarrow> string" where
  "nat_to_string n =
     (if n < 10 then [digit_char n] else nat_to_string (n div 10) @ [digit_char (n mod 10)])"

declare nat_to_string.simps [simp del]

definition int_to_string :: "int \<Rightarrow> string" where
  "int_to_string i = (if i < 0 then CHR ''-'' # nat_to_string (nat (- i)) else nat_to_string (nat i))"

definition is_digit :: "char \<Rightarrow> bool" where
  "is_digit c = (48 \<le> (of_char c :: nat) \<and> (of_char c :: nat) \<le> 57)"

lemma of_digit_char: "d < 10 \<Longrightarrow> (of_char (digit_char d) :: nat) = 48 + d"
  by (simp add: digit_char_def)

lemma is_digit_digit_char: "d < 10 \<Longrightarrow> is_digit (digit_char d)"
  by (simp add: is_digit_def of_digit_char)

lemma digit_char_inj: "a < 10 \<Longrightarrow> b < 10 \<Longrightarrow> digit_char a = digit_char b \<longleftrightarrow> a = b"
  by (metis of_digit_char add_left_cancel)

lemma nat_to_string_digits: "c \<in> set (nat_to_string n) \<Longrightarrow> is_digit c"
proof (induction n rule: nat_to_string.induct)
  case (1 n)
  then show ?case
    by (cases "n < 10") (auto simp: nat_to_string.simps [of n] is_digit_digit_char)
qed

lemma nat_to_string_nonempty [simp]: "nat_to_string n \<noteq> []"
  by (subst nat_to_string.simps) simp

lemma nat_to_string_singleton: "nat_to_string n = [c] \<Longrightarrow> n < 10"
  by (rule ccontr) (simp add: nat_to_string.simps [of n])

lemma nat_to_string_inj: "nat_to_string m = nat_to_string n \<Longrightarrow> m = n"
proof (induction m arbitrary: n rule: nat_to_string.induct)
  case (1 m)
  consider "m < 10" | "n < 10" "\<not> m < 10" | "\<not> m < 10" "\<not> n < 10" by blast
  then show ?case
  proof cases
    case 1
    with "1.prems" have "n < 10"
      by (intro nat_to_string_singleton [of n "digit_char m"]) (simp add: nat_to_string.simps [of m])
    with 1 "1.prems" show ?thesis
      by (simp add: nat_to_string.simps [of m] nat_to_string.simps [of n] digit_char_inj)
  next
    case 2
    with "1.prems" have "m < 10"
      by (intro nat_to_string_singleton [of m "digit_char n"]) (simp add: nat_to_string.simps [of n])
    with 2 show ?thesis by simp
  next
    case 3
    with "1.prems" have "nat_to_string (m div 10) = nat_to_string (n div 10)"
      and "m mod 10 = n mod 10"
      by (simp_all add: nat_to_string.simps [of m] nat_to_string.simps [of n] digit_char_inj)
    with 3 "1.IH" have "m div 10 = n div 10" by blast
    with \<open>m mod 10 = n mod 10\<close> show ?thesis
      by (metis mod_mult_div_eq)
  qed
qed

lemma nat_to_string_eq [simp]: "nat_to_string m = nat_to_string n \<longleftrightarrow> m = n"
  using nat_to_string_inj by blast

lemma length_nat_to_string: "n < 10 ^ k \<Longrightarrow> 0 < k \<Longrightarrow> length (nat_to_string n) \<le> k"
proof (induction k arbitrary: n)
  case 0
  then show ?case by simp
next
  case (Suc k)
  show ?case
  proof (cases "n < 10")
    case True
    then show ?thesis by (simp add: nat_to_string.simps [of n])
  next
    case False
    with Suc.prems have "n div 10 < 10 ^ k" and "0 < k"
      by (auto intro!: div_less_dividend simp: less_mult_imp_div_less)
        (cases k; simp)
    with Suc.IH [of "n div 10"] False show ?thesis
      by (simp add: nat_to_string.simps [of n])
  qed
qed

section \<open>Lists of levels\<close>

lemma mset_concat_update_add:
  "l < length qs \<Longrightarrow> mset (concat (qs[l := xs])) + mset (qs ! l) = mset (concat qs) + mset xs"
proof (induction qs arbitrary: l)
  case (Cons q qs)
  then show ?case
    by (cases l) (simp_all add: ac_simps)
qed simp

lemma mset_nth_subset_concat: "l < length qs \<Longrightarrow> mset (qs ! l) \<subseteq># mset (concat qs)"
proof (induction qs arbitrary: l)
  case (Cons q qs)
  show ?case
  proof (cases l)
    case (Suc k)
    with Cons have "mset (qs ! k) \<subseteq># mset (concat qs)" by simp
    with Suc show ?thesis by (simp add: subset_mset.add_increasing)
  qed simp
qed simp

lemma mset_concat_update [mset_level]:
  "l < length qs \<Longrightarrow> mset (concat (qs[l := xs])) = mset (concat qs) - mset (qs ! l) + mset xs"
  using mset_concat_update_add [of l qs xs] mset_nth_subset_concat [of l qs]
  by (metis add_diff_cancel_right' subset_mset.add_diff_assoc2)

lemma in_concat_nth: "x \<in> set (concat qs) \<longleftrightarrow> (\<exists>l < length qs. x \<in> set (qs ! l))"
  unfolding set_concat by (metis UN_iff in_set_conv_nth)

lemma length_concat_update:
  assumes "l < length qs"
  shows "length (concat (qs[l := xs])) + length (qs ! l) = length (concat qs) + length xs"
  using arg_cong [OF mset_concat_update_add [OF assms, of xs], of size] by simp

text \<open>Removing the one element with a given key from a list whose keys are distinct.\<close>

lemma filter_key_remove1:
  "distinct (map f xs) \<Longrightarrow> x \<in> set xs \<Longrightarrow> filter (\<lambda>y. f y \<noteq> f x) xs = remove1 x xs"
proof (induction xs)
  case (Cons y ys)
  show ?case
  proof (cases "x = y")
    case True
    with Cons.prems have "f x \<notin> f ` set ys" by simp
    then have "filter (\<lambda>y. f y \<noteq> f x) ys = ys" by (intro filter_True ballI) (metis imageI)
    with True show ?thesis by simp
  next
    case False
    with Cons.prems have "x \<in> set ys" by simp
    with Cons.prems have "f y \<noteq> f x" by (auto simp: image_iff)
    with False Cons \<open>x \<in> set ys\<close> show ?thesis by simp
  qed
qed simp

lemma distinct_map_mset_subset:
  assumes "mset xs \<subseteq># mset ys" and "distinct (map f ys)"
  shows "distinct (map f xs)"
proof -
  have "mset (map f xs) \<subseteq># mset (map f ys)"
    using image_mset_subseteq_mono [OF assms(1), of f] by simp
  then have le: "count (mset (map f xs)) a \<le> count (mset (map f ys)) a" for a
    by (rule mset_subset_eq_count)
  have "count (mset (map f xs)) a \<le> 1" for a
    using le [of a] assms(2) by (simp add: distinct_count_atmost_1 split: if_splits)
  then show ?thesis
    by (auto simp: distinct_count_atmost_1 le_Suc_eq count_eq_zero_iff simp flip: set_mset_mset)
qed

lemma distinct_map_level:
  "distinct (map f (concat qs)) \<Longrightarrow> l < length qs \<Longrightarrow> distinct (map f (qs ! l))"
  by (rule distinct_map_mset_subset [OF mset_nth_subset_concat])

lemma mset_concat_remove:
  assumes "l < length qs" and "x \<in> set (qs ! l)"
  shows "mset (concat (qs[l := remove1 x (qs ! l)])) = mset (concat qs) - {#x#}"
proof -
  have "mset (concat (qs[l := remove1 x (qs ! l)])) + mset (qs ! l) = mset (concat qs) + (mset (qs ! l) - {#x#})"
    using mset_concat_update_add [OF assms(1), of "remove1 x (qs ! l)"] by simp
  moreover have "mset (qs ! l) = add_mset x (mset (qs ! l) - {#x#})" using assms(2) by simp
  ultimately have "add_mset x (mset (concat (qs[l := remove1 x (qs ! l)]))) = mset (concat qs)"
    by (metis add_right_cancel union_mset_add_mset_left union_mset_add_mset_right)
  then show ?thesis by (metis add_mset_remove_trivial)
qed

lemma mset_concat_add:
  "l < length qs \<Longrightarrow> mset (concat (qs[l := qs ! l @ [x]])) = add_mset x (mset (concat qs))"
  "l < length qs \<Longrightarrow> mset (concat (qs[l := x # qs ! l])) = add_mset x (mset (concat qs))"
  using mset_concat_update_add [of l qs "qs ! l @ [x]"] mset_concat_update_add [of l qs "x # qs ! l"]
  by (simp_all add: union_mset_add_mset_right flip: union_mset_add_mset_left)

lemma map_update_id [simp]: "(map f qs)[l := f (qs ! l)] = map f qs"
  by (metis list_update_id map_update)

text \<open>Exchanging one element of a multiset for another with the same image.\<close>

lemma image_mset_exchange:
  "x \<in># M \<Longrightarrow> f y = f x \<Longrightarrow> image_mset f (add_mset y (M - {#x#})) = image_mset f M"
  by (auto dest!: multi_member_split)

lemma image_filter_mset_exchange:
  "x \<in># M \<Longrightarrow> P y = P x \<Longrightarrow> f y = f x \<Longrightarrow>
   image_mset f (filter_mset P (add_mset y (M - {#x#}))) = image_mset f (filter_mset P M)"
  by (auto dest!: multi_member_split)

end
