(* ===== verification/Features.thy ===== *)
theory Features
  imports Prelude
begin

text \<open>
  Ingress features, \<^verbatim>\<open>include/ml/features.hpp\<close> and \<^verbatim>\<open>src/ml/features.cpp\<close>: the data
  types of an allowlisted header, its schema and the typed snapshot taken at ingress.
\<close>

section \<open>Data\<close>

datatype FeatureType = Numeric | Categorical
datatype CategoricalEncoding = Vocabulary | Hash
datatype MissingReason = Absent | InvalidType | OutOfRange | InvalidEncoding | Oversized
datatype FeatureValidity = FeaturesValid | FeaturesLimit

record HeaderFeature =
  hf_name :: string
  hf_type :: FeatureType
  hf_minimum :: double
  hf_maximum :: double
  hf_encoding :: CategoricalEncoding
  hf_vocabulary :: "string list"

record FeatureSchema =
  fs_version :: string
  fs_headers :: "HeaderFeature list"

text \<open>\<^verbatim>\<open>std::variant<std::monostate, double, std::string>\<close>.\<close>

datatype FeatureValue = FMissing | FNumber double | FText string

text \<open>
  The two \<^verbatim>\<open>std::map\<close> fields are iterated in key order when a snapshot is printed, so they
  are association lists in that order.
\<close>

record FeatureSnapshot =
  sn_payload_size_bytes :: nat
  sn_headers :: "(string \<times> FeatureValue) list"
  sn_missing_reasons :: "(string \<times> MissingReason) list"

record ExtractedFeatures =
  ef_features :: "FeatureSnapshot option"
  ef_validity :: FeatureValidity

end
