(* ===== verification/Message.thy ===== *)
theory Message
  imports Features
begin

text \<open>
  Messages and their broker-side metadata: \<^verbatim>\<open>include/queue/message.hpp\<close> and
  \<^verbatim>\<open>include/ml/routing_context.hpp\<close>. A message is expired when its time to live is
  positive and the clock has reached its saturating expiry time.
\<close>

section \<open>Routing context\<close>

datatype RoutingMode = Disabled | Shadow | Predictive

datatype FallbackReason =
    FbTimeout | FbUnavailable | FbOverloaded | FbUnready | FbIncompatibleVersion
  | FbInvalidPrediction | FbFeatureLimit | FbClientError
  | FbColdKey | FbHighSpread | FbCensored | FbStaleKey | FbInvalidKey

record RoutingContext =
  rc_feature_schema_version :: string
  rc_routing_policy_version :: string
  rc_model_version :: "string option"
  rc_features :: "FeatureSnapshot option"
  rc_feature_validity :: FeatureValidity
  rc_mode :: RoutingMode
  rc_predicted_processing_time_ms :: "double option"
  rc_predicted_bucket :: "nat option"
  rc_ingress_priority :: nat
  rc_fallback_reason :: "FallbackReason option"
  rc_inference_elapsed_ms :: "real option"
  rc_predictor_key :: "string option"
  rc_predictor_parent_key :: "string option"

section \<open>Aging policy and messages\<close>

text \<open>\<^verbatim>\<open>kTtlUnset\<close>: the TTL a proxy leaves for the routing step to resolve.\<close>

definition kTtlUnset :: millis where
  "kTtlUnset = -1"

record AgingConfig =
  ag_threshold :: millis
  ag_interval :: millis
  ag_pause_when_behind :: "bool option"

definition default_aging :: AgingConfig where
  "default_aging = \<lparr>ag_threshold = 5000, ag_interval = 500, ag_pause_when_behind = None\<rparr>"

record Message =
  m_id :: string
  m_payload :: "byte list"
  m_priority :: nat
  m_original_priority :: nat
  m_arrival_time :: time
  m_enqueue_time :: time
  m_ttl :: millis
  m_retry_count :: nat
  m_max_retries :: nat
  m_headers :: header_map
  m_routing_context :: "RoutingContext option"
  m_delivery_count :: nat

text \<open>A default-constructed message.\<close>

definition default_message :: Message where
  "default_message = \<lparr>m_id = [], m_payload = [], m_priority = 1, m_original_priority = 1,
     m_arrival_time = 0, m_enqueue_time = 0, m_ttl = 0, m_retry_count = 0, m_max_retries = 3,
     m_headers = Map.empty, m_routing_context = None, m_delivery_count = 0\<rparr>"

text \<open>Deadlines saturate at the end of the clock's range instead of overflowing.\<close>

definition expiry_time :: "Message \<Rightarrow> time" where
  "expiry_time m =
     (if max_ms \<le> m_ttl m then clock_max
      else let duration = ms_to_ns (m_ttl m) in
        if clock_max - duration < m_arrival_time m then clock_max
        else m_arrival_time m + duration)"

text \<open>\<open>now\<close> is the clock reading of the call.\<close>

definition is_expired :: "time \<Rightarrow> Message \<Rightarrow> bool" where
  "is_expired now m = (if m_ttl m \<le> 0 then False else expiry_time m \<le> now)"

datatype DLQReason = MAX_RETRIES_EXCEEDED | TTL_EXPIRED | PROCESSING_ERROR

record DLQEntry =
  d_message :: Message
  d_reason :: DLQReason
  d_time :: time
  d_details :: string

section \<open>Expiry\<close>

lemma expiry_time_frame [simp]:
  "expiry_time (m\<lparr>m_priority := p\<rparr>) = expiry_time m"
  "expiry_time (m\<lparr>m_enqueue_time := t\<rparr>) = expiry_time m"
  "expiry_time (m\<lparr>m_retry_count := r\<rparr>) = expiry_time m"
  "expiry_time (m\<lparr>m_delivery_count := c\<rparr>) = expiry_time m"
  by (simp_all add: expiry_time_def Let_def)

lemma is_expired_frame [simp]:
  "is_expired now (m\<lparr>m_priority := p\<rparr>) = is_expired now m"
  "is_expired now (m\<lparr>m_enqueue_time := t\<rparr>) = is_expired now m"
  "is_expired now (m\<lparr>m_retry_count := r\<rparr>) = is_expired now m"
  "is_expired now (m\<lparr>m_delivery_count := c\<rparr>) = is_expired now m"
  by (simp_all add: is_expired_def)

lemma expiry_time_le_max: "m_arrival_time m \<le> clock_max \<Longrightarrow> expiry_time m \<le> clock_max"
  by (simp add: expiry_time_def Let_def)

lemma is_expired_mono: "is_expired t m \<Longrightarrow> t \<le> t' \<Longrightarrow> is_expired t' m"
  by (simp add: is_expired_def split: if_splits)

end
