(* ===== verification/Multi_Level_Queue.thy ===== *)
theory Multi_Level_Queue
  imports Message
begin

text \<open>
  The multi-level queue, \<^verbatim>\<open>include/queue/multi_level_queue.hpp\<close> and
  \<^verbatim>\<open>src/queue/multi_level_queue.cpp\<close>: its state and every operation that runs under
  its mutex. A node of a \<^verbatim>\<open>std::list\<close> keeps its address for its whole life, so the
  iterators the expiry index holds are modelled by node addresses; the field
  \<open>mq_next_node\<close> is the allocator. Following an index entry whose node is gone would be
  undefined behaviour: it is the value \<open>None\<close> here, and the invariant of the next theory
  rules it out.
\<close>

section \<open>State\<close>

datatype QueueSelection = StrictPriority | RoundRobin | WeightedTime

text \<open>The iterator into the expiry index is the key it points at, with the node's address.\<close>

record Node =
  n_addr :: nat
  n_message :: Message
  n_expiry :: "time option"

type_synonym Level = "Node list"
type_synonym ExpiryIndex = "(time \<times> nat) list"

record MultiLevelQueue =
  mq_num_levels :: nat
  mq_selection :: QueueSelection
  mq_cursor :: nat
  mq_queues :: "Level list"
  mq_expiry :: ExpiryIndex
  mq_total_size :: nat
  mq_shutdown :: bool
  mq_aging_cfg :: "AgingConfig option"
  mq_next_aging :: "time option list"
  mq_promoted_in :: "nat list"
  mq_share :: "nat list option"
  mq_vclock :: "real list"
  mq_vfloor :: real
  mq_pulls :: "nat list"
  mq_charged :: "real list"
  mq_next_node :: nat

text \<open>
  The weights of the level share are part of the state; its cost function reads the
  broker's learned averages, which change between calls, so it is an argument of the
  operations that call it. \<open>None\<close> is a cost function that throws.
\<close>

type_synonym CostFn = "Message \<Rightarrow> double option"

definition kMinCostMs :: real where
  "kMinCostMs = 1"

datatype QueueError = InvalidArgument string | OutOfRangeError string

section \<open>Construction and shutdown\<close>

definition mlq_init :: "nat \<Rightarrow> AgingConfig option \<Rightarrow> QueueSelection \<Rightarrow> nat list option \<Rightarrow> MultiLevelQueue" where
  "mlq_init levels aging sel share =
     \<lparr>mq_num_levels = levels, mq_selection = sel, mq_cursor = 0,
      mq_queues = replicate levels [], mq_expiry = [], mq_total_size = 0, mq_shutdown = False,
      mq_aging_cfg = aging, mq_next_aging = replicate levels None,
      mq_promoted_in = replicate levels 0, mq_share = share,
      mq_vclock = (if share = None then [] else replicate levels 0), mq_vfloor = 0,
      mq_pulls = (if share = None then [] else replicate levels 0),
      mq_charged = (if share = None then [] else replicate levels 0),
      mq_next_node = 0\<rparr>"

text \<open>\<open>share\<close> pairs the weights with whether a cost function is present.\<close>

definition make_MultiLevelQueue ::
  "nat \<Rightarrow> AgingConfig option \<Rightarrow> QueueSelection \<Rightarrow> (nat list \<times> bool) option \<Rightarrow> QueueError + MultiLevelQueue" where
  "make_MultiLevelQueue levels aging sel share =
     (if levels = 0 then Inl (InvalidArgument ''num_levels must be positive'')
      else if (sel = WeightedTime) \<noteq> (share \<noteq> None)
        then Inl (InvalidArgument ''a level share is required with, and only with, weighted selection'')
      else if (\<exists>s. share = Some s \<and> (length (fst s) \<noteq> levels \<or> \<not> snd s))
        then Inl (InvalidArgument ''level share needs one weight per level and a cost function'')
      else if (\<exists>s. share = Some s \<and> list_ex (\<lambda>w. w < 1 \<or> 1000 < w) (fst s))
        then Inl (InvalidArgument ''level weights must be in [1, 1000]'')
      else if (\<exists>a. aging = Some a \<and> (ag_threshold a \<le> 0 \<or> ag_interval a \<le> 0))
        then Inl (InvalidArgument ''aging durations must be positive'')
      else Inr (mlq_init levels aging sel (map_option fst share)))"

definition mlq_shutdown :: "MultiLevelQueue \<Rightarrow> MultiLevelQueue" where
  "mlq_shutdown q = q\<lparr>mq_shutdown := True\<rparr>"

section \<open>Helpers that run under the lock\<close>

definition charge_locked :: "CostFn \<Rightarrow> Message \<Rightarrow> real" where
  "charge_locked cost msg =
     (case cost msg of
        None \<Rightarrow> kMinCostMs
      | Some (Finite c) \<Rightarrow> max c kMinCostMs
      | Some _ \<Rightarrow> kMinCostMs)"

definition activate_locked :: "nat \<Rightarrow> MultiLevelQueue \<Rightarrow> MultiLevelQueue" where
  "activate_locked l q = q\<lparr>mq_vclock := (mq_vclock q)[l := max (mq_vclock q ! l) (mq_vfloor q)]\<rparr>"

definition is_promoted :: "Message \<Rightarrow> bool" where
  "is_promoted m = (m_priority m < m_original_priority m)"

definition pausing :: "MultiLevelQueue \<Rightarrow> bool" where
  "pausing q = (case mq_aging_cfg q of None \<Rightarrow> False
      | Some a \<Rightarrow> (case ag_pause_when_behind a of None \<Rightarrow> False | Some b \<Rightarrow> b))"

definition paused_locked :: "nat \<Rightarrow> time \<Rightarrow> MultiLevelQueue \<Rightarrow> bool" where
  "paused_locked l now q =
     (case mq_aging_cfg q of
        None \<Rightarrow> False
      | Some a \<Rightarrow>
          if \<not> pausing q then False
          else if mq_promoted_in q ! (l - 1) = 0 then False
          else (case mq_queues q ! (l - 1) of
                  [] \<Rightarrow> False
                | h # _ \<Rightarrow> ms_to_ns (ag_threshold a) \<le> now - m_arrival_time (n_message h)))"

definition share_stats :: "MultiLevelQueue \<Rightarrow> nat list \<times> real list" where
  "share_stats q = (mq_pulls q, mq_charged q)"

text \<open>\<^verbatim>\<open>std::multimap::emplace\<close>: behind every entry with a key not above the new one.\<close>

fun index_insert :: "time \<Rightarrow> 'a \<Rightarrow> (time \<times> 'a) list \<Rightarrow> (time \<times> 'a) list" where
  "index_insert t a [] = [(t, a)]"
| "index_insert t a ((u, b) # ix) =
     (if u \<le> t then (u, b) # index_insert t a ix else (t, a) # (u, b) # ix)"

definition aging_deadline :: "AgingConfig \<Rightarrow> time \<Rightarrow> time option" where
  "aging_deadline a enqueued =
     (if max_ms \<le> ag_threshold a then None
      else let delay = ms_to_ns (ag_threshold a) in
        if clock_max - delay < enqueued then None else Some (enqueued + delay))"

definition note_aging_deadline :: "nat \<Rightarrow> time \<Rightarrow> MultiLevelQueue \<Rightarrow> MultiLevelQueue" where
  "note_aging_deadline l enqueued q =
     (case mq_aging_cfg q of
        None \<Rightarrow> q
      | Some a \<Rightarrow>
          if l = 0 then q
          else (case aging_deadline a enqueued of
                  None \<Rightarrow> q
                | Some due \<Rightarrow>
                    if (case mq_next_aging q ! l of None \<Rightarrow> True | Some d \<Rightarrow> due < d)
                    then q\<lparr>mq_next_aging := (mq_next_aging q)[l := Some due]\<rparr>
                    else q))"

section \<open>Placing and removing\<close>

definition refund_locked :: "CostFn \<Rightarrow> nat \<Rightarrow> Message \<Rightarrow> nat list \<Rightarrow> MultiLevelQueue \<Rightarrow> MultiLevelQueue" where
  "refund_locked cost l msg weights q =
     (let c = charge_locked cost msg in
        q\<lparr>mq_vclock := (mq_vclock q)[l := mq_vclock q ! l - c / real (weights ! l)],
          mq_pulls := (mq_pulls q)[l := (if mq_pulls q ! l = 0 then 0 else mq_pulls q ! l - 1)],
          mq_charged := (mq_charged q)[l := max 0 (mq_charged q ! l - c)]\<rparr>)"

text \<open>
  Linking a message: the node goes to the front or the back of its level, into the expiry
  index when it has a TTL, and into the counters.
\<close>

definition link_message :: "Message \<Rightarrow> bool \<Rightarrow> MultiLevelQueue \<Rightarrow> MultiLevelQueue" where
  "link_message msg restore_front q =
     (let l = m_priority msg;
          level = mq_queues q ! l;
          addr = mq_next_node q;
          expires = 0 < m_ttl msg;
          node = \<lparr>n_addr = addr, n_message = msg,
                  n_expiry = (if expires then Some (expiry_time msg) else None)\<rparr>
      in q\<lparr>mq_queues := (mq_queues q)[l := (if restore_front then node # level else level @ [node])],
           mq_expiry := (if expires then index_insert (expiry_time msg) addr (mq_expiry q) else mq_expiry q),
           mq_total_size := Suc (mq_total_size q),
           mq_promoted_in := (if is_promoted msg
              then (mq_promoted_in q)[l := Suc (mq_promoted_in q ! l)] else mq_promoted_in q),
           mq_next_node := Suc addr\<rparr>)"

text \<open>\<open>now\<close> is the clock reading that stamps \<^verbatim>\<open>enqueue_time\<close>; unused when restoring.\<close>

definition place_message ::
  "CostFn \<Rightarrow> time \<Rightarrow> Message \<Rightarrow> bool \<Rightarrow> MultiLevelQueue \<Rightarrow> QueueError + MultiLevelQueue" where
  "place_message cost now msg0 restore_front q =
     (if mq_num_levels q \<le> m_priority msg0 then Inl (OutOfRangeError ''priority out of range'')
      else
        let msg = (if restore_front then msg0 else msg0\<lparr>m_enqueue_time := now\<rparr>);
            l = m_priority msg;
            was_empty = (mq_queues q ! l = []);
            q1 = link_message msg restore_front q;
            q2 = note_aging_deadline l (m_enqueue_time msg) q1
        in Inr (case mq_share q of
                  None \<Rightarrow> q2
                | Some weights \<Rightarrow>
                    let q3 = (if was_empty then activate_locked l q2 else q2)
                    in if restore_front then refund_locked cost l msg weights q3 else q3))"

definition enqueue :: "CostFn \<Rightarrow> time \<Rightarrow> Message \<Rightarrow> MultiLevelQueue \<Rightarrow> QueueError + MultiLevelQueue" where
  "enqueue cost now msg q = place_message cost now msg False q"

definition requeue_front :: "CostFn \<Rightarrow> Message \<Rightarrow> MultiLevelQueue \<Rightarrow> QueueError + MultiLevelQueue" where
  "requeue_front cost msg q = place_message cost 0 msg True q"

text \<open>\<open>node\<close> is the node the iterator points at, in level \<open>l\<close>.\<close>

definition remove_locked :: "nat \<Rightarrow> Node \<Rightarrow> MultiLevelQueue \<Rightarrow> Message \<times> MultiLevelQueue" where
  "remove_locked l node q =
     (let msg = n_message node;
          level = filter (\<lambda>n. n_addr n \<noteq> n_addr node) (mq_queues q ! l)
      in (msg,
          q\<lparr>mq_expiry := (case n_expiry node of None \<Rightarrow> mq_expiry q
                          | Some t \<Rightarrow> remove1 (t, n_addr node) (mq_expiry q)),
            mq_promoted_in := (if is_promoted msg
                then (mq_promoted_in q)[l := size_dec (mq_promoted_in q ! l)] else mq_promoted_in q),
            mq_queues := (mq_queues q)[l := level],
            mq_next_aging := (if level = [] then (mq_next_aging q)[l := None] else mq_next_aging q),
            mq_total_size := size_dec (mq_total_size q)\<rparr>))"

section \<open>Selection\<close>

text \<open>The weighted scan: the non-empty level with the smallest virtual clock, the first on a tie.\<close>

fun best_level :: "nat \<Rightarrow> nat option \<Rightarrow> Level list \<Rightarrow> real list \<Rightarrow> nat option" where
  "best_level l best [] vclock = best"
| "best_level l best (level # levels) vclock =
     best_level (Suc l)
       (if level \<noteq> [] \<and> (case best of None \<Rightarrow> True | Some b \<Rightarrow> vclock ! l < vclock ! b)
        then Some l else best)
       levels vclock"

text \<open>The scan of the other two policies over the offsets \<open>i, i + 1, ..., n - 1\<close>.\<close>

fun scan_level :: "QueueSelection \<Rightarrow> nat \<Rightarrow> nat \<Rightarrow> nat list \<Rightarrow> Level list \<Rightarrow> nat option" where
  "scan_level sel cursor n [] qs = None"
| "scan_level sel cursor n (i # is) qs =
     (let l = (if sel = RoundRobin then (cursor + i) mod n else i) in
        if qs ! l \<noteq> [] then Some l else scan_level sel cursor n is qs)"

definition dequeue_locked :: "CostFn \<Rightarrow> MultiLevelQueue \<Rightarrow> Message option \<times> MultiLevelQueue" where
  "dequeue_locked cost q =
     (case mq_share q of
        Some weights \<Rightarrow>
          (case best_level 0 None (mq_queues q) (mq_vclock q) of
             None \<Rightarrow> (None, q)
           | Some l \<Rightarrow>
               let node = hd (mq_queues q ! l);
                   c = charge_locked cost (n_message node);
                   q1 = q\<lparr>mq_vfloor := max (mq_vfloor q) (mq_vclock q ! l),
                          mq_vclock := (mq_vclock q)[l := mq_vclock q ! l + c / real (weights ! l)],
                          mq_pulls := (mq_pulls q)[l := Suc (mq_pulls q ! l)],
                          mq_charged := (mq_charged q)[l := mq_charged q ! l + c]\<rparr>;
                   (msg, q2) = remove_locked l node q1
               in (Some msg, q2))
      | None \<Rightarrow>
          (case scan_level (mq_selection q) (mq_cursor q) (mq_num_levels q) [0..<mq_num_levels q] (mq_queues q) of
             None \<Rightarrow> (None, q)
           | Some l \<Rightarrow>
               let (msg, q1) = remove_locked l (hd (mq_queues q ! l)) q
               in (Some msg,
                   if mq_selection q = RoundRobin
                   then q1\<lparr>mq_cursor := (l + 1) mod mq_num_levels q\<rparr> else q1)))"

definition try_dequeue :: "CostFn \<Rightarrow> MultiLevelQueue \<Rightarrow> Message option \<times> MultiLevelQueue" where
  "try_dequeue cost q = dequeue_locked cost q"

text \<open>
  The wait of \<^verbatim>\<open>dequeue\<close> releases the mutex; \<open>q\<close> is the state when it is held again,
  because the predicate holds or the timeout has passed. \<open>dequeue_may_return\<close> is that
  condition.
\<close>

definition dequeue_may_return :: "bool \<Rightarrow> MultiLevelQueue \<Rightarrow> bool" where
  "dequeue_may_return timed_out q = (timed_out \<or> mq_shutdown q \<or> 0 < mq_total_size q)"

definition dequeue :: "CostFn \<Rightarrow> MultiLevelQueue \<Rightarrow> Message option \<times> MultiLevelQueue" where
  "dequeue cost q = dequeue_locked cost q"

section \<open>TTL sweeps\<close>

text \<open>Dereferencing an index entry: the node with that address, if it is still linked.\<close>

definition find_node :: "nat \<Rightarrow> MultiLevelQueue \<Rightarrow> Node option" where
  "find_node a q = List.find (\<lambda>n. n_addr n = a) (concat (mq_queues q))"

fun sweep_batch :: "nat \<Rightarrow> time \<Rightarrow> Message list \<Rightarrow> MultiLevelQueue \<Rightarrow> (Message list \<times> MultiLevelQueue) option" where
  "sweep_batch 0 now expired q = Some (expired, q)"
| "sweep_batch (Suc limit) now expired q =
     (case mq_expiry q of
        [] \<Rightarrow> Some (expired, q)
      | (t, a) # _ \<Rightarrow>
          if t \<le> now then
            (case find_node a q of
               None \<Rightarrow> None
             | Some node \<Rightarrow>
                 let (msg, q') = remove_locked (m_priority (n_message node)) node q
                 in sweep_batch limit now (expired @ [msg]) q')
          else Some (expired, q))"

definition sweep_expired_batch :: "nat \<Rightarrow> time \<Rightarrow> MultiLevelQueue \<Rightarrow> (Message list \<times> MultiLevelQueue) option" where
  "sweep_expired_batch limit now q = sweep_batch limit now [] q"

text \<open>
  The diagnostic sweep reads the clock once for its guard and once per message with a TTL:
  \<open>clk i\<close> is reading number \<open>i\<close>. One level is the loop over the nodes it held at the start.
\<close>

fun sweep_level ::
  "(nat \<Rightarrow> time) \<Rightarrow> nat \<Rightarrow> Node list \<Rightarrow> nat \<times> Message list \<times> MultiLevelQueue \<Rightarrow> nat \<times> Message list \<times> MultiLevelQueue" where
  "sweep_level clk l [] st = st"
| "sweep_level clk l (node # nodes) (i, expired, q) =
     (if is_expired (clk i) (n_message node)
      then let (msg, q') = remove_locked l node q in sweep_level clk l nodes (Suc i, expired @ [msg], q')
      else sweep_level clk l nodes (Suc i, expired, q))"

fun sweep_levels ::
  "(nat \<Rightarrow> time) \<Rightarrow> nat list \<Rightarrow> nat \<times> Message list \<times> MultiLevelQueue \<Rightarrow> nat \<times> Message list \<times> MultiLevelQueue" where
  "sweep_levels clk [] st = st"
| "sweep_levels clk (l # ls) (i, expired, q) =
     sweep_levels clk ls (sweep_level clk l (mq_queues q ! l) (i, expired, q))"

definition sweep_expired :: "(nat \<Rightarrow> time) \<Rightarrow> MultiLevelQueue \<Rightarrow> Message list \<times> MultiLevelQueue" where
  "sweep_expired clk q =
     (case mq_expiry q of
        [] \<Rightarrow> ([], q)
      | (t, _) # _ \<Rightarrow>
          if clk 0 < t then ([], q)
          else snd (sweep_levels clk [0..<mq_num_levels q] (1, [], q)))"

definition level_size :: "nat \<Rightarrow> MultiLevelQueue \<Rightarrow> QueueError + nat" where
  "level_size l q =
     (if mq_num_levels q \<le> l then Inl (OutOfRangeError ''level out of range'')
      else Inr (length (mq_queues q ! l)))"

section \<open>Aging\<close>

definition promote_node :: "nat \<Rightarrow> time \<Rightarrow> Node \<Rightarrow> MultiLevelQueue \<Rightarrow> MultiLevelQueue" where
  "promote_node l now node q =
     (let msg = n_message node;
          pin = (if is_promoted msg
                 then (mq_promoted_in q)[l := size_dec (mq_promoted_in q ! l)] else mq_promoted_in q);
          node' = node\<lparr>n_message := msg\<lparr>m_priority := l - 1, m_enqueue_time := now\<rparr>\<rparr>;
          destination_was_empty = (mq_queues q ! (l - 1) = []);
          source = filter (\<lambda>n. n_addr n \<noteq> n_addr node) (mq_queues q ! l);
          q1 = q\<lparr>mq_promoted_in := pin[l - 1 := Suc (pin ! (l - 1))],
                 mq_queues := (mq_queues q)[l := source, l - 1 := mq_queues q ! (l - 1) @ [node']]\<rparr>;
          q2 = (if mq_share q \<noteq> None \<and> destination_was_empty then activate_locked (l - 1) q1 else q1)
      in note_aging_deadline (l - 1) now q2)"

text \<open>
  The scan of one level. \<^verbatim>\<open>is_expired\<close> reads the clock again for each visited message:
  \<open>clk v\<close> is the reading for visit number \<open>v\<close>. The result is the visit count, whether a
  message was promoted, and the queue.
\<close>

fun age_level ::
  "(nat \<Rightarrow> time) \<Rightarrow> time \<Rightarrow> nat \<Rightarrow> AgingConfig \<Rightarrow> time \<Rightarrow> Node list
     \<Rightarrow> nat \<times> bool \<times> MultiLevelQueue \<Rightarrow> nat \<times> bool \<times> MultiLevelQueue" where
  "age_level clk now l a due_before [] st = st"
| "age_level clk now l a due_before (node # nodes) (visited, promoted, q) =
     (let msg = n_message node; visited' = Suc visited in
        if is_expired (clk visited') msg
        then age_level clk now l a due_before nodes (visited', promoted, q)
        else if (case aging_deadline a (m_enqueue_time msg) of None \<Rightarrow> False | Some due \<Rightarrow> due \<le> now)
        then let q' = promote_node l now node q in
          if pausing q
          then (visited', True, q'\<lparr>mq_next_aging := (mq_next_aging q')[l := Some due_before]\<rparr>)
          else age_level clk now l a due_before nodes (visited', True, q')
        else age_level clk now l a due_before nodes
               (visited', promoted, note_aging_deadline l (m_enqueue_time msg) q))"

text \<open>The levels \<open>l, l - 1, ..., 1\<close> in that order.\<close>

fun age_levels ::
  "(nat \<Rightarrow> time) \<Rightarrow> time \<Rightarrow> nat \<Rightarrow> AgingConfig \<Rightarrow> nat \<times> bool \<times> MultiLevelQueue \<Rightarrow> nat \<times> bool \<times> MultiLevelQueue" where
  "age_levels clk now 0 a st = st"
| "age_levels clk now (Suc l) a (visited, promoted, q) =
     (case mq_next_aging q ! Suc l of
        None \<Rightarrow> age_levels clk now l a (visited, promoted, q)
      | Some due_before \<Rightarrow>
          if now < due_before \<or> paused_locked (Suc l) now q
          then age_levels clk now l a (visited, promoted, q)
          else age_levels clk now l a
                 (age_level clk now (Suc l) a due_before (mq_queues q ! Suc l)
                    (visited, promoted, q\<lparr>mq_next_aging := (mq_next_aging q)[Suc l := None]\<rparr>)))"

definition age_once_locked :: "(nat \<Rightarrow> time) \<Rightarrow> time \<Rightarrow> MultiLevelQueue \<Rightarrow> nat \<times> MultiLevelQueue" where
  "age_once_locked clk now q =
     (case mq_aging_cfg q of
        None \<Rightarrow> (0, q)
      | Some a \<Rightarrow>
          let (visited, _, q') = age_levels clk now (mq_num_levels q - 1) a (0, False, q)
          in (visited, q'))"

text \<open>
  The aging thread: each wake-up that is not a shutdown runs one pass at the time read
  then; a wake-up with the shutdown flag set ends the loop. The list holds one entry per
  wake-up: the pass's clock readings and its time.
\<close>

fun run_aging :: "((nat \<Rightarrow> time) \<times> time) list \<Rightarrow> MultiLevelQueue \<Rightarrow> MultiLevelQueue" where
  "run_aging [] q = q"
| "run_aging ((clk, now) # wakes) q =
     (if mq_shutdown q then q else run_aging wakes (snd (age_once_locked clk now q)))"

end
