(* ===== verification/Queue_Invariant.thy ===== *)
theory Queue_Invariant
  imports Multi_Level_Queue
begin

text \<open>
  The representation invariant of the multi-level queue and its preservation by every
  operation. \<open>mlq_shape\<close> ties the vectors to the number of levels, \<open>mlq_placed\<close> says
  that a message is stored in the level its priority names, \<open>mlq_addrs\<close> that list nodes
  are distinct objects, \<open>mlq_index\<close> that the expiry index holds exactly the nodes with a
  TTL in deadline order, and \<open>mlq_counts\<close> that the cached counters are exact.
\<close>

abbreviation all_nodes :: "MultiLevelQueue \<Rightarrow> Node list" where
  "all_nodes q \<equiv> concat (mq_queues q)"

definition mlq_shape :: "MultiLevelQueue \<Rightarrow> bool" where
  "mlq_shape q \<longleftrightarrow>
     0 < mq_num_levels q \<and> length (mq_queues q) = mq_num_levels q \<and>
     length (mq_next_aging q) = mq_num_levels q \<and> length (mq_promoted_in q) = mq_num_levels q \<and>
     mq_cursor q < mq_num_levels q \<and>
     (mq_selection q = WeightedTime \<longleftrightarrow> mq_share q \<noteq> None) \<and>
     (\<forall>weights. mq_share q = Some weights \<longrightarrow>
        length weights = mq_num_levels q \<and> (\<forall>w \<in> set weights. 0 < w \<and> w \<le> 1000) \<and>
        length (mq_vclock q) = mq_num_levels q \<and> length (mq_pulls q) = mq_num_levels q \<and>
        length (mq_charged q) = mq_num_levels q) \<and>
     (\<forall>a. mq_aging_cfg q = Some a \<longrightarrow> 0 < ag_threshold a \<and> 0 < ag_interval a)"

definition mlq_placed :: "MultiLevelQueue \<Rightarrow> bool" where
  "mlq_placed q \<longleftrightarrow>
     (\<forall>l < length (mq_queues q). \<forall>n \<in> set (mq_queues q ! l).
        m_priority (n_message n) = l \<and> l \<le> m_original_priority (n_message n))"

definition mlq_addrs :: "MultiLevelQueue \<Rightarrow> bool" where
  "mlq_addrs q \<longleftrightarrow>
     distinct (map n_addr (all_nodes q)) \<and> (\<forall>n \<in> set (all_nodes q). n_addr n < mq_next_node q)"

definition has_ttl :: "Node \<Rightarrow> bool" where
  "has_ttl n \<longleftrightarrow> 0 < m_ttl (n_message n)"

definition index_entry :: "Node \<Rightarrow> time \<times> nat" where
  "index_entry n = (expiry_time (n_message n), n_addr n)"

abbreviation index_of :: "Node multiset \<Rightarrow> (time \<times> nat) multiset" where
  "index_of N \<equiv> image_mset index_entry (filter_mset has_ttl N)"

definition node_expiry :: "Node \<Rightarrow> bool" where
  "node_expiry n \<longleftrightarrow> n_expiry n = (if has_ttl n then Some (expiry_time (n_message n)) else None)"

definition mlq_index :: "MultiLevelQueue \<Rightarrow> bool" where
  "mlq_index q \<longleftrightarrow>
     sorted (map fst (mq_expiry q)) \<and> mset (mq_expiry q) = index_of (mset (all_nodes q)) \<and>
     (\<forall>n \<in> set (all_nodes q). node_expiry n)"

definition promoted_count :: "Level \<Rightarrow> nat" where
  "promoted_count level = length (filter (\<lambda>n. is_promoted (n_message n)) level)"

definition mlq_counts :: "MultiLevelQueue \<Rightarrow> bool" where
  "mlq_counts q \<longleftrightarrow>
     mq_total_size q = length (all_nodes q) \<and> mq_promoted_in q = map promoted_count (mq_queues q)"

definition mlq_inv :: "MultiLevelQueue \<Rightarrow> bool" where
  "mlq_inv q \<longleftrightarrow> mlq_shape q \<and> mlq_placed q \<and> mlq_addrs q \<and> mlq_index q \<and> mlq_counts q"

lemmas mlq_inv_defs = mlq_inv_def mlq_shape_def mlq_placed_def mlq_addrs_def mlq_index_def mlq_counts_def

lemma inv_length: "mlq_inv q \<Longrightarrow> length (mq_queues q) = mq_num_levels q"
  by (simp add: mlq_inv_defs)

lemma inv_cursor: "mlq_inv q \<Longrightarrow> mq_cursor q < mq_num_levels q"
  by (simp add: mlq_inv_def mlq_shape_def)

lemma inv_addr_inj:
  assumes "mlq_inv q" and "m \<in> set (all_nodes q)" and "n \<in> set (all_nodes q)" and "n_addr m = n_addr n"
  shows "m = n"
proof -
  have "inj_on n_addr (set (all_nodes q))"
    using assms(1) unfolding mlq_inv_def mlq_addrs_def distinct_map by blast
  then show ?thesis using assms(2-4) by (metis inj_onD)
qed

lemma inv_level_node:
  "mlq_inv q \<Longrightarrow> l < mq_num_levels q \<Longrightarrow> n \<in> set (mq_queues q ! l) \<Longrightarrow>
   n \<in> set (all_nodes q) \<and> m_priority (n_message n) = l \<and> l \<le> m_original_priority (n_message n) \<and> node_expiry n"
  unfolding mlq_inv_def mlq_placed_def mlq_index_def mlq_shape_def by (metis in_concat_nth)

lemma inv_node_level:
  "mlq_inv q \<Longrightarrow> n \<in> set (all_nodes q) \<Longrightarrow>
   m_priority (n_message n) < mq_num_levels q \<and> n \<in> set (mq_queues q ! m_priority (n_message n))"
  unfolding mlq_inv_def mlq_placed_def mlq_shape_def by (metis in_concat_nth)

lemma filter_other_level:
  assumes inv: "mlq_inv q" and n: "l < mq_num_levels q" "n \<in> set (mq_queues q ! l)"
    and k: "k < mq_num_levels q" "k \<noteq> l"
  shows "filter (\<lambda>m. n_addr m \<noteq> n_addr n) (mq_queues q ! k) = mq_queues q ! k"
proof (intro filter_True ballI notI)
  fix m assume m: "m \<in> set (mq_queues q ! k)" "n_addr m = n_addr n"
  then have "m = n"
    using inv_addr_inj [OF inv] inv_level_node [OF inv k(1) m(1)] inv_level_node [OF inv n] by blast
  then show False
    using inv_level_node [OF inv k(1) m(1)] inv_level_node [OF inv n] k(2) by simp
qed

section \<open>Frames\<close>

text \<open>The bookkeeping helpers leave the linked nodes and the expiry index alone.\<close>

lemma note_aging_deadline_frame [frame, simp]:
  "mq_num_levels (note_aging_deadline l t q) = mq_num_levels q"
  "mq_selection (note_aging_deadline l t q) = mq_selection q"
  "mq_cursor (note_aging_deadline l t q) = mq_cursor q"
  "mq_queues (note_aging_deadline l t q) = mq_queues q"
  "mq_expiry (note_aging_deadline l t q) = mq_expiry q"
  "mq_total_size (note_aging_deadline l t q) = mq_total_size q"
  "mq_shutdown (note_aging_deadline l t q) = mq_shutdown q"
  "mq_aging_cfg (note_aging_deadline l t q) = mq_aging_cfg q"
  "mq_promoted_in (note_aging_deadline l t q) = mq_promoted_in q"
  "mq_share (note_aging_deadline l t q) = mq_share q"
  "mq_vclock (note_aging_deadline l t q) = mq_vclock q"
  "mq_vfloor (note_aging_deadline l t q) = mq_vfloor q"
  "mq_pulls (note_aging_deadline l t q) = mq_pulls q"
  "mq_charged (note_aging_deadline l t q) = mq_charged q"
  "mq_next_node (note_aging_deadline l t q) = mq_next_node q"
  "length (mq_next_aging (note_aging_deadline l t q)) = length (mq_next_aging q)"
  by (simp_all add: note_aging_deadline_def split: option.split)

lemma activate_locked_frame [frame, simp]:
  "mq_num_levels (activate_locked l q) = mq_num_levels q"
  "mq_selection (activate_locked l q) = mq_selection q"
  "mq_cursor (activate_locked l q) = mq_cursor q"
  "mq_queues (activate_locked l q) = mq_queues q"
  "mq_expiry (activate_locked l q) = mq_expiry q"
  "mq_total_size (activate_locked l q) = mq_total_size q"
  "mq_shutdown (activate_locked l q) = mq_shutdown q"
  "mq_aging_cfg (activate_locked l q) = mq_aging_cfg q"
  "mq_promoted_in (activate_locked l q) = mq_promoted_in q"
  "mq_share (activate_locked l q) = mq_share q"
  "mq_next_aging (activate_locked l q) = mq_next_aging q"
  "mq_vfloor (activate_locked l q) = mq_vfloor q"
  "mq_pulls (activate_locked l q) = mq_pulls q"
  "mq_charged (activate_locked l q) = mq_charged q"
  "mq_next_node (activate_locked l q) = mq_next_node q"
  "length (mq_vclock (activate_locked l q)) = length (mq_vclock q)"
  by (simp_all add: activate_locked_def)

lemma refund_locked_frame [frame, simp]:
  "mq_num_levels (refund_locked c l m w q) = mq_num_levels q"
  "mq_selection (refund_locked c l m w q) = mq_selection q"
  "mq_cursor (refund_locked c l m w q) = mq_cursor q"
  "mq_queues (refund_locked c l m w q) = mq_queues q"
  "mq_expiry (refund_locked c l m w q) = mq_expiry q"
  "mq_total_size (refund_locked c l m w q) = mq_total_size q"
  "mq_shutdown (refund_locked c l m w q) = mq_shutdown q"
  "mq_aging_cfg (refund_locked c l m w q) = mq_aging_cfg q"
  "mq_promoted_in (refund_locked c l m w q) = mq_promoted_in q"
  "mq_share (refund_locked c l m w q) = mq_share q"
  "mq_next_aging (refund_locked c l m w q) = mq_next_aging q"
  "mq_vfloor (refund_locked c l m w q) = mq_vfloor q"
  "mq_next_node (refund_locked c l m w q) = mq_next_node q"
  "length (mq_vclock (refund_locked c l m w q)) = length (mq_vclock q)"
  "length (mq_pulls (refund_locked c l m w q)) = length (mq_pulls q)"
  "length (mq_charged (refund_locked c l m w q)) = length (mq_charged q)"
  by (simp_all add: refund_locked_def Let_def)

text \<open>
  Two queues with the same linked structure satisfy the invariant together: everything
  but the aging deadlines, clocks and counters of the level share is compared.
\<close>

definition same_structure :: "MultiLevelQueue \<Rightarrow> MultiLevelQueue \<Rightarrow> bool" where
  "same_structure q r \<longleftrightarrow>
     mq_num_levels q = mq_num_levels r \<and> mq_selection q = mq_selection r \<and>
     mq_queues q = mq_queues r \<and> mq_expiry q = mq_expiry r \<and> mq_total_size q = mq_total_size r \<and>
     mq_aging_cfg q = mq_aging_cfg r \<and> mq_promoted_in q = mq_promoted_in r \<and>
     mq_share q = mq_share r \<and> mq_next_node q = mq_next_node r \<and>
     length (mq_next_aging q) = length (mq_next_aging r) \<and> length (mq_vclock q) = length (mq_vclock r) \<and>
     length (mq_pulls q) = length (mq_pulls r) \<and> length (mq_charged q) = length (mq_charged r)"

lemma same_structure_inv:
  "same_structure q r \<Longrightarrow> mq_cursor q < mq_num_levels q \<Longrightarrow> mlq_inv r \<Longrightarrow> mlq_inv q"
  by (simp add: same_structure_def mlq_inv_defs)

section \<open>The expiry index\<close>

lemma index_insert_mset: "mset (index_insert t a ix) = add_mset (t, a) (mset ix)"
  by (induction t a ix rule: index_insert.induct) auto

lemma index_insert_set: "set (index_insert t a ix) = insert (t, a) (set ix)"
  by (induction t a ix rule: index_insert.induct) auto

lemma index_insert_sorted: "sorted (map fst ix) \<Longrightarrow> sorted (map fst (index_insert t a ix))"
  by (induction t a ix rule: index_insert.induct) (auto simp: index_insert_set)

lemma promoted_count_simps [simp]:
  "promoted_count [] = 0"
  "promoted_count (n # ns) = (if is_promoted (n_message n) then Suc (promoted_count ns) else promoted_count ns)"
  "promoted_count (xs @ ys) = promoted_count xs + promoted_count ys"
  by (simp_all add: promoted_count_def)

lemma promoted_count_remove1:
  "n \<in> set level \<Longrightarrow>
   promoted_count level = (if is_promoted (n_message n) then Suc (promoted_count (remove1 n level))
                           else promoted_count (remove1 n level))"
  by (induction level) auto

lemma promoted_count_removed:
  "n \<in> set level \<Longrightarrow> promoted_count (remove1 n level) =
     (if is_promoted (n_message n) then size_dec (promoted_count level) else promoted_count level)"
  by (simp add: promoted_count_remove1 [of n level])

lemma promoted_count_pos:
  "n \<in> set level \<Longrightarrow> is_promoted (n_message n) \<Longrightarrow> 0 < promoted_count level"
  by (auto simp: promoted_count_def filter_empty_conv)

section \<open>The initial queue\<close>

lemma make_MultiLevelQueue_inv: "make_MultiLevelQueue n aging sel share = Inr q \<Longrightarrow> mlq_inv q"
  by (cases share)
    (auto simp: make_MultiLevelQueue_def mlq_init_def mlq_inv_defs list_ex_iff not_less split: if_splits)

lemma make_MultiLevelQueue_empty: "make_MultiLevelQueue n aging sel share = Inr q \<Longrightarrow> all_nodes q = []"
  by (auto simp: make_MultiLevelQueue_def mlq_init_def split: if_splits)

section \<open>Linking\<close>

lemma link_message_frame [frame, simp]:
  "mq_num_levels (link_message m b q) = mq_num_levels q"
  "mq_selection (link_message m b q) = mq_selection q"
  "mq_cursor (link_message m b q) = mq_cursor q"
  "mq_shutdown (link_message m b q) = mq_shutdown q"
  "mq_aging_cfg (link_message m b q) = mq_aging_cfg q"
  "mq_next_aging (link_message m b q) = mq_next_aging q"
  "mq_share (link_message m b q) = mq_share q"
  "mq_vclock (link_message m b q) = mq_vclock q"
  "mq_vfloor (link_message m b q) = mq_vfloor q"
  "mq_pulls (link_message m b q) = mq_pulls q"
  "mq_charged (link_message m b q) = mq_charged q"
  "mq_total_size (link_message m b q) = Suc (mq_total_size q)"
  "mq_next_node (link_message m b q) = Suc (mq_next_node q)"
  by (simp_all add: link_message_def Let_def)

definition new_node :: "Message \<Rightarrow> MultiLevelQueue \<Rightarrow> Node" where
  "new_node m q = \<lparr>n_addr = mq_next_node q, n_message = m,
     n_expiry = (if 0 < m_ttl m then Some (expiry_time m) else None)\<rparr>"

lemma new_node_simps [simp]:
  "n_addr (new_node m q) = mq_next_node q" "n_message (new_node m q) = m"
  "node_expiry (new_node m q)" "has_ttl (new_node m q) \<longleftrightarrow> 0 < m_ttl m"
  "index_entry (new_node m q) = (expiry_time m, mq_next_node q)"
  by (simp_all add: new_node_def node_expiry_def has_ttl_def index_entry_def)

lemma link_message_queues:
  "mq_queues (link_message m b q) =
     (mq_queues q)[m_priority m := (if b then new_node m q # mq_queues q ! m_priority m
                                    else mq_queues q ! m_priority m @ [new_node m q])]"
  by (simp add: link_message_def Let_def new_node_def)

lemma link_message_counts:
  "mq_promoted_in (link_message m b q) =
     (if is_promoted m then (mq_promoted_in q)[m_priority m := Suc (mq_promoted_in q ! m_priority m)]
      else mq_promoted_in q)"
  by (simp add: link_message_def Let_def)

lemma link_message_nodes:
  "m_priority m < length (mq_queues q) \<Longrightarrow>
   mset (all_nodes (link_message m b q)) = add_mset (new_node m q) (mset (all_nodes q))"
  by (simp add: link_message_queues mset_concat_add)

lemma link_message_inv:
  assumes inv: "mlq_inv q" and p: "m_priority m < mq_num_levels q" "m_priority m \<le> m_original_priority m"
  shows "mlq_inv (link_message m b q)"
proof -
  let ?q = "link_message m b q"
  have len: "m_priority m < length (mq_queues q)" using inv p by (simp add: mlq_inv_defs)
  note nodes = link_message_nodes [OF len, of b]
  have set: "set (all_nodes ?q) = insert (new_node m q) (set (all_nodes q))"
    by (metis nodes set_mset_mset set_mset_add_mset_insert)
  have "mlq_shape ?q" using inv
    by (simp add: mlq_inv_defs link_message_queues) (simp add: link_message_def Let_def)
  moreover have "mlq_placed ?q" using inv p len
    by (auto simp: mlq_inv_def mlq_placed_def link_message_queues nth_list_update)
  moreover have "mlq_addrs ?q"
  proof -
    have "mset (map n_addr (all_nodes ?q)) = mset (mq_next_node q # map n_addr (all_nodes q))"
      by (simp only: mset_map nodes) simp
    moreover have "mq_next_node q \<notin> n_addr ` set (all_nodes q)"
      using inv unfolding mlq_inv_def mlq_addrs_def by (metis imageE less_irrefl)
    then have "distinct (mq_next_node q # map n_addr (all_nodes q))"
      using inv by (simp add: mlq_inv_def mlq_addrs_def)
    ultimately have "distinct (map n_addr (all_nodes ?q))" by (metis mset_eq_imp_distinct_iff)
    then show ?thesis using inv set by (auto simp: mlq_inv_def mlq_addrs_def less_Suc_eq)
  qed
  moreover have "mlq_index ?q"
  proof -
    have "mset (mq_expiry ?q) = index_of (mset (all_nodes ?q))"
      using inv by (simp only: nodes) (simp add: link_message_def Let_def mlq_inv_def mlq_index_def index_insert_mset)
    moreover have "sorted (map fst (mq_expiry ?q))"
      using inv by (simp add: link_message_def Let_def mlq_inv_def mlq_index_def index_insert_sorted)
    ultimately show ?thesis using inv set by (simp add: mlq_inv_def mlq_index_def)
  qed
  moreover have "mlq_counts ?q"
  proof -
    have "length (all_nodes ?q) = Suc (length (all_nodes q))"
      by (metis nodes size_mset size_add_mset)
    then show ?thesis
      using inv len by (simp add: mlq_inv_def mlq_counts_def link_message_counts link_message_queues map_update)
  qed
  ultimately show ?thesis by (simp add: mlq_inv_def)
qed

text \<open>What a successful placement does to the linked structure.\<close>

lemma place_message_Inr:
  assumes "place_message cost now m b q = Inr q'"
  shows "m_priority m < mq_num_levels q"
    and "same_structure q' (link_message (if b then m else m\<lparr>m_enqueue_time := now\<rparr>) b q)"
    and "mq_cursor q' = mq_cursor q" and "mq_shutdown q' = mq_shutdown q" and "mq_vfloor q' = mq_vfloor q"
  using assms
  by (auto simp: place_message_def same_structure_def Let_def split: if_splits option.splits)

lemma place_message_inv:
  assumes "place_message cost now m b q = Inr q'" and "mlq_inv q"
    and "m_priority m \<le> m_original_priority m"
  shows "mlq_inv q'"
proof -
  let ?m = "if b then m else m\<lparr>m_enqueue_time := now\<rparr>"
  have "mlq_inv (link_message ?m b q)"
    using place_message_Inr(1) [OF assms(1)] assms(2,3) by (intro link_message_inv) auto
  moreover from this have "mq_cursor q' < mq_num_levels q'"
    using place_message_Inr [OF assms(1)] assms(2) by (simp add: same_structure_def mlq_inv_defs)
  ultimately show ?thesis
    using place_message_Inr(2) [OF assms(1)] same_structure_inv by blast
qed

section \<open>Removing\<close>

lemma remove_locked_frame [frame, simp]:
  "mq_num_levels (snd (remove_locked l n q)) = mq_num_levels q"
  "mq_selection (snd (remove_locked l n q)) = mq_selection q"
  "mq_cursor (snd (remove_locked l n q)) = mq_cursor q"
  "mq_shutdown (snd (remove_locked l n q)) = mq_shutdown q"
  "mq_aging_cfg (snd (remove_locked l n q)) = mq_aging_cfg q"
  "length (mq_next_aging (snd (remove_locked l n q))) = length (mq_next_aging q)"
  "mq_share (snd (remove_locked l n q)) = mq_share q"
  "mq_vclock (snd (remove_locked l n q)) = mq_vclock q"
  "mq_vfloor (snd (remove_locked l n q)) = mq_vfloor q"
  "mq_pulls (snd (remove_locked l n q)) = mq_pulls q"
  "mq_charged (snd (remove_locked l n q)) = mq_charged q"
  "mq_next_node (snd (remove_locked l n q)) = mq_next_node q"
  "fst (remove_locked l n q) = n_message n"
  "length (mq_queues (snd (remove_locked l n q))) = length (mq_queues q)"
  by (simp_all add: remove_locked_def Let_def)

lemma remove_locked_counts:
  "mq_promoted_in (snd (remove_locked l n q)) =
     (if is_promoted (n_message n) then (mq_promoted_in q)[l := size_dec (mq_promoted_in q ! l)]
      else mq_promoted_in q)"
  "mq_total_size (snd (remove_locked l n q)) = size_dec (mq_total_size q)"
  by (simp_all add: remove_locked_def Let_def)

lemma inv_level_distinct:
  "mlq_inv q \<Longrightarrow> l < mq_num_levels q \<Longrightarrow> distinct (map n_addr (mq_queues q ! l))"
  by (simp add: mlq_inv_defs distinct_map_level)

lemma remove_locked_queues:
  assumes "mlq_inv q" and "l < mq_num_levels q" and "n \<in> set (mq_queues q ! l)"
  shows "mq_queues (snd (remove_locked l n q)) = (mq_queues q)[l := remove1 n (mq_queues q ! l)]"
  using filter_key_remove1 [OF inv_level_distinct [OF assms(1,2)] assms(3)]
  by (simp add: remove_locked_def Let_def)

lemma remove_locked_nodes:
  assumes "mlq_inv q" and "l < mq_num_levels q" and "n \<in> set (mq_queues q ! l)"
  shows "mset (all_nodes (snd (remove_locked l n q))) = mset (all_nodes q) - {#n#}"
    and "n \<in># mset (all_nodes q)"
proof -
  have l: "l < length (mq_queues q)" using assms by (simp add: mlq_inv_defs)
  show "mset (all_nodes (snd (remove_locked l n q))) = mset (all_nodes q) - {#n#}"
    by (simp only: remove_locked_queues [OF assms] mset_concat_remove [OF l assms(3)])
  show "n \<in># mset (all_nodes q)"
    using mset_subset_eqD [OF mset_nth_subset_concat [OF l]] assms(3) by (metis set_mset_mset)
qed

lemma remove_locked_inv:
  assumes inv: "mlq_inv q" and l: "l < mq_num_levels q" and n: "n \<in> set (mq_queues q ! l)"
  shows "mlq_inv (snd (remove_locked l n q))"
proof -
  let ?q = "snd (remove_locked l n q)"
  note queues = remove_locked_queues [OF inv l n]
  note nodes = remove_locked_nodes [OF inv l n]
  have len: "l < length (mq_queues q)" using inv l by (simp add: mlq_inv_defs)
  have sub: "mset (all_nodes ?q) \<subseteq># mset (all_nodes q)" using nodes by simp
  have set: "set (all_nodes ?q) \<subseteq> set (all_nodes q)" using set_mset_mono [OF sub] by (metis set_mset_mset)
  have ne: "node_expiry n" using inv nodes(2) unfolding mlq_inv_def mlq_index_def by (metis set_mset_mset)
  have "mlq_shape ?q" using inv
    by (simp add: mlq_inv_def mlq_shape_def) (simp add: remove_locked_def Let_def)
  moreover have "mlq_placed ?q" using inv len
    by (auto simp: mlq_inv_def mlq_placed_def queues nth_list_update split: if_splits
        dest: set_remove1_subset [THEN subsetD])
  moreover have "mlq_addrs ?q"
    using inv set distinct_map_mset_subset [OF sub] unfolding mlq_inv_def mlq_addrs_def by auto
  moreover have "mlq_index ?q"
  proof -
    have "mset (mq_expiry ?q) = index_of (mset (all_nodes q) - {#n#})"
      using inv ne nodes(2)
      by (auto simp: remove_locked_def Let_def mlq_inv_def mlq_index_def node_expiry_def index_entry_def
          image_mset_Diff filter_diff_mset split: option.splits if_splits)
    moreover have "sorted (map fst (mq_expiry ?q))"
      using inv by (auto simp: remove_locked_def Let_def mlq_inv_def mlq_index_def sorted_map_remove1 split: option.split)
    ultimately show ?thesis using inv set nodes(1) by (auto simp: mlq_inv_def mlq_index_def)
  qed
  moreover have "mlq_counts ?q"
  proof -
    have "mq_promoted_in ?q = map promoted_count (mq_queues ?q)"
      using inv len
      by (simp add: queues map_update remove_locked_counts mlq_inv_def mlq_counts_def promoted_count_removed [OF n])
    moreover have "length (all_nodes q) = Suc (length (all_nodes ?q))"
      using nodes by (metis insert_DiffM size_add_mset size_mset)
    then have "mq_total_size ?q = length (all_nodes ?q)"
      using inv by (simp add: remove_locked_def Let_def mlq_inv_def mlq_counts_def)
    ultimately show ?thesis by (simp add: mlq_counts_def)
  qed
  ultimately show ?thesis by (simp add: mlq_inv_def)
qed

end
