(* ===== verification/Queue_Selection.thy ===== *)
theory Queue_Selection
  imports Queue_Invariant
begin

text \<open>
  Which message a pull removes, for each selection policy of \<^verbatim>\<open>dequeue_locked\<close>, and that
  every pull keeps the queue's invariant. A pull always takes the head of one level; the
  policy only chooses the level.
\<close>

section \<open>The scans\<close>

lemma scan_level_Some:
  "scan_level sel cursor n is qs = Some l \<Longrightarrow>
   qs ! l \<noteq> [] \<and> (\<exists>i \<in> set is. l = (if sel = RoundRobin then (cursor + i) mod n else i))"
  by (induction "is") (auto simp: Let_def split: if_splits)

lemma scan_level_None:
  "scan_level sel cursor n is qs = None \<longleftrightarrow>
   (\<forall>i \<in> set is. qs ! (if sel = RoundRobin then (cursor + i) mod n else i) = [])"
  by (induction "is") (auto simp: Let_def)

text \<open>The scan stops at the first offset whose level is not empty.\<close>

lemma scan_level_first:
  "scan_level sel cursor n is qs = Some l \<Longrightarrow>
   \<exists>k < length is. l = (if sel = RoundRobin then (cursor + is ! k) mod n else is ! k) \<and>
     (\<forall>j < k. qs ! (if sel = RoundRobin then (cursor + is ! j) mod n else is ! j) = [])"
proof (induction "is")
  case (Cons i "is")
  let ?l = "if sel = RoundRobin then (cursor + i) mod n else i"
  show ?case
  proof (cases "qs ! ?l = []")
    case True
    with Cons.prems have "scan_level sel cursor n is qs = Some l" by (simp add: Let_def)
    then obtain k where k: "k < length is" "l = (if sel = RoundRobin then (cursor + is ! k) mod n else is ! k)"
      and before: "\<forall>j < k. qs ! (if sel = RoundRobin then (cursor + is ! j) mod n else is ! j) = []"
      using Cons.IH by blast
    from before True have "\<forall>j < Suc k. qs ! (if sel = RoundRobin then (cursor + (i # is) ! j) mod n else (i # is) ! j) = []"
      by (auto simp: less_Suc_eq_0_disj)
    with k show ?thesis by (intro exI [of _ "Suc k"]) auto
  next
    case False
    with Cons.prems have "l = ?l" by (simp add: Let_def)
    then show ?thesis by (intro exI [of _ 0]) auto
  qed
qed simp

lemma cyclic_surj: "0 < n \<Longrightarrow> l < n \<Longrightarrow> \<exists>i < n. (c + i) mod n = (l::nat)"
proof -
  assume n: "0 < n" and l: "l < n"
  let ?i = "(l + (n - c mod n)) mod n"
  have "(c + ?i) mod n = (c mod n + (l + (n - c mod n))) mod n"
    by (metis mod_add_left_eq mod_add_right_eq)
  also have "c mod n + (l + (n - c mod n)) = l + n" using mod_less_divisor [OF n, of c] by linarith
  finally have "(c + ?i) mod n = l" using l by simp
  moreover have "?i < n" using n by simp
  ultimately show ?thesis by blast
qed

text \<open>The weighted scan over the levels below \<open>k\<close>: its running best.\<close>

definition running_best :: "Level list \<Rightarrow> real list \<Rightarrow> nat \<Rightarrow> nat option \<Rightarrow> bool" where
  "running_best qs v k best \<longleftrightarrow>
     (case best of
        None \<Rightarrow> \<forall>j < k. qs ! j = []
      | Some b \<Rightarrow> b < k \<and> qs ! b \<noteq> [] \<and> (\<forall>j < k. qs ! j \<noteq> [] \<longrightarrow> v ! b \<le> v ! j) \<and>
          (\<forall>j < b. qs ! j \<noteq> [] \<longrightarrow> v ! b < v ! j))"

lemma best_level_running:
  assumes "running_best qs v l best" and "l \<le> length qs"
  shows "running_best qs v (length qs) (best_level l best (drop l qs) v)"
  using assms
proof (induction "length qs - l" arbitrary: l best)
  case 0
  then show ?case by simp
next
  case (Suc k)
  then have l: "l < length qs" by simp
  then have d: "drop l qs = qs ! l # drop (Suc l) qs" by (simp add: Cons_nth_drop_Suc)
  let ?best = "if qs ! l \<noteq> [] \<and> (case best of None \<Rightarrow> True | Some b \<Rightarrow> v ! l < v ! b) then Some l else best"
  have "running_best qs v (Suc l) ?best"
    using Suc.prems(1)
    by (auto simp: running_best_def less_Suc_eq split: option.splits)
  with Suc.hyps(1) [of "Suc l" ?best] Suc.hyps(2) l show ?case by (simp add: d)
qed

lemma best_level_spec: "running_best qs v (length qs) (best_level 0 None qs v)"
  using best_level_running [of qs v 0 None] by (simp add: running_best_def)

section \<open>One pull\<close>

text \<open>The level a pull serves.\<close>

definition selected_level :: "MultiLevelQueue \<Rightarrow> nat option" where
  "selected_level q =
     (if mq_share q = None
      then scan_level (mq_selection q) (mq_cursor q) (mq_num_levels q) [0..<mq_num_levels q] (mq_queues q)
      else best_level 0 None (mq_queues q) (mq_vclock q))"

lemma selected_level_Some:
  assumes "mlq_inv q" and "selected_level q = Some l"
  shows "l < mq_num_levels q" and "mq_queues q ! l \<noteq> []"
proof -
  have len: "length (mq_queues q) = mq_num_levels q" and n: "0 < mq_num_levels q"
    using assms(1) by (simp_all add: mlq_inv_defs)
  show "l < mq_num_levels q" and "mq_queues q ! l \<noteq> []"
    using assms(2) n best_level_spec [of "mq_queues q" "mq_vclock q"]
    by (auto simp: selected_level_def running_best_def len dest!: scan_level_Some split: if_splits)
qed

lemma selected_level_None:
  assumes "mlq_inv q"
  shows "selected_level q = None \<longleftrightarrow> all_nodes q = []"
proof -
  have len: "length (mq_queues q) = mq_num_levels q" and n: "0 < mq_num_levels q"
    using assms by (simp_all add: mlq_inv_defs)
  have empty: "all_nodes q = [] \<longleftrightarrow> (\<forall>l < mq_num_levels q. mq_queues q ! l = [])"
    by (auto simp: concat_eq_Nil_conv all_set_conv_all_nth len)
  show ?thesis
  proof (cases "mq_share q")
    case None
    have "selected_level q = None \<longleftrightarrow> (\<forall>i < mq_num_levels q. mq_queues q ! (if mq_selection q = RoundRobin
             then (mq_cursor q + i) mod mq_num_levels q else i) = [])"
      using None unfolding selected_level_def by (simp only: scan_level_None if_True simp_thms set_upt) auto
    also have "(\<forall>i < mq_num_levels q. mq_queues q ! (if mq_selection q = RoundRobin
             then (mq_cursor q + i) mod mq_num_levels q else i) = []) \<longleftrightarrow> (\<forall>l < mq_num_levels q. mq_queues q ! l = [])"
    proof (cases "mq_selection q = RoundRobin")
      case True
      then show ?thesis
        using cyclic_surj [OF n, where c = "mq_cursor q"] n by (simp, metis mod_less_divisor)
    qed simp
    finally show ?thesis unfolding empty .
  next
    case (Some w)
    then show ?thesis
      using best_level_spec [of "mq_queues q" "mq_vclock q"] unfolding empty selected_level_def len
      by (cases "best_level 0 None (mq_queues q) (mq_vclock q)") (auto simp: running_best_def)
  qed
qed

lemma dequeue_locked_None:
  "selected_level q = None \<Longrightarrow> dequeue_locked cost q = (None, q)"
  by (auto simp: selected_level_def dequeue_locked_def split: option.splits if_splits)

text \<open>What a pull that serves level \<open>l\<close> does.\<close>

lemma dequeue_locked_Some:
  assumes inv: "mlq_inv q" and sel: "selected_level q = Some l"
  obtains n rest q' where "mq_queues q ! l = n # rest" and "l < mq_num_levels q"
    and "dequeue_locked cost q = (Some (n_message n), q')"
    and "mlq_inv q'" and "mq_queues q' = (mq_queues q)[l := rest]"
    and "mset (all_nodes q) = add_mset n (mset (all_nodes q'))"
    and "mq_num_levels q' = mq_num_levels q" and "mq_selection q' = mq_selection q"
    and "mq_aging_cfg q' = mq_aging_cfg q" and "mq_share q' = mq_share q"
    and "mq_shutdown q' = mq_shutdown q"
    and "mq_cursor q' = (if mq_selection q = RoundRobin then (l + 1) mod mq_num_levels q else mq_cursor q)"
proof -
  note l = selected_level_Some [OF inv sel]
  then obtain n rest where head: "mq_queues q ! l = n # rest" by (cases "mq_queues q ! l") auto
  have shape: "mlq_shape q" using inv by (simp add: mlq_inv_def)
  show thesis
  proof (cases "mq_share q")
    case None
    define q1 where "q1 = snd (remove_locked l n q)"
    define q' where "q' = (if mq_selection q = RoundRobin then q1\<lparr>mq_cursor := (l + 1) mod mq_num_levels q\<rparr> else q1)"
    have n: "n \<in> set (mq_queues q ! l)" using head by simp
    have inv1: "mlq_inv q1" unfolding q1_def by (rule remove_locked_inv [OF inv l(1) n])
    have st: "same_structure q' q1" by (simp add: q'_def same_structure_def)
    moreover have "mq_cursor q' < mq_num_levels q'"
      using shape by (auto simp: q'_def q1_def mlq_shape_def)
    ultimately have "mlq_inv q'" using same_structure_inv inv1 by blast
    moreover have "dequeue_locked cost q = (Some (n_message n), q')"
      using None sel head
      by (simp add: dequeue_locked_def selected_level_def q'_def q1_def case_prod_unfold Let_def)
    moreover have "mq_queues q' = (mq_queues q)[l := rest]"
      using remove_locked_queues [OF inv l(1) n] head by (simp add: q'_def q1_def)
    moreover have "mset (all_nodes q) = add_mset n (mset (all_nodes q'))"
      using remove_locked_nodes [OF inv l(1) n] st
      by (simp add: q1_def same_structure_def)
    ultimately show thesis
      using that head l by (simp add: q'_def q1_def)
  next
    case (Some weights)
    define c where "c = charge_locked cost (n_message n)"
    define q0 where "q0 = q\<lparr>mq_vfloor := max (mq_vfloor q) (mq_vclock q ! l),
        mq_vclock := (mq_vclock q)[l := mq_vclock q ! l + c / real (weights ! l)],
        mq_pulls := (mq_pulls q)[l := Suc (mq_pulls q ! l)],
        mq_charged := (mq_charged q)[l := mq_charged q ! l + c]\<rparr>"
    define q' where "q' = snd (remove_locked l n q0)"
    have "same_structure q0 q" by (simp add: q0_def same_structure_def)
    then have inv0: "mlq_inv q0" using same_structure_inv [of q0 q] inv shape
      by (simp add: q0_def mlq_shape_def)
    have n: "n \<in> set (mq_queues q0 ! l)" and l0: "l < mq_num_levels q0"
      using head l by (simp_all add: q0_def)
    have "dequeue_locked cost q = (Some (n_message n), q')"
      using Some sel head
      by (simp add: dequeue_locked_def selected_level_def q'_def q0_def c_def case_prod_unfold Let_def)
    moreover have "mlq_inv q'" unfolding q'_def by (rule remove_locked_inv [OF inv0 l0 n])
    moreover have "mq_queues q' = (mq_queues q)[l := rest]"
      using remove_locked_queues [OF inv0 l0 n] head by (simp add: q'_def q0_def)
    moreover have "mset (all_nodes q) = add_mset n (mset (all_nodes q'))"
      using remove_locked_nodes [OF inv0 l0 n] by (simp add: q'_def q0_def)
    moreover have "mq_selection q \<noteq> RoundRobin" using shape Some by (auto simp: mlq_shape_def)
    ultimately show thesis
      using that head l by (simp add: q'_def q0_def)
  qed
qed

lemma dequeue_locked_inv: "mlq_inv q \<Longrightarrow> mlq_inv (snd (dequeue_locked cost q))"
  by (cases "selected_level q") (auto simp: dequeue_locked_None elim: dequeue_locked_Some [of q _ cost])

end
