(* ===== verification/Queue_Expiry.thy ===== *)
theory Queue_Expiry
  imports Queue_Invariant
begin

text \<open>
  TTL sweeps. The bounded sweep \<^verbatim>\<open>sweep_expired_batch\<close> only looks at the front of the
  expiry index; the theorems here say that it never follows a dangling entry, returns
  exactly the due messages with the earliest deadlines, and leaves every other message
  where it was. The diagnostic sweep \<^verbatim>\<open>sweep_expired\<close> visits every node.
\<close>

section \<open>Following the index\<close>

lemma find_node_inv:
  assumes inv: "mlq_inv q" and e: "(t, a) \<in> set (mq_expiry q)"
  obtains n l where "find_node a q = Some n" and "l < mq_num_levels q" and "n \<in> set (mq_queues q ! l)"
    and "n_addr n = a" and "has_ttl n" and "expiry_time (n_message n) = t"
    and "m_priority (n_message n) = l" and "n_expiry n = Some t"
proof -
  have "(t, a) \<in># index_of (mset (all_nodes q))"
    using inv e unfolding mlq_inv_def mlq_index_def by (metis set_mset_mset)
  then obtain n where n: "n \<in> set (all_nodes q)" "has_ttl n" "expiry_time (n_message n) = t" "n_addr n = a"
    by (auto simp: index_entry_def)
  then obtain l where l: "l < length (mq_queues q)" "n \<in> set (mq_queues q ! l)"
    by (auto simp only: in_concat_nth)
  have "find_node a q \<noteq> None"
    using n by (auto simp: find_node_def find_None_iff)
  then obtain n' where n': "find_node a q = Some n'" by blast
  then have "n_addr n' = a" "n' \<in> set (all_nodes q)"
    by (auto simp: find_node_def find_Some_iff simp del: set_concat)
  with n inv have "n' = n" by (intro inv_addr_inj) auto
  moreover have "node_expiry n" using inv n(1) unfolding mlq_inv_def mlq_index_def by blast
  ultimately show thesis
    using that n' n l inv by (auto simp: mlq_inv_defs node_expiry_def)
qed

lemma not_expired_index:
  assumes inv: "mlq_inv q" and n: "n \<in> set (all_nodes q)"
  shows "is_expired now (n_message n) \<longleftrightarrow> has_ttl n \<and> expiry_time (n_message n) \<le> now"
    and "has_ttl n \<Longrightarrow> (expiry_time (n_message n), n_addr n) \<in> set (mq_expiry q)"
proof -
  show "is_expired now (n_message n) \<longleftrightarrow> has_ttl n \<and> expiry_time (n_message n) \<le> now"
    by (auto simp: is_expired_def has_ttl_def)
  assume "has_ttl n"
  with n have "index_entry n \<in># index_of (mset (all_nodes q))" by (auto simp del: set_concat)
  then show "(expiry_time (n_message n), n_addr n) \<in> set (mq_expiry q)"
    using inv unfolding mlq_inv_def mlq_index_def by (metis index_entry_def set_mset_mset)
qed

section \<open>The bounded sweep\<close>

definition due :: "time \<Rightarrow> ExpiryIndex \<Rightarrow> ExpiryIndex" where
  "due now ix = takeWhile (\<lambda>e. fst e \<le> now) ix"

lemma remove_locked_expiry:
  "n_expiry n = Some t \<Longrightarrow> mq_expiry (snd (remove_locked l n q)) = remove1 (t, n_addr n) (mq_expiry q)"
  by (simp add: remove_locked_def Let_def)

lemma sweep_batch_spec:
  assumes "mlq_inv q"
  shows "\<exists>ns q'. sweep_batch limit now acc q = Some (acc @ map n_message ns, q') \<and> mlq_inv q' \<and>
     map index_entry ns = take limit (due now (mq_expiry q)) \<and>
     (\<forall>n \<in> set ns. has_ttl n) \<and>
     mq_expiry q' = drop (length ns) (mq_expiry q) \<and>
     mset (all_nodes q) = mset ns + mset (all_nodes q') \<and>
     (\<forall>l < mq_num_levels q. mq_queues q' ! l = filter (\<lambda>n. n_addr n \<notin> n_addr ` set ns) (mq_queues q ! l)) \<and>
     mq_num_levels q' = mq_num_levels q \<and> mq_aging_cfg q' = mq_aging_cfg q"
  using assms
proof (induction limit arbitrary: acc q)
  case 0
  then show ?case by (intro exI [of _ "[]"]) simp
next
  case (Suc limit)
  show ?case
  proof (cases "mq_expiry q")
    case Nil
    with Suc.prems show ?thesis by (intro exI [of _ "[]"]) (simp add: due_def)
  next
    case (Cons e ix)
    obtain t a where e: "e = (t, a)" by (cases e)
    show ?thesis
    proof (cases "t \<le> now")
      case False
      with Suc.prems Cons e show ?thesis by (intro exI [of _ "[]"]) (simp add: due_def)
    next
      case True
      obtain n l where n: "find_node a q = Some n" "l < mq_num_levels q" "n \<in> set (mq_queues q ! l)"
        "n_addr n = a" "has_ttl n" "expiry_time (n_message n) = t" "m_priority (n_message n) = l" "n_expiry n = Some t"
        using find_node_inv [OF Suc.prems, of t a] Cons e by auto
      let ?q = "snd (remove_locked l n q)"
      have inv: "mlq_inv ?q" by (rule remove_locked_inv [OF Suc.prems n(2,3)])
      have ix: "mq_expiry ?q = ix" using remove_locked_expiry [OF n(8)] Cons e n(4) by simp
      have nodes: "mset (all_nodes q) = add_mset n (mset (all_nodes ?q))"
        using remove_locked_nodes [OF Suc.prems n(2,3)] by simp
      have len: "length (mq_queues q) = mq_num_levels q" using Suc.prems by (simp add: mlq_inv_defs)
      have queues: "mq_queues ?q = (mq_queues q)[l := filter (\<lambda>m. n_addr m \<noteq> a) (mq_queues q ! l)]"
        using n(4) by (simp add: remove_locked_def Let_def)
      have others: "filter (\<lambda>m. n_addr m \<noteq> a) (mq_queues q ! k) = mq_queues q ! k"
        if "k < mq_num_levels q" "k \<noteq> l" for k
        using filter_other_level [OF Suc.prems n(2,3) that] n(4) by simp
      from Suc.IH [OF inv, of "acc @ [n_message n]"] obtain ns q' where IH:
        "sweep_batch limit now (acc @ [n_message n]) ?q = Some ((acc @ [n_message n]) @ map n_message ns, q')"
        "mlq_inv q'" "map index_entry ns = take limit (due now ix)" "\<forall>n \<in> set ns. has_ttl n"
        "mq_expiry q' = drop (length ns) ix" "mset (all_nodes ?q) = mset ns + mset (all_nodes q')"
        "\<forall>k < mq_num_levels q. mq_queues q' ! k = filter (\<lambda>n. n_addr n \<notin> n_addr ` set ns) (mq_queues ?q ! k)"
        "mq_num_levels q' = mq_num_levels q" "mq_aging_cfg q' = mq_aging_cfg q"
        unfolding ix by auto
      have "mq_queues q' ! k = filter (\<lambda>m. n_addr m \<notin> n_addr ` set (n # ns)) (mq_queues q ! k)"
        if k: "k < mq_num_levels q" for k
        using IH(7) k len n(4) others [OF k]
        by (cases "k = l") (auto simp: queues nth_list_update conj_commute, metis (no_types) filter_filter)
      moreover have "sweep_batch (Suc limit) now acc q = Some (acc @ map n_message (n # ns), q')"
        using Cons e True n(1,7) IH(1) by (simp add: case_prod_unfold)
      moreover have "index_entry n = (t, a)" using n by (simp add: index_entry_def)
      ultimately show ?thesis
        using IH n(5) True Cons e nodes
        by (intro exI [of _ "n # ns"] exI [of _ q']) (simp add: due_def)
    qed
  qed
qed

lemma due_take: "take limit (due now ix) = take (min limit (length (due now ix))) ix"
  unfolding due_def by (metis takeWhile_eq_take take_take)

lemma after_due: "sorted (map fst ix) \<Longrightarrow> e \<in> set (drop (length (due now ix)) ix) \<Longrightarrow> now < fst e"
  by (induction ix) (auto simp: due_def split: if_splits)

lemma due_le: "e \<in> set (due now ix) \<Longrightarrow> fst e \<le> now"
  by (auto simp: due_def dest: set_takeWhileD)

text \<open>
  The contract of the bounded sweep, in terms of messages: it always succeeds, returns at
  most \<open>limit\<close> messages, all of them expired and in deadline order, leaves no earlier
  deadline behind, and when it returns fewer than \<open>limit\<close> no expired message is left.
\<close>

lemma sweep_expired_batch_spec:
  assumes inv: "mlq_inv q"
  obtains ns q' where "sweep_expired_batch limit now q = Some (map n_message ns, q')" and "mlq_inv q'"
    and "mset (all_nodes q) = mset ns + mset (all_nodes q')" and "length ns \<le> limit"
    and "\<forall>n \<in> set ns. is_expired now (n_message n)"
    and "sorted (map (\<lambda>n. expiry_time (n_message n)) ns)"
    and "\<forall>n \<in> set ns. \<forall>m \<in> set (all_nodes q'). has_ttl m \<longrightarrow> expiry_time (n_message n) \<le> expiry_time (n_message m)"
    and "length ns < limit \<Longrightarrow> \<forall>m \<in> set (all_nodes q'). \<not> is_expired now (n_message m)"
    and "\<forall>l < mq_num_levels q. mq_queues q' ! l = filter (\<lambda>n. n_addr n \<notin> n_addr ` set ns) (mq_queues q ! l)"
    and "mq_num_levels q' = mq_num_levels q" and "mq_aging_cfg q' = mq_aging_cfg q"
proof -
  from sweep_batch_spec [OF inv, of limit now "[]"] obtain ns q' where
    run: "sweep_batch limit now [] q = Some (map n_message ns, q')" and inv': "mlq_inv q'"
    and ix: "map index_entry ns = take limit (due now (mq_expiry q))" and ttl: "\<forall>n \<in> set ns. has_ttl n"
    and rest: "mq_expiry q' = drop (length ns) (mq_expiry q)"
    and nodes: "mset (all_nodes q) = mset ns + mset (all_nodes q')"
    and queues: "\<forall>l < mq_num_levels q. mq_queues q' ! l = filter (\<lambda>n. n_addr n \<notin> n_addr ` set ns) (mq_queues q ! l)"
    and frame: "mq_num_levels q' = mq_num_levels q" "mq_aging_cfg q' = mq_aging_cfg q"
    by auto
  let ?ix = "mq_expiry q"
  have sorted: "sorted (map fst ?ix)" using inv by (simp add: mlq_inv_def mlq_index_def)
  have times: "map (\<lambda>n. expiry_time (n_message n)) ns = map fst (map index_entry ns)"
    by (simp add: index_entry_def)
  have len: "length ns = min limit (length (due now ?ix))" using arg_cong [OF ix, of length] by simp
  have pre: "map index_entry ns = take (length ns) ?ix"
    using ix len by (simp add: due_take)
  have split: "?ix = map index_entry ns @ mq_expiry q'" by (simp add: pre rest)
  have order: "sorted (map fst (map index_entry ns @ mq_expiry q'))" using sorted split by simp
  show thesis
  proof (rule that)
    show "sweep_expired_batch limit now q = Some (map n_message ns, q')" by (simp add: sweep_expired_batch_def run)
    show "\<forall>n \<in> set ns. is_expired now (n_message n)"
    proof
      fix n assume n: "n \<in> set ns"
      then have "index_entry n \<in> set (due now ?ix)" using ix by (metis imageI list.set_map in_set_takeD)
      with n ttl show "is_expired now (n_message n)"
        by (auto simp: is_expired_def has_ttl_def index_entry_def dest: due_le)
    qed
    show "sorted (map (\<lambda>n. expiry_time (n_message n)) ns)"
      using order by (simp only: times map_append sorted_append)
    show "\<forall>n \<in> set ns. \<forall>m \<in> set (all_nodes q'). has_ttl m \<longrightarrow> expiry_time (n_message n) \<le> expiry_time (n_message m)"
    proof (intro ballI impI)
      fix n m assume n: "n \<in> set ns" and m: "m \<in> set (all_nodes q')" "has_ttl m"
      have "(expiry_time (n_message m), n_addr m) \<in> set (mq_expiry q')"
        by (rule not_expired_index(2) [OF inv' m])
      moreover have "expiry_time (n_message n) \<in> set (map fst (map index_entry ns))"
        using n by (force simp: index_entry_def)
      ultimately show "expiry_time (n_message n) \<le> expiry_time (n_message m)"
        using order by (fastforce simp: sorted_append)
    qed
    show "\<forall>m \<in> set (all_nodes q'). \<not> is_expired now (n_message m)" if less: "length ns < limit"
    proof (intro ballI notI)
      fix m assume m: "m \<in> set (all_nodes q')" and exp: "is_expired now (n_message m)"
      then have ttl: "has_ttl m" and le: "expiry_time (n_message m) \<le> now"
        using not_expired_index(1) [OF inv' m] by auto
      have "mq_expiry q' = drop (length (due now ?ix)) ?ix" using less len rest by simp
      moreover have "(expiry_time (n_message m), n_addr m) \<in> set (mq_expiry q')"
        by (rule not_expired_index(2) [OF inv' m ttl])
      ultimately have "now < expiry_time (n_message m)" using after_due [OF sorted] by (metis fst_conv)
      with le show False by simp
    qed
  qed (use inv' nodes len queues frame in auto)
qed

section \<open>The diagnostic sweep\<close>

text \<open>The nodes a scan with clock readings \<open>clk i, clk (i + 1), ...\<close> finds expired.\<close>

definition scan_expired :: "(nat \<Rightarrow> time) \<Rightarrow> nat \<Rightarrow> Node list \<Rightarrow> Node list" where
  "scan_expired clk i ns = map snd (filter (\<lambda>(k, n). is_expired (clk k) (n_message n)) (enumerate i ns))"

lemma scan_expired_simps [simp]:
  "scan_expired clk i [] = []"
  "scan_expired clk i (n # ns) =
     (if is_expired (clk i) (n_message n) then n # scan_expired clk (Suc i) ns else scan_expired clk (Suc i) ns)"
  "scan_expired clk i (xs @ ys) = scan_expired clk i xs @ scan_expired clk (i + length xs) ys"
  by (simp_all add: scan_expired_def enumerate_append_eq)

lemma scan_expired_subset: "set (scan_expired clk i ns) \<subseteq> set ns"
  by (induction ns arbitrary: i) auto

lemma sweep_level_spec:
  assumes "mlq_inv q" and "l < mq_num_levels q" and "set ns \<subseteq> set (mq_queues q ! l)" and "distinct ns"
  shows "\<exists>q'. sweep_level clk l ns (i, acc, q) = (i + length ns, acc @ map n_message (scan_expired clk i ns), q') \<and>
     mlq_inv q' \<and> mset (all_nodes q) = mset (scan_expired clk i ns) + mset (all_nodes q') \<and>
     mq_num_levels q' = mq_num_levels q \<and> (\<forall>k. k \<noteq> l \<longrightarrow> mq_queues q' ! k = mq_queues q ! k)"
  using assms
proof (induction ns arbitrary: i acc q)
  case (Cons n ns)
  show ?case
  proof (cases "is_expired (clk i) (n_message n)")
    case False
    with Cons.IH [of q "Suc i" acc] Cons.prems show ?thesis by simp
  next
    case True
    let ?q = "snd (remove_locked l n q)"
    have n: "n \<in> set (mq_queues q ! l)" using Cons.prems by simp
    note queues = remove_locked_queues [OF Cons.prems(1,2) n]
    have "set ns \<subseteq> set (mq_queues ?q ! l)"
    proof
      fix m assume "m \<in> set ns"
      with Cons.prems have "m \<noteq> n" "m \<in> set (mq_queues q ! l)" by auto
      with Cons.prems(1,2) show "m \<in> set (mq_queues ?q ! l)" by (simp add: queues inv_length)
    qed
    moreover have "mlq_inv ?q" by (rule remove_locked_inv [OF Cons.prems(1,2) n])
    moreover have "mset (all_nodes q) = add_mset n (mset (all_nodes ?q))"
      using remove_locked_nodes [OF Cons.prems(1,2) n] by simp
    moreover have "\<forall>k. k \<noteq> l \<longrightarrow> mq_queues ?q ! k = mq_queues q ! k" by (simp add: queues)
    ultimately show ?thesis
      using Cons.IH [of ?q "Suc i" "acc @ [n_message n]"] Cons.prems True by (auto simp: case_prod_unfold)
  qed
qed simp

lemma sweep_levels_spec:
  assumes "mlq_inv q" and "set ls \<subseteq> {..<mq_num_levels q}" and "distinct ls"
  shows "\<exists>i' q'. sweep_levels clk ls (i, acc, q) =
       (i', acc @ map n_message (scan_expired clk i (concat (map ((!) (mq_queues q)) ls))), q') \<and>
     mlq_inv q' \<and>
     mset (all_nodes q) = mset (scan_expired clk i (concat (map ((!) (mq_queues q)) ls))) + mset (all_nodes q')"
  using assms
proof (induction ls arbitrary: i acc q)
  case (Cons l ls)
  have l: "l < mq_num_levels q" using Cons.prems by simp
  have "distinct (mq_queues q ! l)"
    using inv_level_distinct [OF Cons.prems(1) l] by (simp add: distinct_map)
  from sweep_level_spec [OF Cons.prems(1) l order.refl this, of clk i acc] obtain q1 where q1:
    "sweep_level clk l (mq_queues q ! l) (i, acc, q) =
       (i + length (mq_queues q ! l), acc @ map n_message (scan_expired clk i (mq_queues q ! l)), q1)"
    "mlq_inv q1" "mset (all_nodes q) = mset (scan_expired clk i (mq_queues q ! l)) + mset (all_nodes q1)"
    "mq_num_levels q1 = mq_num_levels q" "\<forall>k. k \<noteq> l \<longrightarrow> mq_queues q1 ! k = mq_queues q ! k"
    by blast
  have same: "map ((!) (mq_queues q1)) ls = map ((!) (mq_queues q)) ls"
    using q1(5) Cons.prems(3) by auto
  from Cons.IH [OF q1(2), of "i + length (mq_queues q ! l)"
      "acc @ map n_message (scan_expired clk i (mq_queues q ! l))"] Cons.prems
  show ?case
    unfolding same q1(4) by (auto simp: q1(1,3) add.assoc)
qed simp

lemma concat_levels: "mlq_inv q \<Longrightarrow> concat (map ((!) (mq_queues q)) [0..<mq_num_levels q]) = all_nodes q"
  by (metis inv_length map_nth)

lemma sweep_expired_spec:
  assumes inv: "mlq_inv q"
  obtains ns q' where "sweep_expired clk q = (map n_message ns, q')" and "mlq_inv q'"
    and "mset (all_nodes q) = mset ns + mset (all_nodes q')"
    and "ns = (if (\<exists>n \<in> set (all_nodes q). is_expired (clk 0) (n_message n)) then scan_expired clk 1 (all_nodes q) else [])"
proof (cases "\<exists>n \<in> set (all_nodes q). is_expired (clk 0) (n_message n)")
  case True
  then obtain n where n: "n \<in> set (all_nodes q)" "has_ttl n" "expiry_time (n_message n) \<le> clk 0"
    using not_expired_index(1) [OF inv] by blast
  then have "(expiry_time (n_message n), n_addr n) \<in> set (mq_expiry q)" using not_expired_index(2) [OF inv] by blast
  then obtain t a ix where ix: "mq_expiry q = (t, a) # ix" and "t \<le> expiry_time (n_message n)"
    using inv by (cases "mq_expiry q") (auto simp: mlq_inv_def mlq_index_def)
  with n(3) have "\<not> clk 0 < t" by simp
  from sweep_levels_spec [OF inv, of "[0..<mq_num_levels q]" clk 1 "[]"] obtain i' q' where
    "sweep_levels clk [0..<mq_num_levels q] (1, [], q) = (i', map n_message (scan_expired clk 1 (all_nodes q)), q')"
    "mlq_inv q'" "mset (all_nodes q) = mset (scan_expired clk 1 (all_nodes q)) + mset (all_nodes q')"
    by (auto simp: concat_levels [OF inv] atLeast0LessThan)
  then show thesis
    using that [of "scan_expired clk 1 (all_nodes q)" q'] True ix \<open>\<not> clk 0 < t\<close> by (simp add: sweep_expired_def)
next
  case False
  have "sweep_expired clk q = ([], q)"
  proof (cases "mq_expiry q")
    case (Cons e ix)
    obtain t a where e: "e = (t, a)" by (cases e)
    obtain n l where "n \<in> set (mq_queues q ! l)" "l < mq_num_levels q" "has_ttl n" "expiry_time (n_message n) = t"
      using Cons e by (auto intro: find_node_inv [OF inv, of t a])
    then have "\<not> t \<le> clk 0" using False inv_level_node [OF inv] not_expired_index(1) [OF inv] by blast
    then show ?thesis using Cons e by (simp add: sweep_expired_def)
  qed (simp add: sweep_expired_def)
  then show thesis using that [of "[]" q] inv False by simp
qed

end
