(* ===== verification/Queue_Aging.thy ===== *)
theory Queue_Aging
  imports Queue_Invariant
begin

text \<open>
  Aging passes, \<^verbatim>\<open>age_once_locked\<close>. A pass is described by the set of nodes it promotes:
  \<open>ages_by now S q q'\<close> says that \<open>q'\<close> holds the nodes of \<open>q\<close>, those in \<open>S\<close> moved up one
  level and restamped, and that every node of \<open>S\<close> was overdue below the top level. The
  composition of two such steps is again one, because a restamped node is not overdue.
\<close>

section \<open>Overdue messages\<close>

definition overdue :: "AgingConfig \<Rightarrow> time \<Rightarrow> Message \<Rightarrow> bool" where
  "overdue a now m = (case aging_deadline a (m_enqueue_time m) of None \<Rightarrow> False | Some d \<Rightarrow> d \<le> now)"

text \<open>A node as the pass leaves it after promotion.\<close>

definition aged :: "time \<Rightarrow> Node \<Rightarrow> Node" where
  "aged now n = n\<lparr>n_message := (n_message n)\<lparr>m_priority := m_priority (n_message n) - 1, m_enqueue_time := now\<rparr>\<rparr>"

lemma aged_simps [simp]:
  "n_addr (aged now n) = n_addr n" "n_expiry (aged now n) = n_expiry n"
  "m_priority (n_message (aged now n)) = m_priority (n_message n) - 1"
  "m_enqueue_time (n_message (aged now n)) = now"
  "m_original_priority (n_message (aged now n)) = m_original_priority (n_message n)"
  "m_ttl (n_message (aged now n)) = m_ttl (n_message n)"
  "m_id (n_message (aged now n)) = m_id (n_message n)"
  "m_arrival_time (n_message (aged now n)) = m_arrival_time (n_message n)"
  "expiry_time (n_message (aged now n)) = expiry_time (n_message n)"
  "is_expired t (n_message (aged now n)) = is_expired t (n_message n)"
  "has_ttl (aged now n) = has_ttl n" "index_entry (aged now n) = index_entry n"
  "node_expiry (aged now n) = node_expiry n"
  by (simp_all add: aged_def has_ttl_def index_entry_def node_expiry_def expiry_time_def is_expired_def Let_def)

lemma overdue_earlier: "0 < ag_threshold a \<Longrightarrow> overdue a now m \<Longrightarrow> m_enqueue_time m < now"
proof -
  assume "0 < ag_threshold a" and od: "overdue a now m"
  then have "0 < ms_to_ns (ag_threshold a)" by simp
  with od show ?thesis
    by (auto simp: overdue_def aging_deadline_def Let_def simp del: ms_to_ns_pos split: if_splits)
qed

section \<open>Steps\<close>

definition ages_by :: "AgingConfig \<Rightarrow> time \<Rightarrow> Node set \<Rightarrow> MultiLevelQueue \<Rightarrow> MultiLevelQueue \<Rightarrow> bool" where
  "ages_by a now S q q' \<longleftrightarrow>
     mlq_inv q' \<and> S \<subseteq> set (all_nodes q) \<and>
     (\<forall>n \<in> S. 0 < m_priority (n_message n) \<and> overdue a now (n_message n)) \<and>
     mset (all_nodes q') = image_mset (\<lambda>n. if n \<in> S then aged now n else n) (mset (all_nodes q)) \<and>
     mq_num_levels q' = mq_num_levels q \<and> mq_aging_cfg q' = mq_aging_cfg q \<and>
     mq_share q' = mq_share q \<and> mq_selection q' = mq_selection q \<and> mq_shutdown q' = mq_shutdown q \<and>
     mq_cursor q' = mq_cursor q \<and> mq_vfloor q' = mq_vfloor q \<and>
     mq_pulls q' = mq_pulls q \<and> mq_charged q' = mq_charged q \<and> mq_total_size q' = mq_total_size q"

lemma ages_by_nodes:
  assumes "ages_by a now S q q'"
  shows "set (all_nodes q') = (\<lambda>n. if n \<in> S then aged now n else n) ` set (all_nodes q)"
proof -
  have "set_mset (mset (all_nodes q')) = set_mset (image_mset (\<lambda>n. if n \<in> S then aged now n else n) (mset (all_nodes q)))"
    using assms by (simp only: ages_by_def)
  then show ?thesis by (simp only: set_image_mset set_mset_mset)
qed

lemma ages_by_refl: "mlq_inv q \<Longrightarrow> ages_by a now {} q q"
  by (simp add: ages_by_def)

text \<open>Bookkeeping that leaves the linked structure and the level share alone is a step.\<close>

lemma ages_by_structure:
  assumes "ages_by a now S q q'" and "same_structure q'' q'" and "mq_cursor q'' = mq_cursor q'"
    and "mq_shutdown q'' = mq_shutdown q'" and "mq_vfloor q'' = mq_vfloor q'"
    and "mq_pulls q'' = mq_pulls q'" and "mq_charged q'' = mq_charged q'"
  shows "ages_by a now S q q''"
proof -
  have inv: "mlq_inv q'" using assms(1) by (simp add: ages_by_def)
  then have "mq_cursor q'' < mq_num_levels q''"
    using inv_cursor [OF inv] assms(2,3) by (simp add: same_structure_def)
  then have "mlq_inv q''" by (rule same_structure_inv [OF assms(2) _ inv])
  with assms show ?thesis by (simp add: ages_by_def same_structure_def)
qed

lemma ages_by_trans:
  assumes inv: "mlq_inv q" and pos: "0 < ag_threshold a"
    and step1: "ages_by a now S1 q q1" and step2: "ages_by a now S2 q1 q2"
  shows "ages_by a now (S1 \<union> S2) q q2"
proof -
  note nodes1 = ages_by_nodes [OF step1]
  have fresh: "aged now n \<notin> S2" for n
    using step2 overdue_earlier [OF pos] by (fastforce simp: ages_by_def)
  have S2: "S2 \<subseteq> set (all_nodes q)"
  proof
    fix n assume n: "n \<in> S2"
    then have "n \<in> set (all_nodes q1)" using step2 by (auto simp: ages_by_def)
    with n fresh show "n \<in> set (all_nodes q)" unfolding nodes1 by (auto split: if_splits)
  qed
  have "mset (all_nodes q2) = image_mset (\<lambda>n. if n \<in> S1 \<union> S2 then aged now n else n) (mset (all_nodes q))"
    using step1 step2 fresh
    by (simp add: ages_by_def multiset.map_comp comp_def) (rule image_mset_cong, auto)
  with step1 step2 S2 show ?thesis unfolding ages_by_def by auto
qed

section \<open>Promotion\<close>

lemma promote_node_nodes:
  assumes inv: "mlq_inv q" and l: "0 < l" "l < mq_num_levels q" and n: "n \<in> set (mq_queues q ! l)"
  shows "mq_queues (promote_node l now n q) =
      (mq_queues q)[l := remove1 n (mq_queues q ! l), l - 1 := mq_queues q ! (l - 1) @ [aged now n]]"
    and "mset (all_nodes (promote_node l now n q)) = add_mset (aged now n) (mset (all_nodes q) - {#n#})"
proof -
  have pr: "m_priority (n_message n) = l" using inv_level_node [OF inv l(2) n] by simp
  have len: "l < length (mq_queues q)" using inv l by (simp add: inv_length)
  show queues: "mq_queues (promote_node l now n q) =
      (mq_queues q)[l := remove1 n (mq_queues q ! l), l - 1 := mq_queues q ! (l - 1) @ [aged now n]]"
    using pr filter_key_remove1 [OF inv_level_distinct [OF inv l(2)] n]
    by (simp add: promote_node_def Let_def aged_def)
  let ?qs = "(mq_queues q)[l := remove1 n (mq_queues q ! l)]"
  have "?qs ! (l - 1) = mq_queues q ! (l - 1)" using l by simp
  then have "mset (all_nodes (promote_node l now n q)) = add_mset (aged now n) (mset (concat ?qs))"
    using mset_concat_add(1) [of "l - 1" ?qs "aged now n"] len by (simp add: queues)
  then show "mset (all_nodes (promote_node l now n q)) = add_mset (aged now n) (mset (all_nodes q) - {#n#})"
    by (simp only: mset_concat_remove [OF len n])
qed

lemma promote_node_frame [frame, simp]:
  "mq_num_levels (promote_node l now n q) = mq_num_levels q"
  "mq_selection (promote_node l now n q) = mq_selection q"
  "mq_cursor (promote_node l now n q) = mq_cursor q"
  "mq_expiry (promote_node l now n q) = mq_expiry q"
  "mq_total_size (promote_node l now n q) = mq_total_size q"
  "mq_shutdown (promote_node l now n q) = mq_shutdown q"
  "mq_aging_cfg (promote_node l now n q) = mq_aging_cfg q"
  "mq_share (promote_node l now n q) = mq_share q"
  "mq_vfloor (promote_node l now n q) = mq_vfloor q"
  "mq_pulls (promote_node l now n q) = mq_pulls q"
  "mq_charged (promote_node l now n q) = mq_charged q"
  "mq_next_node (promote_node l now n q) = mq_next_node q"
  "length (mq_next_aging (promote_node l now n q)) = length (mq_next_aging q)"
  "length (mq_vclock (promote_node l now n q)) = length (mq_vclock q)"
  by (simp_all add: promote_node_def Let_def)

lemma promote_node_counts:
  "mq_promoted_in (promote_node l now n q) =
     (let pin = (if is_promoted (n_message n) then (mq_promoted_in q)[l := size_dec (mq_promoted_in q ! l)]
                 else mq_promoted_in q)
      in pin[l - 1 := Suc (pin ! (l - 1))])"
  by (simp add: promote_node_def Let_def)

lemma promote_node_inv:
  assumes inv: "mlq_inv q" and l: "0 < l" "l < mq_num_levels q" and n: "n \<in> set (mq_queues q ! l)"
  shows "mlq_inv (promote_node l now n q)"
proof -
  let ?q = "promote_node l now n q"
  note queues = promote_node_nodes(1) [OF inv l n, of now]
  note nodes = promote_node_nodes(2) [OF inv l n, of now]
  note node = inv_level_node [OF inv l(2) n]
  have len: "length (mq_queues q) = mq_num_levels q" by (rule inv_length [OF inv])
  have mem: "n \<in># mset (all_nodes q)" using node by (simp only: set_mset_mset)
  have sub: "set (all_nodes ?q) \<subseteq> insert (aged now n) (set (all_nodes q))"
    using set_mset_mono [OF diff_subset_eq_self, of "mset (all_nodes q)" "{#n#}"]
    by (metis insert_mono nodes set_mset_add_mset_insert set_mset_mset)
  have prom: "is_promoted (n_message (aged now n))" using node l by (auto simp: is_promoted_def)
  have "mlq_shape ?q" using inv by (simp add: mlq_inv_defs queues) (simp add: promote_node_counts Let_def)
  moreover have "mlq_placed ?q" unfolding mlq_placed_def
  proof (intro allI impI ballI)
    fix k m assume k: "k < length (mq_queues ?q)" and m: "m \<in> set (mq_queues ?q ! k)"
    consider "k = l - 1" "m = aged now n" | "m \<in> set (mq_queues q ! k)"
      using k m l len by (auto simp: queues nth_list_update split: if_splits dest: set_remove1_subset [THEN subsetD])
    then show "m_priority (n_message m) = k \<and> k \<le> m_original_priority (n_message m)"
    proof cases
      case 1
      with node show ?thesis by auto
    next
      case 2
      with k len show ?thesis using inv_level_node [OF inv _ 2] by (simp add: queues)
    qed
  qed
  moreover have "mlq_addrs ?q"
  proof -
    have "mset (map n_addr (all_nodes ?q)) = mset (map n_addr (all_nodes q))"
      by (simp only: mset_map nodes image_mset_exchange [OF mem] aged_simps)
    then have "distinct (map n_addr (all_nodes ?q)) = distinct (map n_addr (all_nodes q))"
      by (rule mset_eq_imp_distinct_iff)
    moreover have "\<forall>m \<in> set (all_nodes ?q). n_addr m < mq_next_node q"
      using sub node inv unfolding mlq_inv_def mlq_addrs_def by (metis aged_simps(1) insertE subsetD)
    ultimately show ?thesis using inv by (simp only: mlq_inv_def mlq_addrs_def promote_node_frame)
  qed
  moreover have "mlq_index ?q"
  proof -
    have "index_of (mset (all_nodes ?q)) = index_of (mset (all_nodes q))"
      by (simp only: nodes image_filter_mset_exchange [OF mem] aged_simps)
    moreover have "\<forall>m \<in> set (all_nodes ?q). node_expiry m"
      using sub node inv unfolding mlq_inv_def mlq_index_def by (metis aged_simps(13) insertE subsetD)
    ultimately show ?thesis using inv by (simp only: mlq_inv_def mlq_index_def promote_node_frame)
  qed
  moreover have "mlq_counts ?q"
  proof -
    have "mq_promoted_in ?q = map promoted_count (mq_queues ?q)"
      using inv len l prom
      by (simp add: promote_node_counts queues map_update mlq_inv_def mlq_counts_def promoted_count_removed [OF n] Let_def)
    moreover have "length (all_nodes ?q) = length (all_nodes q)"
      using mem by (metis nodes size_Suc_Diff1 size_add_mset size_mset)
    ultimately show ?thesis using inv by (simp add: mlq_inv_def mlq_counts_def)
  qed
  ultimately show ?thesis by (simp add: mlq_inv_def)
qed

lemma promote_node_ages:
  assumes inv: "mlq_inv q" and l: "0 < l" "l < mq_num_levels q" and n: "n \<in> set (mq_queues q ! l)"
    and od: "overdue a now (n_message n)"
  shows "ages_by a now {n} q (promote_node l now n q)"
proof -
  have mem: "n \<in># mset (all_nodes q)" and pr: "m_priority (n_message n) = l"
    using inv_level_node [OF inv l(2) n] by (simp_all only: set_mset_mset)
  have others: "n \<notin># mset (all_nodes q) - {#n#}"
  proof -
    have "distinct (all_nodes q)" using inv by (simp add: mlq_inv_def mlq_addrs_def distinct_map)
    then have "count (mset (all_nodes q)) n \<le> 1" by (simp add: distinct_count_atmost_1)
    then show ?thesis by (simp add: not_in_iff)
  qed
  have "image_mset (\<lambda>m. if m \<in> {n} then aged now m else m) (mset (all_nodes q)) =
      add_mset (aged now n) (image_mset (\<lambda>m. if m \<in> {n} then aged now m else m) (mset (all_nodes q) - {#n#}))"
    using mem by (metis (mono_tags, lifting) image_mset_add_mset insert_DiffM insertI1)
  also have "image_mset (\<lambda>m. if m \<in> {n} then aged now m else m) (mset (all_nodes q) - {#n#}) = mset (all_nodes q) - {#n#}"
    using others by (intro multiset.map_ident_strong) auto
  finally show ?thesis
    using promote_node_inv [OF inv l n] promote_node_nodes(2) [OF inv l n] mem pr l od
    by (simp add: ages_by_def)
qed

section \<open>The aging deadlines\<close>

lemma note_aging_deadline_other: "k \<noteq> l \<Longrightarrow> mq_next_aging (note_aging_deadline l t q) ! k = mq_next_aging q ! k"
  by (simp add: note_aging_deadline_def split: option.split)

lemma note_aging_deadline_lowers:
  "mq_next_aging q ! k = Some d \<Longrightarrow> \<exists>d' \<le> d. mq_next_aging (note_aging_deadline l t q) ! k = Some d'"
  by (cases "k = l"; cases "k < length (mq_next_aging q)"; cases "mq_next_aging q ! l")
    (auto simp: note_aging_deadline_def list_update_beyond split: option.split)

lemma note_aging_deadline_covers:
  assumes "mq_aging_cfg q = Some a" and "0 < l" and "l < length (mq_next_aging q)"
    and "aging_deadline a t = Some d"
  shows "\<exists>d' \<le> d. mq_next_aging (note_aging_deadline l t q) ! l = Some d'"
  using assms by (cases "mq_next_aging q ! l") (auto simp: note_aging_deadline_def)

lemma promote_node_next_aging_other:
  "k \<noteq> l - 1 \<Longrightarrow> mq_next_aging (promote_node l now n q) ! k = mq_next_aging q ! k"
  by (simp add: promote_node_def Let_def note_aging_deadline_other)

lemma promote_node_next_aging_lowers:
  "mq_next_aging q ! k = Some d \<Longrightarrow> \<exists>d' \<le> d. mq_next_aging (promote_node l now n q) ! k = Some d'"
  by (simp add: promote_node_def Let_def note_aging_deadline_lowers)

section \<open>One level\<close>

lemma ages_by_inv: "ages_by a now S q q' \<Longrightarrow> mlq_inv q'"
  by (simp add: ages_by_def)

lemma ages_by_pausing: "ages_by a now S q q' \<Longrightarrow> pausing q' = pausing q"
  by (simp add: ages_by_def pausing_def)

text \<open>A message no clock reading of the pass finds expired.\<close>

definition live :: "(nat \<Rightarrow> time) \<Rightarrow> Message \<Rightarrow> bool" where
  "live clk m \<longleftrightarrow> (\<forall>v. \<not> is_expired (clk v) m)"

definition level_result ::
  "(nat \<Rightarrow> time) \<Rightarrow> AgingConfig \<Rightarrow> time \<Rightarrow> nat \<Rightarrow> Node list \<Rightarrow> Node set \<Rightarrow> MultiLevelQueue \<Rightarrow> MultiLevelQueue \<Rightarrow> bool" where
  "level_result clk a now l ns S q q' \<longleftrightarrow>
     ages_by a now S q q' \<and> S \<subseteq> set ns \<and>
     (pausing q \<longrightarrow> card S \<le> 1) \<and>
     (\<not> pausing q \<longrightarrow> (\<forall>n \<in> set ns. overdue a now (n_message n) \<and> live clk (n_message n) \<longrightarrow> n \<in> S)) \<and>
     (\<forall>k < l. \<forall>d. mq_next_aging q ! k = Some d \<longrightarrow> (\<exists>d' \<le> d. mq_next_aging q' ! k = Some d'))"

lemma age_level_result:
  assumes "mlq_inv q" and "mq_aging_cfg q = Some a" and "0 < l" "l < mq_num_levels q"
    and "distinct ns" and "set ns \<subseteq> set (mq_queues q ! l)"
  shows "\<exists>v' p' q' S. age_level clk now l a db ns (v, p, q) = (v', p', q') \<and> level_result clk a now l ns S q q'"
  using assms
proof (induction ns arbitrary: v p q)
  case Nil
  then show ?case by (auto simp: level_result_def intro!: exI [of _ "{}"] ages_by_refl)
next
  case (Cons n ns)
  have pos: "0 < ag_threshold a" using Cons.prems(1,2) by (simp add: mlq_inv_defs)
  have n: "n \<in> set (mq_queues q ! l)" using Cons.prems by simp
  consider (expired) "is_expired (clk (Suc v)) (n_message n)"
    | (promote) "\<not> is_expired (clk (Suc v)) (n_message n)" "overdue a now (n_message n)"
    | (keep) "\<not> is_expired (clk (Suc v)) (n_message n)" "\<not> overdue a now (n_message n)" by blast
  then show ?case
  proof cases
    case expired
    then have "\<not> live clk (n_message n)" by (auto simp: live_def)
    moreover from Cons.IH [of q "Suc v" p] Cons.prems obtain v' p' q' S where
      "age_level clk now l a db ns (Suc v, p, q) = (v', p', q')" "level_result clk a now l ns S q q'" by auto
    ultimately show ?thesis using expired by (auto simp: level_result_def Let_def)
  next
    case keep
    let ?q = "note_aging_deadline l (m_enqueue_time (n_message n)) q"
    have st: "ages_by a now {} q ?q"
      by (rule ages_by_structure [OF ages_by_refl [OF Cons.prems(1)]]) (simp_all add: same_structure_def)
    then have "mlq_inv ?q" by (rule ages_by_inv)
    with Cons.IH [of ?q "Suc v" p] Cons.prems obtain v' p' q' S where run:
      "age_level clk now l a db ns (Suc v, p, ?q) = (v', p', q')" and res: "level_result clk a now l ns S ?q q'" by auto
    have "ages_by a now S q q'" using ages_by_trans [OF Cons.prems(1) pos st] res by (simp add: level_result_def)
    then have "level_result clk a now l (n # ns) S q q'"
      using res keep by (auto simp: level_result_def pausing_def note_aging_deadline_other)
    moreover have "age_level clk now l a db (n # ns) (v, p, q) = (v', p', q')"
      using keep run by (auto simp: Let_def overdue_def split: option.splits)
    ultimately show ?thesis by blast
  next
    case promote
    let ?q = "promote_node l now n q"
    have st: "ages_by a now {n} q ?q"
      by (rule promote_node_ages [OF Cons.prems(1,3,4) n promote(2)])
    have lower: "\<forall>k < l. \<forall>d. mq_next_aging q ! k = Some d \<longrightarrow> (\<exists>d' \<le> d. mq_next_aging ?q ! k = Some d')"
      using promote_node_next_aging_lowers by blast
    show ?thesis
    proof (cases "pausing q")
      case True
      let ?q' = "?q\<lparr>mq_next_aging := (mq_next_aging ?q)[l := Some db]\<rparr>"
      have "ages_by a now {n} q ?q'" by (rule ages_by_structure [OF st]) (simp_all add: same_structure_def)
      then have "level_result clk a now l (n # ns) {n} q ?q'"
        using True lower by (simp add: level_result_def)
      moreover have "age_level clk now l a db (n # ns) (v, p, q) = (Suc v, True, ?q')"
        using promote True by (auto simp: Let_def overdue_def split: option.splits)
      ultimately show ?thesis by blast
    next
      case False
      have "mlq_inv ?q" using st by (rule ages_by_inv)
      moreover have "set ns \<subseteq> set (mq_queues ?q ! l)"
      proof
        fix m assume m: "m \<in> set ns"
        with Cons.prems have "m \<noteq> n" "m \<in> set (mq_queues q ! l)" by auto
        with Cons.prems(1,3,4) show "m \<in> set (mq_queues ?q ! l)"
          by (simp add: promote_node_nodes(1) [OF Cons.prems(1,3,4) n] nth_list_update inv_length)
      qed
      ultimately obtain v' p' q' S where run:
        "age_level clk now l a db ns (Suc v, True, ?q) = (v', p', q')" and res: "level_result clk a now l ns S ?q q'"
        using Cons.IH [of ?q "Suc v" True] Cons.prems by auto
      have "ages_by a now ({n} \<union> S) q q'"
        using ages_by_trans [OF Cons.prems(1) pos st] res by (simp add: level_result_def)
      moreover have "\<forall>k < l. \<forall>d. mq_next_aging q ! k = Some d \<longrightarrow> (\<exists>d' \<le> d. mq_next_aging q' ! k = Some d')"
        using res lower unfolding level_result_def by (meson order.trans)
      ultimately have "level_result clk a now l (n # ns) ({n} \<union> S) q q'"
        using res False ages_by_pausing [OF st] by (auto simp: level_result_def)
      moreover have "age_level clk now l a db (n # ns) (v, p, q) = (v', p', q')"
        using promote False run by (auto simp: Let_def overdue_def split: option.splits)
      ultimately show ?thesis by blast
    qed
  qed
qed

section \<open>A whole pass\<close>

text \<open>
  The cache of earliest deadlines is good at \<open>now\<close> for a level when every live overdue
  message there is announced by it.
\<close>

definition announced :: "(nat \<Rightarrow> time) \<Rightarrow> AgingConfig \<Rightarrow> time \<Rightarrow> nat \<Rightarrow> MultiLevelQueue \<Rightarrow> bool" where
  "announced clk a now L q \<longleftrightarrow>
     (\<forall>n \<in> set (all_nodes q). 0 < m_priority (n_message n) \<and> m_priority (n_message n) \<le> L \<and>
        overdue a now (n_message n) \<and> live clk (n_message n) \<longrightarrow>
        (\<exists>d \<le> now. mq_next_aging q ! m_priority (n_message n) = Some d))"

definition pass_result ::
  "(nat \<Rightarrow> time) \<Rightarrow> AgingConfig \<Rightarrow> time \<Rightarrow> nat \<Rightarrow> Node set \<Rightarrow> MultiLevelQueue \<Rightarrow> MultiLevelQueue \<Rightarrow> bool" where
  "pass_result clk a now L S q q' \<longleftrightarrow>
     ages_by a now S q q' \<and> (\<forall>n \<in> S. m_priority (n_message n) \<le> L) \<and>
     (pausing q \<longrightarrow> (\<forall>k. card {n \<in> S. m_priority (n_message n) = k} \<le> 1)) \<and>
     (\<not> pausing q \<and> announced clk a now L q \<longrightarrow>
        (\<forall>n \<in> set (all_nodes q). 0 < m_priority (n_message n) \<and> m_priority (n_message n) \<le> L \<and>
           overdue a now (n_message n) \<and> live clk (n_message n) \<longrightarrow> n \<in> S))"

lemma pass_result_skip:
  assumes inv: "mlq_inv q" and res: "pass_result clk a now L S q q'"
    and skip: "mq_next_aging q ! Suc L = None \<or> (\<exists>d. mq_next_aging q ! Suc L = Some d \<and> now < d) \<or> pausing q"
  shows "pass_result clk a now (Suc L) S q q'"
proof -
  have "announced clk a now L q" if "announced clk a now (Suc L) q"
    using that by (auto simp: announced_def)
  moreover have "m_priority (n_message n) \<noteq> Suc L"
    if "announced clk a now (Suc L) q" "\<not> pausing q" "n \<in> set (all_nodes q)"
      "overdue a now (n_message n)" "live clk (n_message n)" for n
    using that skip unfolding announced_def by fastforce
  ultimately have "n \<in> S"
    if "\<not> pausing q" "announced clk a now (Suc L) q" "n \<in> set (all_nodes q)" "0 < m_priority (n_message n)"
      "m_priority (n_message n) \<le> Suc L" "overdue a now (n_message n)" "live clk (n_message n)" for n
    using that res by (simp add: pass_result_def le_Suc_eq del: set_concat)
  then show ?thesis using res by (simp add: pass_result_def le_SucI)
qed

lemma pass_result_step:
  assumes inv: "mlq_inv q" and pos: "0 < ag_threshold a" and L: "Suc L < mq_num_levels q"
    and lev: "level_result clk a now (Suc L) (mq_queues q ! Suc L) S1 (q\<lparr>mq_next_aging := (mq_next_aging q)[Suc L := None]\<rparr>) q1"
    and res: "pass_result clk a now L S2 q1 q2"
  shows "pass_result clk a now (Suc L) (S1 \<union> S2) q q2"
proof -
  have st: "ages_by a now S1 q q1" and S1: "S1 \<subseteq> set (mq_queues q ! Suc L)"
    using lev by (simp_all add: level_result_def ages_by_def)
  have pri1: "m_priority (n_message n) = Suc L" if "n \<in> S1" for n
    using S1 that inv_level_node [OF inv L] by blast
  have pri2: "m_priority (n_message n) \<le> L" if "n \<in> S2" for n
    using res that by (simp add: pass_result_def)
  note nodes = ages_by_nodes [OF st]
  have pq: "pausing q1 = pausing q" using ages_by_pausing [OF st] .
  have "card {n \<in> S1 \<union> S2. m_priority (n_message n) = k} \<le> 1" if "pausing q" for k
  proof (cases "k = Suc L")
    case True
    then have "{n \<in> S1 \<union> S2. m_priority (n_message n) = k} = S1" using pri1 pri2 by force
    then show ?thesis using lev that by (simp add: level_result_def pausing_def)
  next
    case False
    then have "{n \<in> S1 \<union> S2. m_priority (n_message n) = k} = {n \<in> S2. m_priority (n_message n) = k}"
      using pri1 by force
    then show ?thesis using res that pq by (simp add: pass_result_def)
  qed
  moreover have "n \<in> S1 \<union> S2" if np: "\<not> pausing q" and ann: "announced clk a now (Suc L) q"
    and n: "n \<in> set (all_nodes q)" "0 < m_priority (n_message n)" "m_priority (n_message n) \<le> Suc L"
      "overdue a now (n_message n)" "live clk (n_message n)" for n
  proof (cases "m_priority (n_message n) = Suc L")
    case True
    then have "n \<in> set (mq_queues q ! Suc L)" using inv_node_level [OF inv n(1)] by simp
    then show ?thesis using lev np n by (simp add: level_result_def pausing_def del: set_concat)
  next
    case False
    have lower: "\<exists>d' \<le> d. mq_next_aging q1 ! k = Some d'" if "k \<le> L" "mq_next_aging q ! k = Some d" for k d
      using lev that by (simp add: level_result_def)
    have "announced clk a now L q1"
      unfolding announced_def
    proof (intro ballI impI, elim conjE)
      fix m assume m: "m \<in> set (all_nodes q1)" "0 < m_priority (n_message m)" "m_priority (n_message m) \<le> L"
        "overdue a now (n_message m)" "live clk (n_message m)"
      have "m \<in> set (all_nodes q)"
        using m(1,4) overdue_earlier [OF pos, of now "n_message m"] unfolding nodes by (auto split: if_splits)
      with ann m obtain d where "d \<le> now" "mq_next_aging q ! m_priority (n_message m) = Some d"
        unfolding announced_def by fastforce
      with lower [OF m(3)] show "\<exists>d \<le> now. mq_next_aging q1 ! m_priority (n_message m) = Some d" by force
    qed
    moreover have "n \<in> set (all_nodes q1)" using n(1) False pri1 unfolding nodes by (force simp: image_iff)
    ultimately have "n \<in> S2" using res n False np pq by (simp add: pass_result_def del: set_concat)
    then show ?thesis by simp
  qed
  ultimately show ?thesis
    using res ages_by_trans [OF inv pos st] pri1 pri2 by (force simp: pass_result_def)
qed

lemma age_levels_result:
  assumes "mlq_inv q" and "mq_aging_cfg q = Some a" and "L < mq_num_levels q"
  shows "\<exists>v' p' q' S. age_levels clk now L a (v, p, q) = (v', p', q') \<and> pass_result clk a now L S q q'"
  using assms
proof (induction L arbitrary: v p q)
  case 0
  then show ?case by (auto simp: pass_result_def intro!: exI [of _ "{}"] ages_by_refl)
next
  case (Suc L)
  have pos: "0 < ag_threshold a" using Suc.prems by (simp add: mlq_inv_defs)
  show ?case
  proof (cases "mq_next_aging q ! Suc L = None \<or> (\<exists>d. mq_next_aging q ! Suc L = Some d \<and> now < d) \<or> paused_locked (Suc L) now q")
    case True
    have "paused_locked (Suc L) now q \<Longrightarrow> pausing q" by (auto simp: paused_locked_def split: option.splits if_splits)
    with True have "mq_next_aging q ! Suc L = None \<or> (\<exists>d. mq_next_aging q ! Suc L = Some d \<and> now < d) \<or> pausing q" by blast
    moreover obtain v' p' q' S where "age_levels clk now L a (v, p, q) = (v', p', q')" "pass_result clk a now L S q q'"
      using Suc.IH [of q v p] Suc.prems by auto
    ultimately have "pass_result clk a now (Suc L) S q q'" "age_levels clk now (Suc L) a (v, p, q) = (v', p', q')"
      using pass_result_skip [OF Suc.prems(1)] True by (auto split: option.split)
    then show ?thesis by blast
  next
    case False
    then obtain d where d: "mq_next_aging q ! Suc L = Some d" "\<not> now < d" "\<not> paused_locked (Suc L) now q" by auto
    let ?q = "q\<lparr>mq_next_aging := (mq_next_aging q)[Suc L := None]\<rparr>"
    have "same_structure ?q q" by (simp add: same_structure_def)
    then have inv: "mlq_inv ?q" by (rule same_structure_inv) (simp_all add: inv_cursor Suc.prems(1))
    have dist: "distinct (mq_queues q ! Suc L)"
      using inv_level_distinct [OF Suc.prems(1,3)] by (simp add: distinct_map)
    obtain v1 p1 q1 S1 where run1: "age_level clk now (Suc L) a d (mq_queues q ! Suc L) (v, p, ?q) = (v1, p1, q1)"
      and lev: "level_result clk a now (Suc L) (mq_queues q ! Suc L) S1 ?q q1"
      using age_level_result [OF inv, of a "Suc L" "mq_queues q ! Suc L" clk now d v p] Suc.prems(2,3) dist by auto
    have "ages_by a now S1 ?q q1" using lev by (simp add: level_result_def)
    then have q1: "mlq_inv q1" "mq_aging_cfg q1 = Some a" "mq_num_levels q1 = mq_num_levels q"
      using Suc.prems(2) by (simp_all add: ages_by_def)
    then obtain v2 p2 q2 S2 where run2: "age_levels clk now L a (v1, p1, q1) = (v2, p2, q2)"
      and res: "pass_result clk a now L S2 q1 q2" using Suc.IH [of q1 v1 p1] Suc.prems by auto
    have "pass_result clk a now (Suc L) (S1 \<union> S2) q q2"
      by (rule pass_result_step [OF Suc.prems(1) pos Suc.prems(3) lev res])
    moreover have "age_levels clk now (Suc L) a (v, p, q) = (v2, p2, q2)" using d run1 run2 by simp
    ultimately show ?thesis by blast
  qed
qed

end
