(* ===== verification/Queue_Deadlines.thy ===== *)
theory Queue_Deadlines
  imports Queue_Selection Queue_Expiry Queue_Aging
begin

text \<open>
  The cache of earliest aging deadlines, \<^verbatim>\<open>next_aging_\<close>. An aging pass skips a level whose
  cached deadline lies in the future, so a deadline that is missing or too late would
  starve a message. \<open>mlq_cached T q\<close> says that at time \<open>T\<close> the entry of every level is at
  most the deadline of each of its messages that has not expired. Every operation keeps it.
  The last section follows a queue through any sequence of operations.
\<close>

section \<open>The cache invariant\<close>

definition covered :: "time \<Rightarrow> AgingConfig \<Rightarrow> time option \<Rightarrow> Node \<Rightarrow> bool" where
  "covered T a c n =
     (case aging_deadline a (m_enqueue_time (n_message n)) of
        None \<Rightarrow> True
      | Some d \<Rightarrow> is_expired T (n_message n) \<or> (case c of None \<Rightarrow> False | Some d' \<Rightarrow> d' \<le> d))"

definition level_cached :: "time \<Rightarrow> AgingConfig \<Rightarrow> nat \<Rightarrow> MultiLevelQueue \<Rightarrow> bool" where
  "level_cached T a l q \<longleftrightarrow> (\<forall>n \<in> set (mq_queues q ! l). covered T a (mq_next_aging q ! l) n)"

definition mlq_cached :: "time \<Rightarrow> MultiLevelQueue \<Rightarrow> bool" where
  "mlq_cached T q \<longleftrightarrow>
     (\<forall>a. mq_aging_cfg q = Some a \<longrightarrow> (\<forall>l < mq_num_levels q. 0 < l \<longrightarrow> level_cached T a l q))"

lemma covered_lower:
  assumes "covered T a c n" and "\<And>d. c = Some d \<Longrightarrow> \<exists>d' \<le> d. c' = Some d'"
  shows "covered T a c' n"
  using assms by (auto simp: covered_def split: option.splits)

lemma covered_later: "covered T a c n \<Longrightarrow> T \<le> T' \<Longrightarrow> covered T' a c n"
  by (auto simp: covered_def dest: is_expired_mono split: option.splits)

lemma mlq_cached_later: "mlq_cached T q \<Longrightarrow> T \<le> T' \<Longrightarrow> mlq_cached T' q"
  unfolding mlq_cached_def level_cached_def using covered_later by blast

lemma level_cached_note: "level_cached T a k q \<Longrightarrow> level_cached T a k (note_aging_deadline l t q)"
  unfolding level_cached_def using covered_lower note_aging_deadline_lowers by (auto simp: frame)

lemma covered_noted:
  assumes "mq_aging_cfg q = Some a" and "0 < l" and "l < length (mq_next_aging q)"
  shows "covered T a (mq_next_aging (note_aging_deadline l (m_enqueue_time (n_message n)) q) ! l) n"
  using note_aging_deadline_covers [OF assms, of "m_enqueue_time (n_message n)"]
  by (cases "aging_deadline a (m_enqueue_time (n_message n))") (auto simp: covered_def)

lemma make_MultiLevelQueue_cached: "make_MultiLevelQueue levels aging sel share = Inr q \<Longrightarrow> mlq_cached T q"
  by (auto simp: make_MultiLevelQueue_def mlq_init_def mlq_cached_def level_cached_def split: if_splits)

lemma same_cache:
  assumes "mlq_cached T q" and "mq_aging_cfg q' = mq_aging_cfg q" and "mq_num_levels q' = mq_num_levels q"
    and "mq_queues q' = mq_queues q" and "mq_next_aging q' = mq_next_aging q"
  shows "mlq_cached T q'"
  using assms by (simp add: mlq_cached_def level_cached_def)

lemma inv_next_aging: "mlq_inv q \<Longrightarrow> length (mq_next_aging q) = mq_num_levels q"
  by (simp add: mlq_inv_def mlq_shape_def)

section \<open>Placing and removing\<close>

lemma link_message_cached:
  assumes inv: "mlq_inv q" and c: "mlq_cached T q" and p: "m_priority m < mq_num_levels q"
  shows "mlq_cached T (note_aging_deadline (m_priority m) (m_enqueue_time m) (link_message m b q))"
  unfolding mlq_cached_def
proof (intro allI impI)
  let ?q = "link_message m b q"
  let ?q' = "note_aging_deadline (m_priority m) (m_enqueue_time m) ?q"
  fix a l assume a: "mq_aging_cfg ?q' = Some a" and l: "l < mq_num_levels ?q'" "0 < l"
  have na: "mq_next_aging ?q = mq_next_aging q" by (simp add: link_message_def Let_def)
  have old: "covered T a (mq_next_aging ?q' ! l) n" if "n \<in> set (mq_queues q ! l)" for n
  proof -
    have "covered T a (mq_next_aging ?q ! l) n" using c a l that unfolding na by (simp add: mlq_cached_def level_cached_def frame)
    then show ?thesis using covered_lower note_aging_deadline_lowers by blast
  qed
  show "level_cached T a l ?q'"
  proof (cases "l = m_priority m")
    case False
    then show ?thesis using old by (simp add: level_cached_def frame link_message_queues)
  next
    case True
    have "covered T a (mq_next_aging (note_aging_deadline l (m_enqueue_time (n_message (new_node m q))) ?q) ! l) (new_node m q)"
      using a l inv_next_aging [OF inv] na by (intro covered_noted) (simp_all add: frame)
    then have "covered T a (mq_next_aging ?q' ! l) (new_node m q)"
      using True by (simp add: new_node_def)
    then show ?thesis using old True p inv_length [OF inv]
      by (auto simp: level_cached_def frame link_message_queues)
  qed
qed

lemma place_message_cached:
  assumes run: "place_message cost now m b q = Inr q'" and inv: "mlq_inv q" and c: "mlq_cached T q"
  shows "mlq_cached T q'"
proof -
  let ?m = "if b then m else m\<lparr>m_enqueue_time := now\<rparr>"
  have "m_priority ?m < mq_num_levels q" using place_message_Inr(1) [OF run] by simp
  then have "mlq_cached T (note_aging_deadline (m_priority ?m) (m_enqueue_time ?m) (link_message ?m b q))"
    by (rule link_message_cached [OF inv c])
  then show ?thesis
    by (rule same_cache) (use run in \<open>auto simp: place_message_def Let_def frame split: if_splits option.splits\<close>)
qed

lemma remove_locked_cached:
  assumes c: "mlq_cached T q" and inv: "mlq_inv q" and l: "l < mq_num_levels q" and n: "n \<in> set (mq_queues q ! l)"
  shows "mlq_cached T (snd (remove_locked l n q))"
proof -
  let ?level = "filter (\<lambda>m. n_addr m \<noteq> n_addr n) (mq_queues q ! l)"
  have "mq_queues (snd (remove_locked l n q)) = (mq_queues q)[l := ?level]"
    and "mq_next_aging (snd (remove_locked l n q)) =
      (if ?level = [] then (mq_next_aging q)[l := None] else mq_next_aging q)"
    by (simp_all add: remove_locked_def Let_def)
  then show ?thesis using c l inv_length [OF inv]
    by (auto simp: mlq_cached_def level_cached_def nth_list_update filter_empty_conv)
qed

section \<open>Operations that only remove\<close>

text \<open>A property of queues that removing a linked node keeps is kept by both sweeps.\<close>

locale removal_invariant =
  fixes P :: "MultiLevelQueue \<Rightarrow> bool"
  assumes remove: "P q \<Longrightarrow> mlq_inv q \<Longrightarrow> l < mq_num_levels q \<Longrightarrow> n \<in> set (mq_queues q ! l) \<Longrightarrow>
    P (snd (remove_locked l n q))"
begin

lemma batch: "P q \<Longrightarrow> mlq_inv q \<Longrightarrow> sweep_batch limit now acc q = Some (out, q') \<Longrightarrow> P q'"
proof (induction limit arbitrary: acc q)
  case (Suc limit)
  show ?case
  proof (cases "mq_expiry q")
    case Nil
    with Suc.prems show ?thesis by simp
  next
    case (Cons e ix)
    obtain t a where e: "e = (t, a)" by (cases e)
    show ?thesis
    proof (cases "t \<le> now")
      case False
      with Suc.prems Cons e show ?thesis by simp
    next
      case True
      with Suc.prems(3) Cons e obtain n where n: "find_node a q = Some n"
        and rec: "sweep_batch limit now (acc @ [fst (remove_locked (m_priority (n_message n)) n q)])
            (snd (remove_locked (m_priority (n_message n)) n q)) = Some (out, q')"
        by (auto simp: case_prod_unfold split: option.splits)
      have "n \<in> set (all_nodes q)" using n unfolding find_node_def by (metis find_Some_iff nth_mem)
      then have "m_priority (n_message n) < mq_num_levels q" "n \<in> set (mq_queues q ! m_priority (n_message n))"
        using inv_node_level [OF Suc.prems(2)] by blast+
      then show ?thesis
        using Suc.IH [OF remove [OF Suc.prems(1,2)] remove_locked_inv [OF Suc.prems(2)] rec] by blast
    qed
  qed
qed simp

lemma level:
  assumes "P q" and "mlq_inv q" and "l < mq_num_levels q" and "set ns \<subseteq> set (mq_queues q ! l)" and "distinct ns"
  shows "P (snd (snd (sweep_level clk l ns (i, acc, q))))"
  using assms
proof (induction ns arbitrary: i acc q)
  case (Cons n ns)
  show ?case
  proof (cases "is_expired (clk i) (n_message n)")
    case False
    with Cons.IH [of q] Cons.prems show ?thesis by simp
  next
    case True
    let ?q = "snd (remove_locked l n q)"
    have n: "n \<in> set (mq_queues q ! l)" using Cons.prems by simp
    have "set ns \<subseteq> set (mq_queues ?q ! l)"
      using Cons.prems inv_length [OF Cons.prems(2)]
      by (simp add: remove_locked_queues [OF Cons.prems(2,3) n]) (metis in_set_remove1 subset_iff)
    then have "P (snd (snd (sweep_level clk l ns (Suc i, acc @ [n_message n], ?q))))"
      using Cons.IH [OF remove [OF Cons.prems(1,2,3) n] remove_locked_inv [OF Cons.prems(2,3) n]] Cons.prems by simp
    then show ?thesis using True by (simp add: case_prod_unfold)
  qed
qed simp

lemma levels:
  "P q \<Longrightarrow> mlq_inv q \<Longrightarrow> set ls \<subseteq> {..<mq_num_levels q} \<Longrightarrow> P (snd (snd (sweep_levels clk ls (i, acc, q))))"
proof (induction ls arbitrary: i acc q)
  case (Cons l ls)
  have l: "l < mq_num_levels q" using Cons.prems by simp
  have d: "distinct (mq_queues q ! l)" using inv_level_distinct [OF Cons.prems(2) l] by (simp add: distinct_map)
  from sweep_level_spec [OF Cons.prems(2) l order.refl d, of clk i acc] obtain i1 acc1 q1 where
    q1: "sweep_level clk l (mq_queues q ! l) (i, acc, q) = (i1, acc1, q1)"
    and inv1: "mlq_inv q1" and n1: "mq_num_levels q1 = mq_num_levels q" by blast
  have "P q1" using level [OF Cons.prems(1,2) l order.refl d, of clk i acc] q1 by simp
  then show ?case using Cons.IH [OF _ inv1, of i1 acc1] Cons.prems q1 n1 by simp
qed simp

lemma diagnostic: "P q \<Longrightarrow> mlq_inv q \<Longrightarrow> P (snd (sweep_expired clk q))"
  using levels [of q "[0..<mq_num_levels q]" clk 1 "[]"]
  by (auto simp: sweep_expired_def atLeast0LessThan split: list.split)

end

interpretation cache_removal: removal_invariant "mlq_cached T" for T
  by unfold_locales (rule remove_locked_cached)

lemma dequeue_locked_cached:
  assumes "mlq_inv q" and "mlq_cached T q"
  shows "mlq_cached T (snd (dequeue_locked cost q))"
proof (cases "selected_level q")
  case None
  then show ?thesis using assms by (simp add: dequeue_locked_None)
next
  case (Some l)
  note l = selected_level_Some [OF assms(1) Some]
  have n: "hd (mq_queues q ! l) \<in> set (mq_queues q ! l)" using l by simp
  have "mlq_cached T (snd (remove_locked l (hd (mq_queues q ! l)) q))"
    by (rule remove_locked_cached [OF assms(2,1) l(1) n])
  then show ?thesis
    by (rule same_cache)
      (use Some in \<open>auto simp: selected_level_def dequeue_locked_def case_prod_unfold Let_def remove_locked_def
         split: option.splits if_splits\<close>)
qed

section \<open>Aging\<close>

lemma promote_node_level_cached:
  assumes inv: "mlq_inv q" and cfg: "mq_aging_cfg q = Some a" and l: "0 < l" "l < mq_num_levels q"
    and n: "n \<in> set (mq_queues q ! l)" and k: "k \<noteq> l" "0 < k" and c: "level_cached T a k q"
  shows "level_cached T a k (promote_node l now n q)"
proof -
  have old: "covered T a (mq_next_aging (promote_node l now n q) ! k) m" if "m \<in> set (mq_queues q ! k)" for m
    by (rule covered_lower [of _ _ "mq_next_aging q ! k"])
      (use c that in \<open>simp_all add: level_cached_def promote_node_next_aging_lowers\<close>)
  show ?thesis
  proof (cases "k = l - 1")
    case False
    with old k show ?thesis by (simp add: level_cached_def promote_node_nodes(1) [OF inv l n])
  next
    case True
    have "covered T a (mq_next_aging (promote_node l now n q) ! k) (aged now n)"
      using covered_noted [of _ a k _ "aged now n"] cfg True k l inv_next_aging [OF inv]
      by (simp add: promote_node_def Let_def frame)
    with old k l True inv_length [OF inv] show ?thesis
      by (auto simp: level_cached_def promote_node_nodes(1) [OF inv l n])
  qed
qed

lemma age_level_cached:
  assumes "mlq_inv q" and "mq_aging_cfg q = Some a" and "0 < l" "l < mq_num_levels q"
    and "distinct ns" and "set ns \<subseteq> set (mq_queues q ! l)" and clk: "\<And>v. clk v \<le> T"
    and "\<And>k. k < mq_num_levels q \<Longrightarrow> 0 < k \<Longrightarrow> k \<noteq> l \<Longrightarrow> level_cached T a k q"
    and "\<forall>n \<in> set (mq_queues q ! l) - set ns. covered T a (mq_next_aging q ! l) n"
    and "\<forall>n \<in> set (mq_queues q ! l). covered T a (Some db) n"
  shows "mlq_cached T (snd (snd (age_level clk now l a db ns (v, p, q))))"
  using assms
proof (induction ns arbitrary: v p q)
  case Nil
  then have "level_cached T a k q" if "0 < k" "k < mq_num_levels q" for k
    using that by (cases "k = l") (auto simp: level_cached_def)
  then show ?case using Nil.prems(2) by (simp add: mlq_cached_def)
next
  case (Cons n ns)
  note inv = Cons.prems(1) and cfg = Cons.prems(2) and l = Cons.prems(3,4)
  have n: "n \<in> set (mq_queues q ! l)" using Cons.prems by simp
  consider (expired) "is_expired (clk (Suc v)) (n_message n)"
    | (promote) "\<not> is_expired (clk (Suc v)) (n_message n)" "overdue a now (n_message n)"
    | (keep) "\<not> is_expired (clk (Suc v)) (n_message n)" "\<not> overdue a now (n_message n)" by blast
  then show ?case
  proof cases
    case expired
    then have "is_expired T (n_message n)" using is_expired_mono clk by blast
    then have "covered T a c n" for c by (simp add: covered_def split: option.split)
    then have "mlq_cached T (snd (snd (age_level clk now l a db ns (Suc v, p, q))))"
      using Cons.prems by (intro Cons.IH) auto
    with expired show ?thesis by (simp add: Let_def)
  next
    case keep
    let ?q = "note_aging_deadline l (m_enqueue_time (n_message n)) q"
    have "mlq_inv ?q"
      using same_structure_inv [of ?q q] inv inv_cursor [OF inv] by (simp add: same_structure_def)
    moreover have "covered T a (mq_next_aging ?q ! l) m"
      if "m \<in> set (mq_queues q ! l) - set ns" for m
    proof (cases "m = n")
      case True
      then show ?thesis using covered_noted cfg l inv_next_aging [OF inv] by simp
    next
      case False
      then have "covered T a (mq_next_aging q ! l) m" using that Cons.prems(9) by simp
      then show ?thesis using covered_lower note_aging_deadline_lowers by blast
    qed
    ultimately have "mlq_cached T (snd (snd (age_level clk now l a db ns (Suc v, p, ?q))))"
      using Cons.prems level_cached_note by (intro Cons.IH) auto
    with keep show ?thesis by (auto simp: Let_def overdue_def split: option.splits)
  next
    case promote
    let ?q = "promote_node l now n q"
    note queues = promote_node_nodes(1) [OF inv l n]
    have other: "level_cached T a k ?q" if "k < mq_num_levels q" "0 < k" "k \<noteq> l" for k
      using promote_node_level_cached [OF inv cfg l n] Cons.prems(8) that by blast
    have lev: "mq_queues ?q ! l = remove1 n (mq_queues q ! l)"
      using l inv_length [OF inv] by (simp add: queues)
    have inv': "mlq_inv ?q" using promote_node_ages [OF inv l n promote(2)] by (rule ages_by_inv)
    have sub: "set (mq_queues ?q ! l) \<subseteq> set (mq_queues q ! l)" unfolding lev by (rule set_remove1_subset)
    show ?thesis
    proof (cases "pausing q")
      case True
      let ?q' = "?q\<lparr>mq_next_aging := (mq_next_aging ?q)[l := Some db]\<rparr>"
      have "level_cached T a k ?q'" if "k < mq_num_levels q" "0 < k" for k
        using other [of k] that sub Cons.prems(10) inv_next_aging [OF inv']
        by (cases "k = l") (auto simp: level_cached_def promote_node_frame)
      then have "mlq_cached T ?q'" using cfg by (simp add: mlq_cached_def promote_node_frame)
      then show ?thesis using promote True by (auto simp: Let_def overdue_def split: option.splits)
    next
      case False
      have "distinct (mq_queues q ! l)" using inv_level_distinct [OF inv l(2)] by (simp add: distinct_map)
      then have set': "set (mq_queues ?q ! l) = set (mq_queues q ! l) - {n}" unfolding lev by simp
      have "mq_next_aging ?q ! l = mq_next_aging q ! l" using l by (simp add: promote_node_next_aging_other)
      then have "mlq_cached T (snd (snd (age_level clk now l a db ns (Suc v, True, ?q))))"
        using inv' Cons.prems other set' by (intro Cons.IH) (auto simp: promote_node_frame)
      then show ?thesis using promote False by (auto simp: Let_def overdue_def split: option.splits)
    qed
  qed
qed

lemma age_levels_cached:
  assumes "mlq_inv q" and "mq_aging_cfg q = Some a" and "L < mq_num_levels q" and clk: "\<And>v. clk v \<le> T"
    and "mlq_cached T q"
  shows "mlq_cached T (snd (snd (age_levels clk now L a (v, p, q))))"
  using assms
proof (induction L arbitrary: v p q)
  case (Suc L)
  show ?case
  proof (cases "mq_next_aging q ! Suc L")
    case None
    then show ?thesis using Suc.IH [of q v p] Suc.prems by simp
  next
    case (Some d)
    let ?q = "q\<lparr>mq_next_aging := (mq_next_aging q)[Suc L := None]\<rparr>"
    let ?r = "age_level clk now (Suc L) a d (mq_queues q ! Suc L) (v, p, ?q)"
    have "same_structure ?q q" by (simp add: same_structure_def)
    then have inv: "mlq_inv ?q" by (rule same_structure_inv) (simp_all add: inv_cursor Suc.prems(1))
    have dist: "distinct (mq_queues q ! Suc L)"
      using inv_level_distinct [OF Suc.prems(1,3)] by (simp add: distinct_map)
    have "mlq_cached T (snd (snd ?r))"
      using Suc.prems inv dist Some by (intro age_level_cached) (auto simp: mlq_cached_def level_cached_def)
    moreover obtain v1 p1 q1 S where r: "?r = (v1, p1, q1)" and "ages_by a now S ?q q1"
      using age_level_result [OF inv, of a "Suc L" "mq_queues q ! Suc L" clk now d v p] Suc.prems(2,3) dist
      by (auto simp: level_result_def)
    ultimately have "mlq_cached T (snd (snd (age_levels clk now L a ?r)))"
      using Suc.IH [of q1 v1 p1] Suc.prems by (auto simp: ages_by_def)
    then show ?thesis using Some Suc.IH [of q v p] Suc.prems by simp
  qed
qed simp

lemma announced_cached:
  assumes inv: "mlq_inv q" and c: "mlq_cached T q" and cfg: "mq_aging_cfg q = Some a" and clk: "\<And>v. T \<le> clk v"
  shows "announced clk a now L q"
  unfolding announced_def
proof (intro ballI impI, elim conjE)
  fix n assume n: "n \<in> set (all_nodes q)" "0 < m_priority (n_message n)" and od: "overdue a now (n_message n)"
    and alive: "live clk (n_message n)"
  have "\<not> is_expired T (n_message n)" using alive clk is_expired_mono unfolding live_def by blast
  moreover have "covered T a (mq_next_aging q ! m_priority (n_message n)) n"
    using c cfg n inv_node_level [OF inv n(1)] by (simp add: mlq_cached_def level_cached_def)
  ultimately show "\<exists>d \<le> now. mq_next_aging q ! m_priority (n_message n) = Some d"
    using od by (auto simp: covered_def overdue_def split: option.splits)
qed

lemma age_once_result:
  assumes inv: "mlq_inv q" and cfg: "mq_aging_cfg q = Some a"
  obtains v q' S where "age_once_locked clk now q = (v, q')" and "pass_result clk a now (mq_num_levels q - 1) S q q'"
proof -
  have "mq_num_levels q - 1 < mq_num_levels q" using inv_cursor [OF inv] by simp
  then obtain v p q' S where "age_levels clk now (mq_num_levels q - 1) a (0, False, q) = (v, p, q')"
    "pass_result clk a now (mq_num_levels q - 1) S q q'" using age_levels_result [OF inv cfg] by blast
  with that show thesis by (simp add: age_once_locked_def cfg)
qed

lemma age_once_inv: "mlq_inv q \<Longrightarrow> mlq_inv (snd (age_once_locked clk now q))"
  by (cases "mq_aging_cfg q")
    (auto simp: age_once_locked_def [of _ _ q] pass_result_def ages_by_def elim: age_once_result [of q _ clk now])

lemma age_once_cached:
  assumes "mlq_inv q" and "mlq_cached T q" and "\<And>v. clk v \<le> T"
  shows "mlq_cached T (snd (age_once_locked clk now q))"
  using assms age_levels_cached [of q _ "mq_num_levels q - 1" clk T] inv_cursor [of q]
  by (auto simp: age_once_locked_def case_prod_unfold Let_def split: option.split)

section \<open>Histories of a queue\<close>

text \<open>
  The states a queue can be in at time \<open>T\<close>: constructed, then changed by any sequence of the
  operations of its public interface and passes of the aging thread, every clock reading
  under the lock being at least the time of the state before and at most the time of the
  state after. The stamp of a new message is read before the lock is taken, so it may be
  any time.
  A caller puts in messages that carry the level they were routed to: the priority of a
  new message is its original priority, and a message put back was promoted at most.
\<close>

inductive queue_run :: "time \<Rightarrow> MultiLevelQueue \<Rightarrow> bool" where
  run_new: "make_MultiLevelQueue levels aging sel share = Inr q \<Longrightarrow> queue_run T q"
| run_wait: "queue_run T q \<Longrightarrow> T \<le> T' \<Longrightarrow> queue_run T' q"
| run_enqueue: "queue_run T q \<Longrightarrow> m_priority m \<le> m_original_priority m \<Longrightarrow> T \<le> T' \<Longrightarrow>
    enqueue cost now m q = Inr q' \<Longrightarrow> queue_run T' q'"
| run_requeue: "queue_run T q \<Longrightarrow> m_priority m \<le> m_original_priority m \<Longrightarrow> T \<le> T' \<Longrightarrow>
    requeue_front cost m q = Inr q' \<Longrightarrow> queue_run T' q'"
| run_dequeue: "queue_run T q \<Longrightarrow> T \<le> T' \<Longrightarrow> dequeue_locked cost q = (out, q') \<Longrightarrow> queue_run T' q'"
| run_batch: "queue_run T q \<Longrightarrow> T \<le> now \<Longrightarrow> now \<le> T' \<Longrightarrow>
    sweep_expired_batch limit now q = Some (ms, q') \<Longrightarrow> queue_run T' q'"
| run_sweep: "queue_run T q \<Longrightarrow> (\<And>i. T \<le> clk i) \<Longrightarrow> (\<And>i. clk i \<le> T') \<Longrightarrow>
    sweep_expired clk q = (ms, q') \<Longrightarrow> queue_run T' q'"
| run_age: "queue_run T q \<Longrightarrow> T \<le> now \<Longrightarrow> (\<And>i. now \<le> clk i) \<Longrightarrow> (\<And>i. clk i \<le> T') \<Longrightarrow>
    age_once_locked clk now q = (v, q') \<Longrightarrow> queue_run T' q'"
| run_shutdown: "queue_run T q \<Longrightarrow> T \<le> T' \<Longrightarrow> queue_run T' (mlq_shutdown q)"

lemma mlq_shutdown_inv: "mlq_inv q \<Longrightarrow> mlq_inv (mlq_shutdown q)"
  using same_structure_inv [of "mlq_shutdown q" q] inv_cursor [of q] by (simp add: mlq_shutdown_def same_structure_def)

lemma queue_run_mlq_inv: "queue_run T q \<Longrightarrow> mlq_inv q"
proof (induction rule: queue_run.induct)
  case (run_batch T q now T' limit ms q')
  then show ?case by (auto elim: sweep_expired_batch_spec [of q limit now])
next
  case (run_sweep T q clk T' ms q')
  then show ?case by (auto elim: sweep_expired_spec [of q clk])
next
  case (run_dequeue T q T' cost out q')
  then show ?case using dequeue_locked_inv [of q cost] by simp
next
  case (run_age T q now clk T' v q')
  then show ?case using age_once_inv [of q clk now] by simp
qed (auto simp: enqueue_def requeue_front_def intro: make_MultiLevelQueue_inv place_message_inv mlq_shutdown_inv)

lemma queue_run_cached: "queue_run T q \<Longrightarrow> mlq_cached T q"
proof (induction rule: queue_run.induct)
  case (run_dequeue T q T' cost out q')
  then show ?case
    using dequeue_locked_cached [OF queue_run_mlq_inv mlq_cached_later, of T q T T' cost] by simp
next
  case (run_batch T q now T' limit ms q')
  then show ?case
    using cache_removal.batch [OF mlq_cached_later queue_run_mlq_inv, of T q T'] by (auto simp: sweep_expired_batch_def)
next
  case (run_sweep T q clk T' ms q')
  have "T \<le> T'" using run_sweep.hyps(2,3) [of 0] by simp
  then have "mlq_cached T' (snd (sweep_expired clk q))"
    using cache_removal.diagnostic mlq_cached_later queue_run_mlq_inv run_sweep.hyps(1) run_sweep.IH by blast
  then show ?case using run_sweep.hyps(4) by simp
next
  case (run_age T q now clk T' v q')
  have "T \<le> T'" using run_age.hyps(2,3,4) by (meson order.trans)
  then have "mlq_cached T' (snd (age_once_locked clk now q))"
    using age_once_cached run_age.hyps(1,4) mlq_cached_later queue_run_mlq_inv run_age.IH by blast
  then show ?case using run_age.hyps(5) by simp
next
  case (run_shutdown T q T')
  then show ?case using mlq_cached_later same_cache [of T' q "mlq_shutdown q"] by (auto simp: mlq_shutdown_def)
next
  case (run_enqueue T q m T' cost now q')
  then show ?case
    using place_message_cached [OF _ queue_run_mlq_inv mlq_cached_later, of cost now m False q q' T T T']
    by (simp add: enqueue_def)
next
  case (run_requeue T q m T' cost q')
  then show ?case
    using place_message_cached [OF _ queue_run_mlq_inv mlq_cached_later, of cost 0 m True q q' T T T']
    by (simp add: requeue_front_def)
qed (auto intro: make_MultiLevelQueue_cached mlq_cached_later)

end
