(* ===== verification/Queue_Share.thy ===== *)
theory Queue_Share
  imports Queue_Deadlines
begin

text \<open>
  Weighted level shares: the virtual clocks of \<^verbatim>\<open>QueueSelection::WeightedTime\<close>. Each pull
  advances the clock of the level it serves by the message's charge over the level's
  weight, and serves the non-empty level that is furthest behind. While two levels have
  work, the service they get, over their weights, differs by at most one maximal charge
  each, whatever is enqueued, promoted or swept in between.
\<close>

section \<open>What a pass of the aging thread keeps\<close>

text \<open>
  \<open>P l\<close> is kept while level \<open>l\<close> is scanned: promoting one of its nodes keeps it, it does not
  look at the cached deadlines, and it gives the property of the next level down.
\<close>

locale promotion_invariant =
  fixes P :: "nat \<Rightarrow> MultiLevelQueue \<Rightarrow> bool"
  assumes promote: "P l q \<Longrightarrow> mlq_inv q \<Longrightarrow> 0 < l \<Longrightarrow> l < mq_num_levels q \<Longrightarrow> n \<in> set (mq_queues q ! l) \<Longrightarrow>
      P l (promote_node l now n q)"
    and deadlines: "P l q \<Longrightarrow> P l (q\<lparr>mq_next_aging := ds\<rparr>)"
    and descend: "P (Suc l) q \<Longrightarrow> P l q"
begin

lemma noted: "P l q \<Longrightarrow> P l (note_aging_deadline k t q)"
  by (auto simp: note_aging_deadline_def deadlines split: option.split)

lemma aged_level:
  assumes "P l q" and "mlq_inv q" and "mq_aging_cfg q = Some a" and "0 < l" "l < mq_num_levels q"
    and "distinct ns" and "set ns \<subseteq> set (mq_queues q ! l)"
  shows "P l (snd (snd (age_level clk now l a db ns (v, p, q))))"
  using assms
proof (induction ns arbitrary: v p q)
  case (Cons n ns)
  note inv = Cons.prems(2) and l = Cons.prems(4,5)
  have n: "n \<in> set (mq_queues q ! l)" using Cons.prems by simp
  let ?keep = "note_aging_deadline l (m_enqueue_time (n_message n)) q" and ?up = "promote_node l now n q"
  have keep: "P l (snd (snd (age_level clk now l a db ns (Suc v, p, ?keep))))"
    using Cons.prems noted same_structure_inv [of ?keep q] inv_cursor [OF inv]
    by (intro Cons.IH) (auto simp: same_structure_def)
  have expired: "P l (snd (snd (age_level clk now l a db ns (Suc v, p, q))))"
    using Cons.prems by (intro Cons.IH) auto
  have up: "P l ?up" by (rule promote [OF Cons.prems(1) inv l n])
  moreover have "P l (snd (snd (age_level clk now l a db ns (Suc v, True, ?up))))" if "overdue a now (n_message n)"
  proof (rule Cons.IH [OF up])
    show "mlq_inv ?up" using promote_node_ages [OF inv l n that] by (rule ages_by_inv)
    have "m \<noteq> n" if "m \<in> set ns" for m using that Cons.prems(6) by auto
    then show "set ns \<subseteq> set (mq_queues ?up ! l)"
      using Cons.prems(7) l inv_length [OF inv] by (auto simp: promote_node_nodes(1) [OF inv l n] in_set_remove1)
  qed (use Cons.prems in auto)
  ultimately show ?case using keep expired
    by (auto simp: Let_def overdue_def deadlines split: option.splits)
qed simp

lemma aged_levels:
  assumes "P L q" and "mlq_inv q" and "mq_aging_cfg q = Some a" and "L < mq_num_levels q"
  shows "P 0 (snd (snd (age_levels clk now L a (v, p, q))))"
  using assms
proof (induction L arbitrary: v p q)
  case (Suc L)
  note skip = Suc.IH [of q v p, OF descend [OF Suc.prems(1)] Suc.prems(2,3)]
  show ?case
  proof (cases "mq_next_aging q ! Suc L")
    case None
    then show ?thesis using skip Suc.prems(4) by simp
  next
    case (Some d)
    let ?q = "q\<lparr>mq_next_aging := (mq_next_aging q)[Suc L := None]\<rparr>"
    let ?r = "age_level clk now (Suc L) a d (mq_queues q ! Suc L) (v, p, ?q)"
    have "same_structure ?q q" by (simp add: same_structure_def)
    then have inv: "mlq_inv ?q" by (rule same_structure_inv) (simp_all add: inv_cursor Suc.prems(2))
    have dist: "distinct (mq_queues q ! Suc L)"
      using inv_level_distinct [OF Suc.prems(2,4)] by (simp add: distinct_map)
    have "P (Suc L) (snd (snd ?r))"
      using Suc.prems dist by (intro aged_level [OF deadlines [OF Suc.prems(1)] inv]) auto
    moreover obtain v1 p1 q1 S where r: "?r = (v1, p1, q1)" and "ages_by a now S ?q q1"
      using age_level_result [OF inv, of a "Suc L" "mq_queues q ! Suc L" clk now d v p] Suc.prems(3,4) dist
      by (auto simp: level_result_def)
    ultimately have "P 0 (snd (snd (age_levels clk now L a ?r)))"
      using Suc.IH [of q1 v1 p1] Suc.prems descend by (auto simp: ages_by_def)
    then show ?thesis using Some skip Suc.prems(4) by simp
  qed
qed simp

lemma pass:
  assumes "P (mq_num_levels q - 1) q" and "mlq_inv q" and "P 0 q"
  shows "P 0 (snd (age_once_locked clk now q))"
  using aged_levels [OF assms(1,2)] inv_cursor [OF assms(2)] assms(3)
  by (auto simp: age_once_locked_def case_prod_unfold Let_def split: option.split)

end

section \<open>The clocks stay together\<close>

definition share_bounded :: "real \<Rightarrow> MultiLevelQueue \<Rightarrow> bool" where
  "share_bounded C q \<longleftrightarrow>
     (\<forall>weights. mq_share q = Some weights \<longrightarrow>
        (\<forall>l < mq_num_levels q. mq_vclock q ! l \<le> mq_vfloor q + C / real (weights ! l) \<and>
           (mq_queues q ! l \<noteq> [] \<longrightarrow> mq_vfloor q \<le> mq_vclock q ! l)))"

lemma inv_share:
  assumes "mlq_inv q" and "mq_share q = Some weights"
  shows "length (mq_vclock q) = mq_num_levels q" "length (mq_charged q) = mq_num_levels q"
    "length weights = mq_num_levels q" "l < mq_num_levels q \<Longrightarrow> 0 < weights ! l"
  using assms by (auto simp: mlq_inv_def mlq_shape_def)

lemma share_bounded_new: "0 \<le> C \<Longrightarrow> make_MultiLevelQueue levels aging sel share = Inr q \<Longrightarrow> share_bounded C q"
  by (auto simp: make_MultiLevelQueue_def mlq_init_def share_bounded_def split: if_splits)

lemma activate_bounded:
  assumes "0 \<le> C" and "l < length (mq_vclock q)" and "mq_vclock q ! l \<le> mq_vfloor q + C / real w"
  shows "mq_vfloor q \<le> mq_vclock (activate_locked l q) ! l \<and> mq_vclock (activate_locked l q) ! l \<le> mq_vfloor q + C / real w"
  using assms by (simp add: activate_locked_def)

lemma activate_other: "k \<noteq> l \<Longrightarrow> mq_vclock (activate_locked l q) ! k = mq_vclock q ! k"
  by (simp add: activate_locked_def)

lemma promote_node_vclock:
  "mq_vclock (promote_node l now n q) =
     (if mq_share q \<noteq> None \<and> mq_queues q ! (l - 1) = [] then mq_vclock (activate_locked (l - 1) q) else mq_vclock q)"
  by (simp add: promote_node_def Let_def activate_locked_def)

lemma promote_node_bounded:
  assumes C: "0 \<le> C" and b: "share_bounded C q" and inv: "mlq_inv q" and l: "0 < l" "l < mq_num_levels q"
    and n: "n \<in> set (mq_queues q ! l)"
  shows "share_bounded C (promote_node l now n q)"
  unfolding share_bounded_def
proof (intro allI impI)
  fix weights k assume w: "mq_share (promote_node l now n q) = Some weights" and k: "k < mq_num_levels (promote_node l now n q)"
  then have old: "mq_vclock q ! k \<le> mq_vfloor q + C / real (weights ! k)" "mq_queues q ! k \<noteq> [] \<Longrightarrow> mq_vfloor q \<le> mq_vclock q ! k"
    using b by (simp_all add: share_bounded_def)
  have w': "mq_share q = Some weights" using w by simp
  have len: "k < length (mq_vclock q)" using inv_share(1) [OF inv w'] k by simp
  show "mq_vclock (promote_node l now n q) ! k \<le> mq_vfloor (promote_node l now n q) + C / real (weights ! k) \<and>
      (mq_queues (promote_node l now n q) ! k \<noteq> [] \<longrightarrow> mq_vfloor (promote_node l now n q) \<le> mq_vclock (promote_node l now n q) ! k)"
  proof (cases "k = l - 1")
    case True
    then show ?thesis using old activate_bounded [OF C len old(1)] by (auto simp: promote_node_vclock w')
  next
    case False
    then have "mq_queues (promote_node l now n q) ! k \<noteq> [] \<Longrightarrow> mq_queues q ! k \<noteq> []"
      using inv_length [OF inv] l n by (cases "k = l") (auto simp: promote_node_nodes(1) [OF inv l n])
    then show ?thesis using old False by (auto simp: promote_node_vclock activate_other)
  qed
qed

lemma remove_locked_bounded:
  assumes "share_bounded C q" and inv: "mlq_inv q" and l: "l < mq_num_levels q" and n: "n \<in> set (mq_queues q ! l)"
  shows "share_bounded C (snd (remove_locked l n q))"
  using assms(1) length_pos_if_in_set [OF n] inv_length [OF inv] l
  by (auto simp: share_bounded_def remove_locked_queues [OF inv l n] nth_list_update)

lemma place_message_clocks:
  assumes "enqueue cost now m q = Inr q'"
  shows "mq_vfloor q' = mq_vfloor q" "mq_charged q' = mq_charged q" "mq_share q' = mq_share q"
    "mq_num_levels q' = mq_num_levels q"
    "mq_vclock q' = (if mq_share q \<noteq> None \<and> mq_queues q ! m_priority m = []
       then mq_vclock (activate_locked (m_priority m) q) else mq_vclock q)"
    "k \<noteq> m_priority m \<Longrightarrow> mq_queues q' ! k = mq_queues q ! k"
  using assms
  by (auto simp: enqueue_def place_message_def Let_def activate_locked_def link_message_queues split: if_splits option.splits)

lemma enqueue_bounded:
  assumes C: "0 \<le> C" and b: "share_bounded C q" and inv: "mlq_inv q" and run: "enqueue cost now m q = Inr q'"
  shows "share_bounded C q'"
  unfolding share_bounded_def
proof (intro allI impI)
  fix weights k assume w: "mq_share q' = Some weights" and k: "k < mq_num_levels q'"
  note eq = place_message_clocks [OF run]
  have old: "mq_vclock q ! k \<le> mq_vfloor q + C / real (weights ! k)" "mq_queues q ! k \<noteq> [] \<Longrightarrow> mq_vfloor q \<le> mq_vclock q ! k"
    using b w k by (simp_all add: share_bounded_def eq)
  have len: "k < length (mq_vclock q)" using inv_share(1) [OF inv, of weights] w k by (simp add: eq)
  show "mq_vclock q' ! k \<le> mq_vfloor q' + C / real (weights ! k) \<and> (mq_queues q' ! k \<noteq> [] \<longrightarrow> mq_vfloor q' \<le> mq_vclock q' ! k)"
    using old activate_bounded [OF C len old(1)] w activate_other [of k "m_priority m" q] eq(6) [of k]
    by (cases "k = m_priority m") (auto simp: eq)
qed

lemma charge_nonneg: "0 \<le> charge_locked cost m"
  by (simp add: charge_locked_def kMinCostMs_def max_def split: option.split double.split)

lemma dequeue_weighted:
  assumes "mq_share q = Some weights"
  shows "selected_level q = None \<Longrightarrow> dequeue_locked cost q = (None, q)"
    and "selected_level q = Some l \<Longrightarrow>
      mq_vfloor (snd (dequeue_locked cost q)) = max (mq_vfloor q) (mq_vclock q ! l) \<and>
      mq_vclock (snd (dequeue_locked cost q)) =
        (mq_vclock q)[l := mq_vclock q ! l + charge_locked cost (n_message (hd (mq_queues q ! l))) / real (weights ! l)] \<and>
      mq_charged (snd (dequeue_locked cost q)) =
        (mq_charged q)[l := mq_charged q ! l + charge_locked cost (n_message (hd (mq_queues q ! l)))] \<and>
      mq_pulls (snd (dequeue_locked cost q)) = (mq_pulls q)[l := Suc (mq_pulls q ! l)]"
  using assms by (simp_all add: selected_level_def dequeue_locked_def case_prod_unfold Let_def)

lemma selected_weighted:
  assumes inv: "mlq_inv q" and "mq_share q = Some weights" and "selected_level q = Some l"
    and "k < mq_num_levels q" and "mq_queues q ! k \<noteq> []"
  shows "mq_vclock q ! l \<le> mq_vclock q ! k"
  using assms best_level_spec [of "mq_queues q" "mq_vclock q"]
  by (auto simp: selected_level_def running_best_def inv_length [OF inv])

lemma dequeue_bounded:
  assumes C: "0 \<le> C" and cost: "\<And>m. charge_locked cost m \<le> C" and b: "share_bounded C q" and inv: "mlq_inv q"
  shows "share_bounded C (snd (dequeue_locked cost q))"
proof (cases "selected_level q")
  case None
  then show ?thesis using b by (simp add: dequeue_locked_None)
next
  case (Some l)
  let ?q = "snd (dequeue_locked cost q)"
  have share: "mq_share ?q = mq_share q" and levels: "mq_num_levels ?q = mq_num_levels q"
    and queues: "mq_queues ?q = (mq_queues q)[l := tl (mq_queues q ! l)]"
    using dequeue_locked_Some [OF inv Some, of cost] by (metis list.sel(3) snd_conv)+
  note l = selected_level_Some [OF inv Some]
  have len: "length (mq_queues q) = mq_num_levels q" by (rule inv_length [OF inv])
  show ?thesis
    unfolding share_bounded_def
  proof (intro allI impI)
    fix weights k assume w: "mq_share ?q = Some weights" and k: "k < mq_num_levels ?q"
    have w': "mq_share q = Some weights" using w share by simp
    have old: "mq_vclock q ! i \<le> mq_vfloor q + C / real (weights ! i)" "mq_queues q ! i \<noteq> [] \<Longrightarrow> mq_vfloor q \<le> mq_vclock q ! i"
      if "i < mq_num_levels q" for i using b w' that by (simp_all add: share_bounded_def)
    have floor: "mq_vfloor ?q = mq_vclock q ! l"
      using dequeue_weighted(2) [OF w' Some, of cost] old(2) [OF l] by simp
    show "mq_vclock ?q ! k \<le> mq_vfloor ?q + C / real (weights ! k) \<and> (mq_queues ?q ! k \<noteq> [] \<longrightarrow> mq_vfloor ?q \<le> mq_vclock ?q ! k)"
    proof (cases "k = l")
      case True
      show ?thesis
        using dequeue_weighted(2) [OF w' Some, of cost] True inv_share(1) [OF inv w'] l cost charge_nonneg floor
        by (simp add: divide_right_mono)
    next
      case False
      have "mq_vfloor q \<le> mq_vclock q ! l" using old(2) [OF l] .
      with False show ?thesis
        using dequeue_weighted(2) [OF w' Some, of cost] old(1) [of k] selected_weighted [OF inv w' Some, of k] k floor
        by (auto simp: queues levels)
    qed
  qed
qed

section \<open>Service of a level with work\<close>

text \<open>While a level has work its clock moves exactly with the service it is charged.\<close>

definition clock_tracks :: "nat \<Rightarrow> MultiLevelQueue \<Rightarrow> MultiLevelQueue \<Rightarrow> bool" where
  "clock_tracks i q q' \<longleftrightarrow>
     mq_share q' = mq_share q \<and> mq_num_levels q' = mq_num_levels q \<and>
     (\<forall>weights. mq_share q = Some weights \<longrightarrow>
        mq_vclock q' ! i - mq_vclock q ! i = (mq_charged q' ! i - mq_charged q ! i) / real (weights ! i))"

lemma clock_tracks_trans: "clock_tracks i q q1 \<Longrightarrow> clock_tracks i q1 q2 \<Longrightarrow> clock_tracks i q q2"
  by (auto simp: clock_tracks_def diff_divide_distrib)

lemma enqueue_tracks: "enqueue cost now m q = Inr q' \<Longrightarrow> mq_queues q ! i \<noteq> [] \<Longrightarrow> clock_tracks i q q'"
  by (cases "i = m_priority m") (auto simp: clock_tracks_def place_message_clocks activate_other)

lemma dequeue_tracks:
  assumes inv: "mlq_inv q"
  shows "clock_tracks i q (snd (dequeue_locked cost q))"
proof (cases "selected_level q")
  case None
  then show ?thesis by (simp add: dequeue_locked_None clock_tracks_def)
next
  case (Some l)
  have "mq_share (snd (dequeue_locked cost q)) = mq_share q" "mq_num_levels (snd (dequeue_locked cost q)) = mq_num_levels q"
    using dequeue_locked_Some [OF inv Some, of cost] by (metis snd_conv)+
  then show ?thesis
    using dequeue_weighted(2) [OF _ Some, of _ cost] selected_level_Some [OF inv Some] inv_share [OF inv]
    by (cases "i = l") (auto simp: clock_tracks_def)
qed

definition same_clocks :: "MultiLevelQueue \<Rightarrow> MultiLevelQueue \<Rightarrow> bool" where
  "same_clocks q0 q \<longleftrightarrow> mq_share q = mq_share q0 \<and> mq_num_levels q = mq_num_levels q0 \<and>
     mq_vclock q = mq_vclock q0 \<and> mq_charged q = mq_charged q0"

lemma same_clocks_tracks: "same_clocks q q' \<Longrightarrow> clock_tracks i q q'"
  by (simp add: same_clocks_def clock_tracks_def)

interpretation bounded_removal: removal_invariant "share_bounded C" for C
  by unfold_locales (rule remove_locked_bounded)

interpretation clocks_removal: removal_invariant "same_clocks q0" for q0
  by unfold_locales (simp add: same_clocks_def)

definition clock_kept :: "MultiLevelQueue \<Rightarrow> nat \<Rightarrow> nat \<Rightarrow> MultiLevelQueue \<Rightarrow> bool" where
  "clock_kept q0 i l q \<longleftrightarrow> mq_share q = mq_share q0 \<and> mq_num_levels q = mq_num_levels q0 \<and>
     mq_charged q = mq_charged q0 \<and> mq_vclock q ! i = mq_vclock q0 ! i \<and> (i < l \<longrightarrow> mq_queues q ! i \<noteq> [])"

interpretation bounded_aging: promotion_invariant "\<lambda>_ q. 0 \<le> C \<and> share_bounded C q" for C
  by unfold_locales (use promote_node_bounded in \<open>auto simp: share_bounded_def\<close>)

interpretation clocks_aging: promotion_invariant "clock_kept q0 i" for q0 i
proof unfold_locales
  fix l q n now assume k: "clock_kept q0 i l q" and inv: "mlq_inv q" and l: "0 < l" "l < mq_num_levels q"
    and n: "n \<in> set (mq_queues q ! l)"
  have "i < l \<longrightarrow> mq_queues (promote_node l now n q) ! i \<noteq> []"
    using k inv_length [OF inv] l by (auto simp: clock_kept_def promote_node_nodes(1) [OF inv l n] nth_list_update)
  moreover have "mq_vclock (promote_node l now n q) ! i = mq_vclock q ! i"
    using k l by (cases "i = l - 1") (auto simp: clock_kept_def promote_node_vclock activate_other)
  ultimately show "clock_kept q0 i l (promote_node l now n q)"
    using k by (simp add: clock_kept_def)
qed (auto simp: clock_kept_def)

section \<open>Histories without refunds\<close>

text \<open>
  The operations other than \<^verbatim>\<open>requeue_front\<close>, which takes a charge back. \<open>C\<close> bounds every
  charge. \<open>backlogged\<close> is a stretch of operations during which the levels \<open>i\<close> and \<open>j\<close> have work.
\<close>

inductive share_step :: "real \<Rightarrow> MultiLevelQueue \<Rightarrow> MultiLevelQueue \<Rightarrow> bool" for C where
  share_enqueue: "m_priority m \<le> m_original_priority m \<Longrightarrow> enqueue cost now m q = Inr q' \<Longrightarrow> share_step C q q'"
| share_dequeue: "(\<And>m. charge_locked cost m \<le> C) \<Longrightarrow> dequeue_locked cost q = (out, q') \<Longrightarrow> share_step C q q'"
| share_batch: "sweep_expired_batch limit now q = Some (ms, q') \<Longrightarrow> share_step C q q'"
| share_sweep: "sweep_expired clk q = (ms, q') \<Longrightarrow> share_step C q q'"
| share_age: "age_once_locked clk now q = (v, q') \<Longrightarrow> share_step C q q'"

inductive backlogged :: "real \<Rightarrow> nat \<Rightarrow> nat \<Rightarrow> MultiLevelQueue \<Rightarrow> MultiLevelQueue \<Rightarrow> bool" for C i j where
  backlogged_start: "mq_queues q ! i \<noteq> [] \<Longrightarrow> mq_queues q ! j \<noteq> [] \<Longrightarrow> backlogged C i j q q"
| backlogged_step: "backlogged C i j q q1 \<Longrightarrow> share_step C q1 q2 \<Longrightarrow> mq_queues q2 ! i \<noteq> [] \<Longrightarrow> mq_queues q2 ! j \<noteq> [] \<Longrightarrow>
    backlogged C i j q q2"

lemma share_step_facts:
  assumes "share_step C q q'" and "mlq_inv q" and "0 \<le> C"
  shows "mlq_inv q' \<and> (share_bounded C q \<longrightarrow> share_bounded C q') \<and> (mq_queues q ! i \<noteq> [] \<longrightarrow> clock_tracks i q q')"
  using assms(1)
proof cases
  case (share_enqueue m cost now)
  have "mlq_inv q'" using share_enqueue assms(2) place_message_inv by (auto simp: enqueue_def)
  moreover have "share_bounded C q \<Longrightarrow> share_bounded C q'" by (rule enqueue_bounded [OF assms(3) _ assms(2) share_enqueue(2)])
  moreover have "mq_queues q ! i \<noteq> [] \<Longrightarrow> clock_tracks i q q'" by (rule enqueue_tracks [OF share_enqueue(2)])
  ultimately show ?thesis by blast
next
  case (share_dequeue cost out)
  then have q': "q' = snd (dequeue_locked cost q)" by simp
  have "mlq_inv q'" unfolding q' by (rule dequeue_locked_inv [OF assms(2)])
  moreover have "share_bounded C q \<Longrightarrow> share_bounded C q'" unfolding q' by (rule dequeue_bounded [OF assms(3) share_dequeue(1) _ assms(2)])
  moreover have "clock_tracks i q q'" unfolding q' by (rule dequeue_tracks [OF assms(2)])
  ultimately show ?thesis by blast
next
  case (share_batch limit now ms)
  then have run: "sweep_batch limit now [] q = Some (ms, q')" by (simp add: sweep_expired_batch_def)
  have "mlq_inv q'" by (rule sweep_expired_batch_spec [OF assms(2), of limit now]) (use share_batch in auto)
  moreover have "share_bounded C q \<Longrightarrow> share_bounded C q'" using bounded_removal.batch [OF _ assms(2) run] by blast
  moreover have "clock_tracks i q q'" using clocks_removal.batch [OF _ assms(2) run, of q]
    by (intro same_clocks_tracks) (simp add: same_clocks_def)
  ultimately show ?thesis by blast
next
  case (share_sweep clk ms)
  then have q': "q' = snd (sweep_expired clk q)" by simp
  have "mlq_inv q'" by (rule sweep_expired_spec [OF assms(2), of clk]) (use share_sweep in auto)
  moreover have "share_bounded C q \<Longrightarrow> share_bounded C q'" unfolding q' by (rule bounded_removal.diagnostic [OF _ assms(2)])
  moreover have "clock_tracks i q q'" unfolding q'
    by (intro same_clocks_tracks clocks_removal.diagnostic [OF _ assms(2)]) (simp add: same_clocks_def)
  ultimately show ?thesis by blast
next
  case (share_age clk now v)
  then have q': "q' = snd (age_once_locked clk now q)" by simp
  have "mlq_inv q'" unfolding q' by (rule age_once_inv [OF assms(2)])
  moreover have "share_bounded C q \<Longrightarrow> share_bounded C q'"
    unfolding q' using bounded_aging.pass [OF _ assms(2), of C clk now] assms(3) by simp
  moreover have "clock_tracks i q q'" if "mq_queues q ! i \<noteq> []"
    using clocks_aging.pass [OF _ assms(2), of q i clk now] that unfolding q' by (simp add: clock_kept_def clock_tracks_def)
  ultimately show ?thesis by blast
qed

lemmas share_step_keeps =
  share_step_facts [THEN conjunct1] share_step_facts [THEN conjunct2, THEN conjunct1, rule_format]
  share_step_facts [THEN conjunct2, THEN conjunct2, rule_format]

lemma share_steps_keep:
  assumes "(share_step C)\<^sup>*\<^sup>* q q'" and "mlq_inv q" and "0 \<le> C" and "share_bounded C q"
  shows "mlq_inv q' \<and> share_bounded C q'"
  using assms by (induction rule: rtranclp_induct) (blast intro: share_step_keeps)+

lemma backlogged_keeps:
  assumes "backlogged C i j q q'" and "mlq_inv q" and "0 \<le> C" and "share_bounded C q"
  shows "mlq_inv q' \<and> share_bounded C q' \<and> mq_queues q ! i \<noteq> [] \<and> mq_queues q ! j \<noteq> [] \<and>
    mq_queues q' ! i \<noteq> [] \<and> mq_queues q' ! j \<noteq> [] \<and> clock_tracks i q q' \<and> clock_tracks j q q'"
  using assms
proof (induction rule: backlogged.induct)
  case (backlogged_step q q1 q2)
  then show ?case using share_step_keeps [OF backlogged_step.hyps(2)] clock_tracks_trans by blast
qed (simp add: clock_tracks_def)

lemma backlogged_fair:
  assumes run: "backlogged C i j q q'" and "mlq_inv q" and "0 \<le> C" and "share_bounded C q"
    and w: "mq_share q = Some weights" and ij: "i < mq_num_levels q" "j < mq_num_levels q"
  shows "\<bar>(mq_charged q' ! i - mq_charged q ! i) / real (weights ! i) - (mq_charged q' ! j - mq_charged q ! j) / real (weights ! j)\<bar>
     \<le> C / real (weights ! i) + C / real (weights ! j)"
proof -
  note keeps = backlogged_keeps [OF assms(1-4)]
  have clocks: "mq_vclock q' ! k - mq_vclock q ! k = (mq_charged q' ! k - mq_charged q ! k) / real (weights ! k)"
    if "k = i \<or> k = j" for k using keeps w that by (auto simp: clock_tracks_def)
  have before: "mq_vfloor q \<le> mq_vclock q ! k" "mq_vclock q ! k \<le> mq_vfloor q + C / real (weights ! k)"
    and after: "mq_vfloor q' \<le> mq_vclock q' ! k" "mq_vclock q' ! k \<le> mq_vfloor q' + C / real (weights ! k)"
    if "k = i \<or> k = j" for k
    using keeps assms(4) w that ij by (auto simp: share_bounded_def clock_tracks_def)
  note at_i = clocks [OF disjI1 [OF refl]] before [OF disjI1 [OF refl]] after [OF disjI1 [OF refl]]
    and at_j = clocks [OF disjI2 [OF refl]] before [OF disjI2 [OF refl]] after [OF disjI2 [OF refl]]
  show ?thesis using at_i at_j by linarith
qed

lemma no_share_pull:
  assumes "mq_share q = None"
  shows "mq_vclock (snd (dequeue_locked cost q)) = mq_vclock q" "mq_pulls (snd (dequeue_locked cost q)) = mq_pulls q"
    "mq_charged (snd (dequeue_locked cost q)) = mq_charged q" "mq_share (snd (dequeue_locked cost q)) = None"
  using assms by (simp_all add: dequeue_locked_def case_prod_unfold Let_def split: option.split)

lemma dequeue_charges:
  "mq_charged (snd (dequeue_locked cost q)) = mq_charged q \<or>
   (\<exists>l c. 0 \<le> c \<and> mq_charged (snd (dequeue_locked cost q)) = (mq_charged q)[l := mq_charged q ! l + c])"
proof (cases "mq_share q")
  case (Some weights)
  show ?thesis
  proof (cases "selected_level q")
    case (Some l)
    then show ?thesis using dequeue_weighted(2) [OF \<open>mq_share q = Some weights\<close> Some, of cost] charge_nonneg by blast
  qed (simp add: dequeue_locked_None)
qed (simp add: no_share_pull)

lemma share_step_config:
  assumes "share_step C q q'" and inv: "mlq_inv q"
  shows "mq_share q' = mq_share q \<and> mq_num_levels q' = mq_num_levels q \<and>
    (mq_charged q' = mq_charged q \<or> (\<exists>l c. 0 \<le> c \<and> mq_charged q' = (mq_charged q)[l := mq_charged q ! l + c]))"
  using assms(1)
proof cases
  case (share_enqueue m cost now)
  then show ?thesis by (simp add: place_message_clocks)
next
  case (share_dequeue cost out)
  then show ?thesis using dequeue_tracks [OF inv, of 0 cost] dequeue_charges [of cost q] by (simp add: clock_tracks_def)
next
  case (share_batch limit now ms)
  then have "sweep_batch limit now [] q = Some (ms, q')" by (simp add: sweep_expired_batch_def)
  from clocks_removal.batch [OF _ inv this, of q] show ?thesis by (simp add: same_clocks_def)
next
  case (share_sweep clk ms)
  then show ?thesis using clocks_removal.diagnostic [OF _ inv, of q clk] by (simp add: same_clocks_def)
next
  case (share_age clk now v)
  show ?thesis
  proof (cases "mq_aging_cfg q")
    case None
    then show ?thesis using share_age by (simp add: age_once_locked_def)
  next
    case (Some a)
    then show ?thesis
      by (rule age_once_result [OF inv, of a clk now]) (use share_age in \<open>auto simp: pass_result_def ages_by_def\<close>)
  qed
qed

lemma share_steps_config:
  assumes "(share_step C)\<^sup>*\<^sup>* q q'" and "mlq_inv q" and "0 \<le> C"
  shows "mlq_inv q' \<and> mq_share q' = mq_share q \<and> mq_num_levels q' = mq_num_levels q"
  using assms
proof (induction rule: rtranclp_induct)
  case (step q1 q2)
  then have inv: "mlq_inv q1" by blast
  have "mlq_inv q2" by (rule share_step_keeps(1) [OF step.hyps(2) inv step.prems(2)])
  moreover have "mq_share q2 = mq_share q1 \<and> mq_num_levels q2 = mq_num_levels q1"
    using share_step_config [OF step.hyps(2) inv] by blast
  ultimately show ?case using step by simp
qed simp

section \<open>Taking a pull back\<close>

text \<open>The charges of a level never go below zero; with no level share there are none.\<close>

definition charges_ok :: "MultiLevelQueue \<Rightarrow> bool" where
  "charges_ok q \<longleftrightarrow> (\<forall>c \<in> set (mq_charged q). 0 \<le> c)"

lemma charges_ok_new: "make_MultiLevelQueue levels aging sel share = Inr q \<Longrightarrow> charges_ok q"
  by (auto simp: make_MultiLevelQueue_def mlq_init_def charges_ok_def split: if_splits)

lemma nonneg_update:
  assumes "\<forall>x \<in> set xs. 0 \<le> (x::real)" and "0 \<le> c"
  shows "\<forall>x \<in> set (xs[l := xs ! l + c]). 0 \<le> x"
proof (cases "l < length xs")
  case True
  then have "0 \<le> xs ! l" using assms(1) by simp
  then show ?thesis using assms set_update_subset_insert [of xs l "xs ! l + c"] by auto
qed (use assms in \<open>simp add: list_update_beyond\<close>)

lemma share_step_charges:
  assumes "share_step C q q'" and "charges_ok q" and "mlq_inv q"
  shows "charges_ok q'"
proof -
  have "mq_charged q' = mq_charged q \<or> (\<exists>l c. 0 \<le> c \<and> mq_charged q' = (mq_charged q)[l := mq_charged q ! l + c])"
    using share_step_config [OF assms(1,3)] by (elim conjE)
  then show ?thesis
  proof (elim disjE exE conjE)
    fix l c assume "0 \<le> c" and eq: "mq_charged q' = (mq_charged q)[l := mq_charged q ! l + c]"
    then show ?thesis
      unfolding charges_ok_def eq by (intro nonneg_update assms(2) [unfolded charges_ok_def])
  qed (use assms(2) in \<open>simp only: charges_ok_def\<close>)
qed

lemma share_steps_charges:
  assumes "(share_step C)\<^sup>*\<^sup>* q q'" and "mlq_inv q" and "0 \<le> C" and "charges_ok q"
  shows "charges_ok q'"
  using assms
proof (induction rule: rtranclp_induct)
  case (step q1 q2)
  then have "charges_ok q1" "mlq_inv q1" using share_steps_config [OF step.hyps(1) step.prems(1,2)] by blast+
  then show ?case by (rule share_step_charges [OF step.hyps(2)])
qed simp

lemma restore_clocks:
  assumes inv: "mlq_inv q" and b: "share_bounded C q" and c: "charges_ok q"
    and pull: "dequeue_locked cost q = (Some m, q1)" and put_back: "requeue_front cost m q1 = Inr q2"
  shows "mq_vclock q2 = mq_vclock q \<and> mq_pulls q2 = mq_pulls q \<and> mq_charged q2 = mq_charged q"
proof (cases "mq_share q")
  case None
  then show ?thesis
    using no_share_pull [OF None, of cost] pull put_back
    by (auto simp: requeue_front_def place_message_def Let_def split: if_splits)
next
  case (Some weights)
  note share = Some
  obtain l where sel: "selected_level q = Some l"
    using pull dequeue_locked_None [of q cost] by (cases "selected_level q") auto
  note l = selected_level_Some [OF inv sel]
  obtain n rest where head: "mq_queues q ! l = n # rest" and m: "m = n_message n" and share1: "mq_share q1 = Some weights"
    by (rule dequeue_locked_Some [OF inv sel, of cost]) (use pull share in auto)
  have pri: "m_priority m = l" using inv_level_node [OF inv l(1), of n] head m by simp
  let ?c = "charge_locked cost m"
  have q1: "mq_vfloor q1 = mq_vclock q ! l" "mq_vclock q1 = (mq_vclock q)[l := mq_vclock q ! l + ?c / real (weights ! l)]"
    "mq_charged q1 = (mq_charged q)[l := mq_charged q ! l + ?c]" "mq_pulls q1 = (mq_pulls q)[l := Suc (mq_pulls q ! l)]"
    using dequeue_weighted(2) [OF share sel, of cost] pull head m b share l by (simp_all add: share_bounded_def)
  have len: "l < length (mq_vclock q)" "l < length (mq_charged q)" "l < length (mq_pulls q)"
    using inv share l by (auto simp: mlq_inv_def mlq_shape_def)
  have "0 \<le> mq_charged q ! l" using c len by (simp add: charges_ok_def)
  moreover have "0 \<le> ?c / real (weights ! l)" using charge_nonneg by simp
  ultimately show ?thesis
    using put_back len by (auto simp: requeue_front_def place_message_def Let_def share1 pri refund_locked_def activate_locked_def q1
        list_update_same_conv max_def split: if_splits)
qed

end
