(* ===== verification/Queue_Fifo.thy ===== *)
theory Queue_Fifo
  imports Queue_Share
begin

text \<open>
  The queue as its callers see it: one first-in first-out list of messages per level.
  \<open>level_fifo\<close> is that contract, with the node addresses, the expiry index, the counters and
  the deadline cache forgotten; the queue of the code is an instance of it. The last
  section is the fairness of the round-robin policy, proved from the contract.
\<close>

section \<open>The contract\<close>

type_synonym levels = "Message list list"

definition level_push :: "bool \<Rightarrow> Message \<Rightarrow> levels \<Rightarrow> levels" where
  "level_push front m ls =
     ls[m_priority m := (if front then m # ls ! m_priority m else ls ! m_priority m @ [m])]"

definition level_pop :: "nat \<Rightarrow> levels \<Rightarrow> levels" where
  "level_pop l ls = ls[l := tl (ls ! l)]"

locale level_fifo =
  fixes ok :: "'q \<Rightarrow> bool"
    and view :: "'q \<Rightarrow> levels"
    and push :: "time \<Rightarrow> bool \<Rightarrow> Message \<Rightarrow> 'q \<Rightarrow> 'e + 'q"
    and pull :: "'q \<Rightarrow> Message option \<times> 'q"
    and chosen :: "'q \<Rightarrow> nat option"
  assumes push_rejected: "ok q \<Longrightarrow> length (view q) \<le> m_priority m \<Longrightarrow> \<exists>e. push now front m q = Inl e"
    and push_accepted: "ok q \<Longrightarrow> m_priority m < length (view q) \<Longrightarrow> m_priority m \<le> m_original_priority m \<Longrightarrow>
      \<exists>q'. push now front m q = Inr q' \<and> ok q' \<and>
        view q' = level_push front (if front then m else m\<lparr>m_enqueue_time := now\<rparr>) (view q)"
    and pull_none: "ok q \<Longrightarrow> chosen q = None \<Longrightarrow> pull q = (None, q) \<and> concat (view q) = []"
    and pull_some: "ok q \<Longrightarrow> chosen q = Some l \<Longrightarrow> l < length (view q) \<and> view q ! l \<noteq> [] \<and>
      (\<exists>q'. pull q = (Some (hd (view q ! l)), q') \<and> ok q' \<and> view q' = level_pop l (view q))"
begin

lemma pull_ok: "ok q \<Longrightarrow> ok (snd (pull q))"
  by (cases "chosen q") (simp add: pull_none, use pull_some in fastforce)

lemma pull_length: "ok q \<Longrightarrow> length (view (snd (pull q))) = length (view q)"
  by (cases "chosen q") (simp add: pull_none, use pull_some in \<open>fastforce simp: level_pop_def\<close>)

text \<open>A message pulled and put back at once leaves the levels as they were.\<close>

lemma restore:
  assumes ok: "ok q" and pull: "pull q = (Some m, q')"
    and placed: "\<And>l m. l < length (view q) \<Longrightarrow> m \<in> set (view q ! l) \<Longrightarrow> m_priority m = l \<and> l \<le> m_original_priority m"
  shows "\<exists>q''. push now True m q' = Inr q'' \<and> ok q'' \<and> view q'' = view q"
proof (cases "chosen q")
  case None
  then show ?thesis using pull pull_none [OF ok] by simp
next
  case (Some l)
  from pull_some [OF ok Some] pull have l: "l < length (view q)" and ne: "view q ! l \<noteq> []"
    and m: "m = hd (view q ! l)" and ok': "ok q'" and v: "view q' = level_pop l (view q)" by auto
  have p: "m_priority m = l" "l \<le> m_original_priority m" using placed [OF l] ne m by auto
  obtain q'' where "push now True m q' = Inr q''" "ok q''" "view q'' = level_push True m (view q')"
    using push_accepted [OF ok', of m now True] p l v by (auto simp: level_pop_def)
  moreover have "level_push True m (level_pop l (view q)) = view q"
    using l ne m p by (simp add: level_push_def level_pop_def list_update_same_conv)
  ultimately show ?thesis using v by auto
qed

text \<open>Pulls on a level only: first in, first out.\<close>

lemma fifo:
  assumes "ok q" and "chosen q = Some l"
  shows "fst (pull q) = Some (hd (view q ! l))" and "view (snd (pull q)) ! l = tl (view q ! l)"
    and "k \<noteq> l \<Longrightarrow> view (snd (pull q)) ! k = view q ! k"
  using pull_some [OF assms] by (auto simp: level_pop_def)

end

section \<open>The queue meets it\<close>

definition mq_view :: "MultiLevelQueue \<Rightarrow> levels" where
  "mq_view q = map (map n_message) (mq_queues q)"

lemma length_mq_view [simp]: "length (mq_view q) = length (mq_queues q)"
  by (simp add: mq_view_def)

lemma mq_view_nth: "l < length (mq_queues q) \<Longrightarrow> mq_view q ! l = map n_message (mq_queues q ! l)"
  by (simp add: mq_view_def)

lemma mq_view_empty: "l < length (mq_queues q) \<Longrightarrow> mq_view q ! l = [] \<longleftrightarrow> mq_queues q ! l = []"
  by (simp add: mq_view_nth)

lemma place_message_view:
  assumes inv: "mlq_inv q" and p: "m_priority m < mq_num_levels q" "m_priority m \<le> m_original_priority m"
  shows "\<exists>q'. place_message cost now m b q = Inr q' \<and> mlq_inv q' \<and>
    mq_view q' = level_push b (if b then m else m\<lparr>m_enqueue_time := now\<rparr>) (mq_view q)"
proof -
  obtain q' where q': "place_message cost now m b q = Inr q'"
    using p by (simp add: place_message_def Let_def)
  have "mq_queues q' = mq_queues (link_message (if b then m else m\<lparr>m_enqueue_time := now\<rparr>) b q)"
    using place_message_Inr(2) [OF q'] by (simp add: same_structure_def)
  then have "mq_view q' = level_push b (if b then m else m\<lparr>m_enqueue_time := now\<rparr>) (mq_view q)"
    using p inv_length [OF inv] by (auto simp: mq_view_def link_message_queues level_push_def map_update new_node_def)
  then show ?thesis using q' place_message_inv [OF q' inv p(2)] by blast
qed

lemma dequeue_locked_view:
  assumes inv: "mlq_inv q" and sel: "selected_level q = Some l"
  shows "l < length (mq_view q) \<and> mq_view q ! l \<noteq> [] \<and>
    (\<exists>q'. dequeue_locked cost q = (Some (hd (mq_view q ! l)), q') \<and> mlq_inv q' \<and> mq_view q' = level_pop l (mq_view q))"
proof -
  note l = selected_level_Some [OF inv sel]
  obtain n rest q' where head: "mq_queues q ! l = n # rest" and run: "dequeue_locked cost q = (Some (n_message n), q')"
    and inv': "mlq_inv q'" and queues: "mq_queues q' = (mq_queues q)[l := rest]"
    by (rule dequeue_locked_Some [OF inv sel])
  have "mq_view q' = level_pop l (mq_view q)"
    using l head inv_length [OF inv] by (simp add: mq_view_def queues level_pop_def map_update)
  then show ?thesis using l head run inv' inv_length [OF inv] by (simp add: mq_view_nth)
qed

interpretation mq: level_fifo mlq_inv mq_view "\<lambda>now front m q. place_message cost now m front q" "dequeue_locked cost"
  selected_level for cost
proof unfold_locales
  fix q now front and m :: Message assume "mlq_inv q" and "length (mq_view q) \<le> m_priority m"
  then show "\<exists>e. place_message cost now m front q = Inl e" by (simp add: place_message_def inv_length)
next
  fix q now front and m :: Message
  assume "mlq_inv q" and "m_priority m < length (mq_view q)" and "m_priority m \<le> m_original_priority m"
  then show "\<exists>q'. place_message cost now m front q = Inr q' \<and> mlq_inv q' \<and>
      mq_view q' = level_push front (if front then m else m\<lparr>m_enqueue_time := now\<rparr>) (mq_view q)"
    using place_message_view by (simp add: inv_length)
next
  fix q assume inv: "mlq_inv q" and "selected_level q = None"
  then have "all_nodes q = []" using selected_level_None by blast
  moreover have "concat (mq_view q) = map n_message (all_nodes q)" by (simp add: mq_view_def map_concat)
  ultimately have "concat (mq_view q) = []" by (simp only: list.map)
  then show "dequeue_locked cost q = (None, q) \<and> concat (mq_view q) = []"
    using dequeue_locked_None [OF \<open>selected_level q = None\<close>] by simp
next
  fix q l assume "mlq_inv q" and "selected_level q = Some l"
  then show "l < length (mq_view q) \<and> mq_view q ! l \<noteq> [] \<and>
      (\<exists>q'. dequeue_locked cost q = (Some (hd (mq_view q ! l)), q') \<and> mlq_inv q' \<and> mq_view q' = level_pop l (mq_view q))"
    by (rule dequeue_locked_view)
qed

lemma mq_view_placed:
  "mlq_inv q \<Longrightarrow> l < length (mq_view q) \<Longrightarrow> m \<in> set (mq_view q ! l) \<Longrightarrow> m_priority m = l \<and> l \<le> m_original_priority m"
  using inv_level_node by (auto simp: mq_view_nth inv_length)

section \<open>Round robin\<close>

definition cyclic_distance :: "nat \<Rightarrow> nat \<Rightarrow> nat \<Rightarrow> nat" where
  "cyclic_distance n c l = (l + n - c) mod n"

lemma cyclic_distance_offset:
  assumes "c < n" and "l < n"
  shows "(c + cyclic_distance n c l) mod n = l"
proof -
  have "c + (l + n - c) = l + n" using assms by simp
  then show ?thesis unfolding cyclic_distance_def by (metis assms(2) mod_add_right_eq mod_add_self2 mod_less)
qed

lemma cyclic_distance_step:
  assumes "c < n" and "l < n" and "i < cyclic_distance n c l"
  shows "cyclic_distance n ((c + i + 1) mod n) l = cyclic_distance n c l - (i + 1)"
proof (cases "c \<le> l")
  case True
  then have "cyclic_distance n c l = l - c" using assms(1,2) by (simp add: cyclic_distance_def mod_if)
  moreover from this have "c + i + 1 \<le> l" "(c + i + 1) mod n = c + i + 1" using assms True by simp_all
  ultimately show ?thesis using assms(2) by (simp add: cyclic_distance_def mod_if)
next
  case False
  then have d: "cyclic_distance n c l = l + n - c" using assms(1,2) by (simp add: cyclic_distance_def)
  show ?thesis
  proof (cases "c + i + 1 < n")
    case True
    then show ?thesis using d False assms by (simp add: cyclic_distance_def)
  next
    case wrap: False
    then have "(c + i + 1) mod n = c + i + 1 - n" using assms d by (simp add: mod_if)
    moreover have "c + i + 1 - n \<le> l" using assms(3) d by simp
    ultimately show ?thesis using d wrap assms(1,2) False by (simp add: cyclic_distance_def mod_if)
  qed
qed

lemma round_robin_selected:
  assumes inv: "mlq_inv q" and rr: "mq_selection q = RoundRobin" and sel: "selected_level q = Some l"
  shows "\<exists>i < mq_num_levels q. l = (mq_cursor q + i) mod mq_num_levels q \<and>
    (\<forall>j < i. mq_queues q ! ((mq_cursor q + j) mod mq_num_levels q) = [])"
proof -
  have "mq_share q = None" using inv rr by (auto simp: mlq_inv_def mlq_shape_def)
  then have "scan_level RoundRobin (mq_cursor q) (mq_num_levels q) [0..<mq_num_levels q] (mq_queues q) = Some l"
    using sel rr by (simp add: selected_level_def)
  from scan_level_first [OF this] show ?thesis by auto
qed

text \<open>A pull serves level \<open>l\<close> or brings the cursor closer to it.\<close>

lemma round_robin_closer:
  assumes inv: "mlq_inv q" and rr: "mq_selection q = RoundRobin" and l: "l < mq_num_levels q" "mq_queues q ! l \<noteq> []"
  obtains k q' where "selected_level q = Some k" and "q' = snd (dequeue_locked cost q)" and "mlq_inv q'"
    and "mq_selection q' = RoundRobin" and "mq_num_levels q' = mq_num_levels q"
    and "k = l \<or> mq_queues q' ! l \<noteq> [] \<and> cyclic_distance (mq_num_levels q) (mq_cursor q') l < cyclic_distance (mq_num_levels q) (mq_cursor q) l"
proof -
  let ?n = "mq_num_levels q" and ?c = "mq_cursor q"
  have "all_nodes q \<noteq> []" using l inv_length [OF inv] by (auto simp: concat_eq_Nil_conv)
  then obtain k where sel: "selected_level q = Some k" using selected_level_None [OF inv] by (cases "selected_level q") auto
  obtain i where i: "k = (?c + i) mod ?n" and before: "\<forall>j < i. mq_queues q ! ((?c + j) mod ?n) = []"
    using round_robin_selected [OF inv rr sel] by blast
  have c: "?c < ?n" by (rule inv_cursor [OF inv])
  have "i \<le> cyclic_distance ?n ?c l" using before l cyclic_distance_offset [OF c l(1)] by (metis not_less)
  moreover have "k = l" if "i = cyclic_distance ?n ?c l" using that i cyclic_distance_offset [OF c l(1)] by simp
  ultimately have closer: "k = l \<or> cyclic_distance ?n ((k + 1) mod ?n) l < cyclic_distance ?n ?c l"
    using cyclic_distance_step [OF c l(1), of i] i by (auto simp: mod_Suc_eq order_le_less)
  show thesis
  proof (rule dequeue_locked_Some [OF inv sel, of cost])
    fix n rest q'
    assume "dequeue_locked cost q = (Some (n_message n), q')" "mlq_inv q'" "mq_queues q' = (mq_queues q)[k := rest]"
      "mq_num_levels q' = ?n" "mq_selection q' = mq_selection q"
      "mq_cursor q' = (if mq_selection q = RoundRobin then (k + 1) mod ?n else ?c)"
    then show thesis using that [OF sel, of q'] closer rr l by (cases "k = l") auto
  qed
qed

text \<open>
  Pulls with arrivals in between. The result lists the levels served; an arrival whose
  priority is out of range is refused and changes nothing.
\<close>

datatype RoundEvent = RoundPull CostFn | RoundPut CostFn time Message

fun is_pull :: "RoundEvent \<Rightarrow> bool" where
  "is_pull (RoundPull _) = True"
| "is_pull (RoundPut _ _ _) = False"

fun well_routed :: "RoundEvent \<Rightarrow> bool" where
  "well_routed (RoundPull _) = True"
| "well_routed (RoundPut _ _ m) = (m_priority m \<le> m_original_priority m)"

fun run_rounds :: "RoundEvent list \<Rightarrow> MultiLevelQueue \<Rightarrow> nat list" where
  "run_rounds [] q = []"
| "run_rounds (RoundPull cost # es) q =
     (case selected_level q of None \<Rightarrow> [] | Some l \<Rightarrow> [l]) @ run_rounds es (snd (dequeue_locked cost q))"
| "run_rounds (RoundPut cost now m # es) q =
     run_rounds es (case enqueue cost now m q of Inl _ \<Rightarrow> q | Inr q' \<Rightarrow> q')"

lemma enqueue_keeps:
  assumes inv: "mlq_inv q" and "m_priority m \<le> m_original_priority m" and run: "enqueue cost now m q = Inr q'"
    and l: "l < mq_num_levels q" "mq_queues q ! l \<noteq> []"
  shows "mlq_inv q' \<and> mq_queues q' ! l \<noteq> [] \<and> mq_num_levels q' = mq_num_levels q \<and>
    mq_selection q' = mq_selection q \<and> mq_cursor q' = mq_cursor q"
proof -
  have p: "place_message cost now m False q = Inr q'" using run by (simp add: enqueue_def)
  have "mlq_inv q'" using place_message_inv [OF p inv assms(2)] .
  then show ?thesis
    using place_message_Inr [OF p] l inv_length [OF inv]
    by (auto simp: same_structure_def link_message_queues nth_list_update)
qed

lemma round_robin_serves:
  assumes "mlq_inv q" and "mq_selection q = RoundRobin" and "l < mq_num_levels q" and "mq_queues q ! l \<noteq> []"
    and "\<forall>e \<in> set es. well_routed e"
    and "cyclic_distance (mq_num_levels q) (mq_cursor q) l < length (filter is_pull es)"
  shows "l \<in> set (run_rounds es q)"
  using assms
proof (induction es arbitrary: q)
  case (Cons e es)
  show ?case
  proof (cases e)
    case (RoundPull cost)
    obtain k q' where sel: "selected_level q = Some k" and q': "q' = snd (dequeue_locked cost q)" and inv': "mlq_inv q'"
      and rr': "mq_selection q' = RoundRobin" and n': "mq_num_levels q' = mq_num_levels q"
      and closer: "k = l \<or> mq_queues q' ! l \<noteq> [] \<and>
        cyclic_distance (mq_num_levels q) (mq_cursor q') l < cyclic_distance (mq_num_levels q) (mq_cursor q) l"
      by (rule round_robin_closer [OF Cons.prems(1-4)])
    from closer show ?thesis
    proof
      assume "k = l"
      then show ?thesis using RoundPull sel by simp
    next
      assume "mq_queues q' ! l \<noteq> [] \<and>
        cyclic_distance (mq_num_levels q) (mq_cursor q') l < cyclic_distance (mq_num_levels q) (mq_cursor q) l"
      then have "l \<in> set (run_rounds es q')"
        using Cons.prems RoundPull n' by (intro Cons.IH [OF inv' rr']) auto
      then show ?thesis using RoundPull sel q' by simp
    qed
  next
    case (RoundPut cost now m)
    let ?q = "case enqueue cost now m q of Inl _ \<Rightarrow> q | Inr q' \<Rightarrow> q'"
    have wr: "m_priority m \<le> m_original_priority m" using Cons.prems(5) RoundPut by simp
    have keeps: "mlq_inv ?q \<and> mq_queues ?q ! l \<noteq> [] \<and> mq_num_levels ?q = mq_num_levels q \<and>
        mq_selection ?q = mq_selection q \<and> mq_cursor ?q = mq_cursor q"
    proof (cases "enqueue cost now m q")
      case (Inl e)
      then show ?thesis using Cons.prems(1,4) by simp
    next
      case (Inr q')
      then show ?thesis using enqueue_keeps [OF Cons.prems(1) wr Inr Cons.prems(3,4)] by simp
    qed
    have "l \<in> set (run_rounds es ?q)"
      by (rule Cons.IH) (use keeps Cons.prems RoundPut in simp_all)
    then show ?thesis using RoundPut by simp
  qed
qed simp

end
