(* ===== verification/Dead_Letter_Queue.thy ===== *)
theory Dead_Letter_Queue
  imports Message
begin

text \<open>
  The dead-letter queue, \<^verbatim>\<open>include/queue/dead_letter_queue.hpp\<close> and
  \<^verbatim>\<open>src/queue/dead_letter_queue.cpp\<close>: a FIFO of failed messages, its one field
  \<^verbatim>\<open>entries_\<close> a list with the oldest entry first.
\<close>

type_synonym DeadLetterQueue = "DLQEntry list"

definition dlq_push :: "time \<Rightarrow> Message \<Rightarrow> DLQReason \<Rightarrow> string \<Rightarrow> DeadLetterQueue \<Rightarrow> DeadLetterQueue" where
  "dlq_push now msg reason details entries =
     entries @ [\<lparr>d_message = msg, d_reason = reason, d_time = now, d_details = details\<rparr>]"

fun dlq_pop :: "DeadLetterQueue \<Rightarrow> DLQEntry option \<times> DeadLetterQueue" where
  "dlq_pop [] = (None, [])"
| "dlq_pop (e # entries) = (Some e, entries)"

text \<open>The copy loop of \<^verbatim>\<open>snapshot\<close>: entries \<open>i, i + 1, ..., end - 1\<close>.\<close>

function dlq_copy :: "nat \<Rightarrow> nat \<Rightarrow> DeadLetterQueue \<Rightarrow> DLQEntry list \<Rightarrow> DLQEntry list" where
  "dlq_copy i stop entries out =
     (if i < stop then dlq_copy (Suc i) stop entries (out @ [entries ! i]) else out)"
  by pat_completeness auto
termination
  by (relation "measure (\<lambda>(i, stop, entries, out). stop - i)") auto

declare dlq_copy.simps [simp del]

definition dlq_snapshot :: "nat \<Rightarrow> nat \<Rightarrow> DeadLetterQueue \<Rightarrow> DLQEntry list" where
  "dlq_snapshot offset limit entries =
     (if length entries \<le> offset \<or> limit = 0 then []
      else let count = min limit (length entries - offset) in
        dlq_copy offset (offset + count) entries [])"

definition dlq_size :: "DeadLetterQueue \<Rightarrow> nat" where
  "dlq_size entries = length entries"

definition dlq_empty :: "DeadLetterQueue \<Rightarrow> bool" where
  "dlq_empty entries = (entries = [])"

section \<open>Pages\<close>

lemma take_step:
  "i < k \<Longrightarrow> k \<le> length xs \<Longrightarrow> take (k - i) (drop i xs) = xs ! i # take (k - Suc i) (drop (Suc i) xs)"
proof -
  assume i: "i < k" and k: "k \<le> length xs"
  then have "drop i xs = xs ! i # drop (Suc i) xs" by (simp add: Cons_nth_drop_Suc)
  moreover from i have "k - i = Suc (k - Suc i)" by simp
  ultimately show ?thesis by (simp only: take_Suc_Cons)
qed

lemma dlq_copy_take:
  "stop \<le> length entries \<Longrightarrow> i \<le> stop \<Longrightarrow>
   dlq_copy i stop entries out = out @ take (stop - i) (drop i entries)"
proof (induction i stop entries out rule: dlq_copy.induct)
  case (1 i stop entries out)
  show ?case
  proof (cases "i < stop")
    case True
    with 1 have "dlq_copy (Suc i) stop entries (out @ [entries ! i]) =
        (out @ [entries ! i]) @ take (stop - Suc i) (drop (Suc i) entries)" by simp
    with True "1.prems" show ?thesis
      by (subst dlq_copy.simps) (simp add: take_step)
  next
    case False
    with "1.prems" show ?thesis by (subst dlq_copy.simps) simp
  qed
qed

lemma dlq_snapshot_page: "dlq_snapshot offset limit entries = take limit (drop offset entries)"
proof (cases "length entries \<le> offset \<or> limit = 0")
  case True
  then show ?thesis by (auto simp: dlq_snapshot_def)
next
  case False
  define count where "count = min limit (length entries - offset)"
  from False have "dlq_snapshot offset limit entries = dlq_copy offset (offset + count) entries []"
    by (simp add: dlq_snapshot_def count_def Let_def)
  also have "\<dots> = take count (drop offset entries)"
    using False by (subst dlq_copy_take) (auto simp: count_def)
  also have "\<dots> = take limit (drop offset entries)"
    by (auto simp: count_def min_def)
  finally show ?thesis .
qed

end
