(* ===== verification/Queue_Properties.thy ===== *)
theory Queue_Properties
  imports Queue_Fifo Dead_Letter_Queue "HOL-Library.Sublist"
begin

text \<open>
  What the multi-level queue and the dead-letter queue promise the broker, stated over the
  histories of the queue: any sequence of calls, with any clock.
\<close>

section \<open>An example queue\<close>

definition ex_aging :: AgingConfig where
  "ex_aging = \<lparr>ag_threshold = 5, ag_interval = 1, ag_pause_when_behind = None\<rparr>"

definition ex_msg :: "string \<Rightarrow> nat \<Rightarrow> millis \<Rightarrow> Message" where
  "ex_msg i p ttl = default_message\<lparr>m_id := i, m_priority := p, m_original_priority := p, m_ttl := ttl\<rparr>"

definition ex_cost :: CostFn where
  "ex_cost m = Some (Finite 3)"

definition ex_empty :: "QueueSelection \<Rightarrow> nat list option \<Rightarrow> MultiLevelQueue" where
  "ex_empty sel share = mlq_init 3 (Some ex_aging) sel share"

definition ex_put :: "time \<Rightarrow> Message \<Rightarrow> MultiLevelQueue \<Rightarrow> MultiLevelQueue" where
  "ex_put now m q = (case enqueue ex_cost now m q of Inl _ \<Rightarrow> q | Inr q' \<Rightarrow> q')"

text \<open>Two messages on level 1, the second with a TTL of one millisecond, and one on level 2.\<close>

definition ex_queue :: "QueueSelection \<Rightarrow> nat list option \<Rightarrow> MultiLevelQueue" where
  "ex_queue sel share =
     ex_put 2 (ex_msg ''c'' 2 0) (ex_put 1 (ex_msg ''b'' 1 1) (ex_put 0 (ex_msg ''a'' 1 0) (ex_empty sel share)))"

lemma ex_put_run:
  assumes "queue_run T q" and "m_priority m = m_original_priority m" and "T \<le> now"
  shows "queue_run now (ex_put now m q)"
  using assms run_enqueue [of T q m now ex_cost now] run_wait [of T q now]
  by (cases "enqueue ex_cost now m q") (simp_all add: ex_put_def)

lemma ex_queue_run:
  assumes "sel = WeightedTime \<longleftrightarrow> share \<noteq> None" and "share = None \<or> share = Some [8, 4, 2]"
  shows "queue_run 2 (ex_queue sel share)"
proof -
  have "make_MultiLevelQueue 3 (Some ex_aging) sel (map_option (\<lambda>w. (w, True)) share) = Inr (ex_empty sel share)"
    using assms by (auto simp: make_MultiLevelQueue_def ex_empty_def ex_aging_def)
  then have "queue_run 0 (ex_empty sel share)" by (rule run_new)
  then have "queue_run 0 (ex_put 0 (ex_msg ''a'' 1 0) (ex_empty sel share))"
    by (rule ex_put_run) (simp_all add: ex_msg_def)
  then have "queue_run 1 (ex_put 1 (ex_msg ''b'' 1 1) (ex_put 0 (ex_msg ''a'' 1 0) (ex_empty sel share)))"
    by (rule ex_put_run) (simp_all add: ex_msg_def)
  then show ?thesis unfolding ex_queue_def by (rule ex_put_run) (simp_all add: ex_msg_def)
qed

lemma ex_put_frame:
  assumes "m_priority m < mq_num_levels q" and "mlq_inv q" and "m_priority m = m_original_priority m"
  shows "mq_num_levels (ex_put now m q) = mq_num_levels q" "mq_selection (ex_put now m q) = mq_selection q"
    "mq_share (ex_put now m q) = mq_share q" "mq_aging_cfg (ex_put now m q) = mq_aging_cfg q"
    "mq_view (ex_put now m q) = level_push False (m\<lparr>m_enqueue_time := now\<rparr>) (mq_view q)"
    "mlq_inv (ex_put now m q)"
proof -
  obtain q' where q': "place_message ex_cost now m False q = Inr q'" "mlq_inv q'"
    and v: "mq_view q' = level_push False (m\<lparr>m_enqueue_time := now\<rparr>) (mq_view q)"
    using place_message_view [OF assms(2,1), of ex_cost now False] assms(3) by auto
  then have "ex_put now m q = q'" by (simp add: ex_put_def enqueue_def)
  then show "mq_num_levels (ex_put now m q) = mq_num_levels q" "mq_selection (ex_put now m q) = mq_selection q"
    "mq_share (ex_put now m q) = mq_share q" "mq_aging_cfg (ex_put now m q) = mq_aging_cfg q"
    "mq_view (ex_put now m q) = level_push False (m\<lparr>m_enqueue_time := now\<rparr>) (mq_view q)" "mlq_inv (ex_put now m q)"
    using v place_message_Inr [OF q'(1)] q'(2) by (simp_all add: same_structure_def)
qed

lemma ex_queue_view:
  assumes "sel = WeightedTime \<longleftrightarrow> share \<noteq> None" and "share = None \<or> share = Some [8, 4, 2]"
  shows "mq_num_levels (ex_queue sel share) = 3" "mq_selection (ex_queue sel share) = sel"
    "mq_share (ex_queue sel share) = share" "mq_aging_cfg (ex_queue sel share) = Some ex_aging"
    "mq_view (ex_queue sel share) =
      [[], [ex_msg ''a'' 1 0, (ex_msg ''b'' 1 1)\<lparr>m_enqueue_time := 1\<rparr>], [(ex_msg ''c'' 2 0)\<lparr>m_enqueue_time := 2\<rparr>]]"
proof -
  have e: "make_MultiLevelQueue 3 (Some ex_aging) sel (map_option (\<lambda>w. (w, True)) share) = Inr (ex_empty sel share)"
    using assms by (auto simp: make_MultiLevelQueue_def ex_empty_def ex_aging_def)
  have new: "mlq_inv (ex_empty sel share)" using e by (rule make_MultiLevelQueue_inv)
  have fields: "mq_num_levels (ex_empty sel share) = 3" "mq_selection (ex_empty sel share) = sel"
    "mq_share (ex_empty sel share) = share" "mq_aging_cfg (ex_empty sel share) = Some ex_aging"
    "mq_view (ex_empty sel share) = [[], [], []]"
    by (simp_all add: ex_empty_def mlq_init_def mq_view_def numeral_3_eq_3)
  have m: "m_priority (ex_msg i p t) = p" "m_original_priority (ex_msg i p t) = p" "m_enqueue_time (ex_msg i p t) = 0" for i p t
    by (simp_all add: ex_msg_def default_message_def)
  show "mq_num_levels (ex_queue sel share) = 3" "mq_selection (ex_queue sel share) = sel"
    "mq_share (ex_queue sel share) = share" "mq_aging_cfg (ex_queue sel share) = Some ex_aging"
    unfolding ex_queue_def by (simp_all add: ex_put_frame new fields m)
  have "(ex_msg i p t)\<lparr>m_enqueue_time := 0\<rparr> = ex_msg i p t" for i p t by (simp add: ex_msg_def default_message_def)
  then show "mq_view (ex_queue sel share) =
      [[], [ex_msg ''a'' 1 0, (ex_msg ''b'' 1 1)\<lparr>m_enqueue_time := 1\<rparr>], [(ex_msg ''c'' 2 0)\<lparr>m_enqueue_time := 2\<rparr>]]"
    unfolding ex_queue_def by (simp add: ex_put_frame new fields m level_push_def numeral_2_eq_2)
qed

lemma ex_put_clock:
  assumes "mq_vclock q = replicate n 0 \<and> mq_vfloor q = 0"
  shows "mq_vclock (ex_put now m q) = replicate n 0 \<and> mq_vfloor (ex_put now m q) = 0"
proof (cases "enqueue ex_cost now m q")
  case (Inl e)
  then show ?thesis using assms by (simp add: ex_put_def)
next
  case (Inr q')
  have "(replicate n (0::real))[k := max (replicate n 0 ! k) 0] = replicate n 0" for k
    by (cases "k < n") (simp_all add: list_update_same_conv list_update_beyond)
  then show ?thesis
    using assms by (simp add: ex_put_def Inr place_message_clocks [OF Inr] activate_locked_def)
qed

lemma ex_weighted_pull:
  "\<exists>q'. dequeue_locked ex_cost (ex_queue WeightedTime (Some [8, 4, 2])) = (Some (ex_msg ''a'' 1 0), q') \<and>
     mq_view q' = [[], [(ex_msg ''b'' 1 1)\<lparr>m_enqueue_time := 1\<rparr>], [(ex_msg ''c'' 2 0)\<lparr>m_enqueue_time := 2\<rparr>]]"
proof -
  let ?q = "ex_queue WeightedTime (Some [8, 4, 2])"
  have inv: "mlq_inv ?q" by (rule queue_run_mlq_inv [OF ex_queue_run]) auto
  have "mq_vclock ?q = replicate 3 0" unfolding ex_queue_def
    by (intro ex_put_clock [THEN conjunct1] ex_put_clock) (simp add: ex_empty_def mlq_init_def)
  then have clock: "mq_vclock ?q = [0, 0, 0]" by (simp add: numeral_3_eq_3)
  have len: "length (mq_queues ?q) = 3" using inv_length [OF inv] by (simp add: ex_queue_view)
  have "mq_queues ?q ! 0 = []" "mq_queues ?q ! 1 \<noteq> []"
    using mq_view_empty [of 0 ?q] mq_view_empty [of 1 ?q] len by (auto simp: ex_queue_view simp del: length_greater_0_conv)
  then have "best_level 0 None (mq_queues ?q) [0, 0, 0] = Some 1"
    using best_level_spec [of "mq_queues ?q" "[0, 0, 0]"] len
    by (cases "best_level 0 None (mq_queues ?q) [0, 0, 0]") (auto simp: running_best_def numeral_3_eq_3 less_Suc_eq)
  then have "selected_level ?q = Some 1" using clock by (simp add: selected_level_def ex_queue_view)
  from mq.pull_some [OF inv this, of ex_cost] show ?thesis by (auto simp: ex_queue_view level_pop_def)
qed

section \<open>Histories\<close>

text \<open>
  C10. Whatever sequence of calls a queue has seen, its linked structure is consistent: every
  node is on the level its message names, node addresses are distinct, the expiry index
  is sorted and holds exactly the deadlines of the messages with a TTL, the size and the
  per-level promotion counters are exact; and the cached aging deadline of every level is
  at most the deadline of each live message on it.
\<close>

theorem queue_history_invariant: "queue_run T q \<Longrightarrow> mlq_inv q \<and> mlq_cached T q"
  by (blast intro: queue_run_mlq_inv queue_run_cached)

theorem queue_history_invariant_witness:
  "queue_run 2 (ex_queue StrictPriority None) \<and> mlq_inv (ex_queue StrictPriority None) \<and> mlq_cached 2 (ex_queue StrictPriority None)"
  using queue_history_invariant [OF ex_queue_run, of StrictPriority None] ex_queue_run [of StrictPriority None] by simp

section \<open>Expiry\<close>

text \<open>
  C11. The bounded sweep always returns (no index entry dangles), removes at most \<open>limit\<close>
  messages, all of them expired, earliest deadline first and none with a later deadline
  than one it leaves; when it removes fewer than \<open>limit\<close>, no expired message stays. The
  messages it keeps stay in order.
\<close>

theorem bounded_sweep_contract:
  assumes "queue_run T q"
  shows "\<exists>ms q'. sweep_expired_batch limit now q = Some (ms, q') \<and> length ms \<le> limit \<and>
    mset (concat (mq_view q)) = mset ms + mset (concat (mq_view q')) \<and>
    (\<forall>m \<in> set ms. is_expired now m) \<and> sorted (map expiry_time ms) \<and>
    (\<forall>m \<in> set ms. \<forall>m' \<in> set (concat (mq_view q')). 0 < m_ttl m' \<longrightarrow> expiry_time m \<le> expiry_time m') \<and>
    (length ms < limit \<longrightarrow> (\<forall>m \<in> set (concat (mq_view q')). \<not> is_expired now m)) \<and>
    (\<forall>l < mq_num_levels q. subseq (mq_view q' ! l) (mq_view q ! l))"
proof -
  have view: "concat (mq_view q) = map n_message (all_nodes q)" for q by (simp add: mq_view_def map_concat)
  have inv: "mlq_inv q" using assms by (rule queue_run_mlq_inv)
  show ?thesis
  proof (rule sweep_expired_batch_spec [OF inv, of limit now])
    fix ns q' assume run: "sweep_expired_batch limit now q = Some (map n_message ns, q')" and inv': "mlq_inv q'"
      and nodes: "mset (all_nodes q) = mset ns + mset (all_nodes q')" and len: "length ns \<le> limit"
      and ex: "\<forall>n \<in> set ns. is_expired now (n_message n)" and so: "sorted (map (\<lambda>n. expiry_time (n_message n)) ns)"
      and order: "\<forall>n \<in> set ns. \<forall>m \<in> set (all_nodes q'). has_ttl m \<longrightarrow> expiry_time (n_message n) \<le> expiry_time (n_message m)"
      and complete: "length ns < limit \<Longrightarrow> \<forall>m \<in> set (all_nodes q'). \<not> is_expired now (n_message m)"
      and keep: "\<forall>l < mq_num_levels q. mq_queues q' ! l = filter (\<lambda>n. n_addr n \<notin> n_addr ` set ns) (mq_queues q ! l)"
      and levels: "mq_num_levels q' = mq_num_levels q"
    have "mset (concat (mq_view q)) = mset (map n_message ns) + mset (concat (mq_view q'))"
      unfolding view mset_map by (simp only: nodes image_mset_union)
    moreover have "subseq (mq_view q' ! l) (mq_view q ! l)" if "l < mq_num_levels q" for l
      using keep that levels inv_length [OF inv] inv_length [OF inv'] by (simp add: mq_view_nth subseq_map)
    moreover have "\<forall>m \<in> set (map n_message ns). \<forall>m' \<in> set (concat (mq_view q')). 0 < m_ttl m' \<longrightarrow> expiry_time m \<le> expiry_time m'"
      unfolding view set_map using order by (auto simp: has_ttl_def simp del: set_concat)
    moreover have "length ns < limit \<longrightarrow> (\<forall>m \<in> set (concat (mq_view q')). \<not> is_expired now m)"
      unfolding view set_map using complete by blast
    ultimately show ?thesis
      using run len ex so by (intro exI [of _ "map n_message ns"] exI [of _ q']) (simp add: comp_def del: set_concat)
  qed
qed

theorem bounded_sweep_contract_witness:
  "\<exists>ms q'. sweep_expired_batch 5 2000000 (ex_queue StrictPriority None) = Some (ms, q') \<and> length ms \<le> 5 \<and>
    mset ms + mset (concat (mq_view q')) =
      {#ex_msg ''a'' 1 0, (ex_msg ''b'' 1 1)\<lparr>m_enqueue_time := 1\<rparr>, (ex_msg ''c'' 2 0)\<lparr>m_enqueue_time := 2\<rparr>#} \<and>
    (\<forall>m \<in> set ms. is_expired 2000000 m)"
proof -
  have run: "queue_run 2 (ex_queue StrictPriority None)" by (rule ex_queue_run) auto
  obtain ms q' where "sweep_expired_batch 5 2000000 (ex_queue StrictPriority None) = Some (ms, q')" and "length ms \<le> 5"
    and "mset (concat (mq_view (ex_queue StrictPriority None))) = mset ms + mset (concat (mq_view q'))"
    and "\<forall>m \<in> set ms. is_expired 2000000 m"
    using bounded_sweep_contract [OF run, of 5 2000000] by blast
  then show ?thesis by (intro exI [of _ ms] exI [of _ q']) (simp add: ex_queue_view)
qed

section \<open>Aging\<close>

text \<open>
  C12. Without pausing, no message starves: a pass at time \<open>now\<close> moves every live message that
  has waited its threshold on a level below the top up one level and restamps it, whatever
  the queue has been through before.
\<close>

theorem aging_promotes_overdue:
  assumes "queue_run T q" and "mq_aging_cfg q = Some a" and "\<not> pausing q" and "\<forall>i. T \<le> clk i"
    and "l < mq_num_levels q" and "0 < l" and "m \<in> set (mq_view q ! l)" and "overdue a now m"
    and "\<forall>i. \<not> is_expired (clk i) m"
  shows "m\<lparr>m_priority := l - 1, m_enqueue_time := now\<rparr> \<in> set (mq_view (snd (age_once_locked clk now q)) ! (l - 1))"
proof -
  have inv: "mlq_inv q" using assms(1) by (rule queue_run_mlq_inv)
  obtain v q' S where run: "age_once_locked clk now q = (v, q')" and res: "pass_result clk a now (mq_num_levels q - 1) S q q'"
    by (rule age_once_result [OF inv assms(2)])
  obtain n where n: "n \<in> set (mq_queues q ! l)" and m: "m = n_message n"
    using assms(5,7) by (auto simp: mq_view_nth inv_length [OF inv])
  note pl = inv_level_node [OF inv assms(5) n]
  have "announced clk a now (mq_num_levels q - 1) q"
    by (rule announced_cached [OF inv queue_run_cached [OF assms(1)] assms(2)]) (use assms(4) in blast)
  then have "n \<in> S" using res assms(3,5,6,8,9) pl m by (simp add: pass_result_def live_def del: set_concat)
  then have "aged now n \<in> set (all_nodes q')"
    using ages_by_nodes [of a now S q q'] res pl by (auto simp: pass_result_def simp del: set_concat)
  moreover have inv': "mlq_inv q'" using res by (simp add: pass_result_def ages_by_def)
  ultimately have "aged now n \<in> set (mq_queues q' ! (l - 1)) \<and> l - 1 < mq_num_levels q'"
    using inv_node_level [OF inv', of "aged now n"] pl by simp
  then have "n_message (aged now n) \<in> set (mq_view q' ! (l - 1))"
    by (auto simp: mq_view_nth inv_length [OF inv'])
  then show ?thesis using pl m run by (simp add: aged_def)
qed

theorem aging_promotes_overdue_witness:
  "(ex_msg ''a'' 1 0)\<lparr>m_priority := 0, m_enqueue_time := 6000000\<rparr>
     \<in> set (mq_view (snd (age_once_locked (\<lambda>_. 6000000) 6000000 (ex_queue StrictPriority None))) ! 0)"
proof -
  have run: "queue_run 2 (ex_queue StrictPriority None)" by (rule ex_queue_run) auto
  show ?thesis
    using aging_promotes_overdue [OF run, of ex_aging "\<lambda>_. 6000000" 1 "ex_msg ''a'' 1 0" 6000000]
    by (simp add: ex_queue_view pausing_def ex_aging_def ex_msg_def default_message_def overdue_def aging_deadline_def
        is_expired_def max_ms_def clock_max_def ms_to_ns_def ns_per_ms_def)
qed

text \<open>
  C13. An aging pass loses, duplicates and alters nothing else: the nodes after it are the nodes
  before it, except that a set of them moved up exactly one level and were restamped; each
  of those was below the top level and overdue. A pass that pauses promotes at most one
  message of each level.
\<close>

theorem aging_moves_one_level:
  assumes "queue_run T q" and "mq_aging_cfg q = Some a"
  shows "\<exists>S \<subseteq> set (all_nodes q).
     mset (all_nodes (snd (age_once_locked clk now q))) =
       image_mset (\<lambda>n. if n \<in> S then n\<lparr>n_message := (n_message n)\<lparr>m_priority := m_priority (n_message n) - 1, m_enqueue_time := now\<rparr>\<rparr>
                       else n) (mset (all_nodes q)) \<and>
     (\<forall>n \<in> S. 0 < m_priority (n_message n) \<and> overdue a now (n_message n)) \<and>
     (pausing q \<longrightarrow> (\<forall>k. card {n \<in> S. m_priority (n_message n) = k} \<le> 1))"
proof -
  have inv: "mlq_inv q" using assms(1) by (rule queue_run_mlq_inv)
  obtain v q' S where run: "age_once_locked clk now q = (v, q')" and res: "pass_result clk a now (mq_num_levels q - 1) S q q'"
    by (rule age_once_result [OF inv assms(2)])
  show ?thesis
    unfolding aged_def [symmetric] by (rule exI [of _ S]) (use res run in \<open>simp add: pass_result_def ages_by_def\<close>)
qed

theorem aging_moves_one_level_witness:
  "\<exists>S \<subseteq> set (all_nodes (ex_queue StrictPriority None)).
     size (mset (all_nodes (snd (age_once_locked (\<lambda>_. 9) 9 (ex_queue StrictPriority None))))) = 3 \<and>
     (\<forall>n \<in> S. overdue ex_aging 9 (n_message n))"
proof -
  let ?q = "ex_queue StrictPriority None"
  have run: "queue_run 2 ?q" by (rule ex_queue_run) auto
  have "length (concat (mq_view ?q)) = 3" by (simp add: ex_queue_view)
  then have three: "size (mset (all_nodes ?q)) = 3" by (simp add: mq_view_def length_concat comp_def)
  have cfg: "mq_aging_cfg ?q = Some ex_aging" by (simp add: ex_queue_view)
  obtain S f where "S \<subseteq> set (all_nodes ?q)" "\<forall>n \<in> S. overdue ex_aging 9 (n_message n)"
    and "mset (all_nodes (snd (age_once_locked (\<lambda>_. 9) 9 ?q))) = image_mset f (mset (all_nodes ?q))"
    using aging_moves_one_level [OF run cfg, of "\<lambda>_. 9" 9] by blast
  then show ?thesis using three by (intro exI [of _ S]) (simp only: size_image_mset simp_thms)
qed

section \<open>Selection\<close>

text \<open>
  C14. A strict-priority pull takes the oldest message of the highest non-empty level, leaves
  every other message in place, and returns nothing exactly when the queue is empty.
\<close>

theorem strict_priority_pull:
  assumes "queue_run T q" and "mq_selection q = StrictPriority"
  shows "case dequeue_locked cost q of
      (None, q') \<Rightarrow> concat (mq_view q) = [] \<and> q' = q
    | (Some m, q') \<Rightarrow> \<exists>l < mq_num_levels q. (\<forall>k < l. mq_view q ! k = []) \<and> mq_view q ! l = m # mq_view q' ! l \<and>
        mq_view q' = (mq_view q)[l := tl (mq_view q ! l)]"
proof -
  have inv: "mlq_inv q" using assms(1) by (rule queue_run_mlq_inv)
  note len = inv_length [OF inv]
  show ?thesis
  proof (cases "selected_level q")
    case None
    then show ?thesis using mq.pull_none [OF inv None, of cost] by simp
  next
    case (Some l)
    have "mq_share q = None" using inv assms(2) by (auto simp: mlq_inv_def mlq_shape_def)
    then have "scan_level StrictPriority (mq_cursor q) (mq_num_levels q) [0..<mq_num_levels q] (mq_queues q) = Some l"
      using Some assms(2) by (simp add: selected_level_def)
    from scan_level_first [OF this] have "\<forall>k < l. mq_queues q ! k = []" and l: "l < mq_num_levels q" by auto
    then have "\<forall>k < l. mq_view q ! k = []" by (simp add: mq_view_nth len)
    then show ?thesis using mq.pull_some [OF inv Some, of cost] l len by (auto simp: level_pop_def intro!: exI [of _ l])
  qed
qed

theorem strict_priority_pull_witness:
  "fst (dequeue_locked ex_cost (ex_queue StrictPriority None)) = Some (ex_msg ''a'' 1 0)"
proof -
  have run: "queue_run 2 (ex_queue StrictPriority None)" by (rule ex_queue_run) auto
  show ?thesis
    using strict_priority_pull [OF run, of ex_cost]
    by (auto simp: ex_queue_view numeral_3_eq_3 less_Suc_eq split: prod.splits option.splits)
qed

text \<open>
  C15. A weighted pull takes the head of the non-empty level whose virtual clock is lowest, the
  highest such level on a tie, and advances that clock by the charge over the weight.
\<close>

theorem weighted_pull:
  assumes "queue_run T q" and "mq_share q = Some weights" and "dequeue_locked cost q = (Some m, q')"
  shows "\<exists>l < mq_num_levels q. mq_view q ! l = m # mq_view q' ! l \<and> mq_view q' = (mq_view q)[l := tl (mq_view q ! l)] \<and>
    (\<forall>k < mq_num_levels q. mq_view q ! k \<noteq> [] \<longrightarrow> mq_vclock q ! l \<le> mq_vclock q ! k \<and> (k < l \<longrightarrow> mq_vclock q ! l < mq_vclock q ! k)) \<and>
    mq_vclock q' = (mq_vclock q)[l := mq_vclock q ! l + charge_locked cost m / real (weights ! l)]"
proof -
  have inv: "mlq_inv q" using assms(1) by (rule queue_run_mlq_inv)
  note len = inv_length [OF inv]
  show ?thesis
  proof (cases "selected_level q")
    case None
    then show ?thesis using mq.pull_none [OF inv None, of cost] assms(3) by simp
  next
    case (Some l)
    have best: "running_best (mq_queues q) (mq_vclock q) (mq_num_levels q) (Some l)"
      using best_level_spec [of "mq_queues q" "mq_vclock q"] Some assms(2) len by (simp add: selected_level_def)
    have head: "m = hd (mq_view q ! l)" "mq_view q' = level_pop l (mq_view q)" "mq_view q ! l \<noteq> []" "l < mq_num_levels q"
      using mq.pull_some [OF inv Some, of cost] assms(3) len by auto
    then have "m = n_message (hd (mq_queues q ! l))" using len by (simp add: mq_view_nth hd_map)
    then have "mq_vclock q' = (mq_vclock q)[l := mq_vclock q ! l + charge_locked cost m / real (weights ! l)]"
      using dequeue_weighted(2) [OF assms(2) Some, of cost] assms(3) by simp
    then show ?thesis
      using head best len by (intro exI [of _ l]) (auto simp: level_pop_def running_best_def mq_view_empty)
  qed
qed

theorem weighted_pull_witness:
  "\<exists>q'. dequeue_locked ex_cost (ex_queue WeightedTime (Some [8, 4, 2])) = (Some (ex_msg ''a'' 1 0), q') \<and>
     mq_vclock q' = (mq_vclock (ex_queue WeightedTime (Some [8, 4, 2])))[1 := mq_vclock (ex_queue WeightedTime (Some [8, 4, 2])) ! 1 + 3 / 4]"
proof -
  let ?q = "ex_queue WeightedTime (Some [8, 4, 2])"
  have run: "queue_run 2 ?q" by (rule ex_queue_run) auto
  obtain q' where pull: "dequeue_locked ex_cost ?q = (Some (ex_msg ''a'' 1 0), q')" using ex_weighted_pull by blast
  obtain l where l: "l < 3" and head: "mq_view ?q ! l = ex_msg ''a'' 1 0 # mq_view q' ! l"
    and clock: "mq_vclock q' = (mq_vclock ?q)[l := mq_vclock ?q ! l + charge_locked ex_cost (ex_msg ''a'' 1 0) / real ([8, 4, 2] ! l)]"
    using weighted_pull [OF run _ pull, of "[8, 4, 2]"] by (auto simp: ex_queue_view)
  have "l = 0 \<or> l = 1 \<or> l = 2" using l by linarith
  then have "l = 1" using head by (auto simp: ex_queue_view ex_msg_def default_message_def)
  then show ?thesis using pull clock by (simp add: charge_locked_def ex_cost_def kMinCostMs_def)
qed

text \<open>
  C16. Round robin starves no level: a level that has a message is served within as many pulls
  as there are levels, whatever arrives between them.
\<close>

theorem round_robin_fair:
  assumes "queue_run T q" and "mq_selection q = RoundRobin" and "l < mq_num_levels q" and "mq_view q ! l \<noteq> []"
    and "\<forall>e \<in> set es. well_routed e" and "mq_num_levels q \<le> length (filter is_pull es)"
  shows "l \<in> set (run_rounds es q)"
proof -
  have inv: "mlq_inv q" using assms(1) by (rule queue_run_mlq_inv)
  have "cyclic_distance (mq_num_levels q) (mq_cursor q) l < mq_num_levels q"
    using assms(3) by (simp add: cyclic_distance_def)
  then show ?thesis
    using assms inv_length [OF inv] by (intro round_robin_serves [OF inv]) (auto simp: mq_view_empty)
qed

theorem round_robin_fair_witness:
  "2 \<in> set (run_rounds [RoundPull ex_cost, RoundPut ex_cost 7 (ex_msg ''d'' 0 0), RoundPull ex_cost, RoundPull ex_cost]
     (ex_queue RoundRobin None))"
proof -
  have run: "queue_run 2 (ex_queue RoundRobin None)" by (rule ex_queue_run) auto
  show ?thesis
    by (rule round_robin_fair [OF run]) (simp_all add: ex_queue_view ex_msg_def)
qed


lemma ex_steps: "(share_step C)\<^sup>*\<^sup>* (ex_empty sel share) (ex_queue sel share)"
proof -
  have step: "(share_step C)\<^sup>*\<^sup>* q (ex_put now (ex_msg i p t) q)" for q now i p t
    by (cases "enqueue ex_cost now (ex_msg i p t) q")
      (auto simp: ex_put_def ex_msg_def intro!: r_into_rtranclp share_enqueue)
  show ?thesis unfolding ex_queue_def by (meson step rtranclp_trans)
qed




section \<open>The dead-letter queue\<close>

text \<open>
  C19. Reading the dead-letter queue in consecutive pages of any size shows its entries in the
  order they were pushed, without a gap or a repetition, and does not change it.
\<close>

theorem dlq_pages:
  "concat (map (\<lambda>i. dlq_snapshot (i * page) page entries) [0..<k]) = take (k * page) entries"
proof (induction k)
  case (Suc k)
  have "take (Suc k * page) entries = take (k * page) entries @ take page (drop (k * page) entries)"
    by (metis mult_Suc add.commute take_add)
  then show ?case using Suc.IH by (simp add: dlq_snapshot_page)
qed simp

end
