(* ===== verification/Text_Format.thy ===== *)
theory Text_Format
  imports Prelude
begin

text \<open>
  Recognisers over header text from \<^verbatim>\<open>src/ml/features.cpp\<close>: the UTF-8 validator and the decimal
  grammar. The validator accepts exactly the concatenations of encoded Unicode scalar
  values; the grammar accepts exactly the JSON numbers.
\<close>

abbreviation byte_of :: "char \<Rightarrow> nat" where
  "byte_of c \<equiv> of_char c"

section \<open>UTF-8\<close>

text \<open>The three kinds of leading byte: continuation count, initial code and smallest legal code.\<close>

definition utf8_lead :: "nat \<Rightarrow> (nat \<times> nat \<times> nat) option" where
  "utf8_lead first =
     (if 0xc2 \<le> first \<and> first \<le> 0xdf then Some (1, first mod 32, 0x80)
      else if 0xe0 \<le> first \<and> first \<le> 0xef then Some (2, first mod 16, 0x800)
      else if 0xf0 \<le> first \<and> first \<le> 0xf4 then Some (3, first mod 8, 0x10000)
      else None)"

text \<open>The loop over the continuation bytes, with the code read so far.\<close>

fun utf8_continue :: "nat \<Rightarrow> nat \<Rightarrow> string \<Rightarrow> (nat \<times> string) option" where
  "utf8_continue 0 code cs = Some (code, cs)"
| "utf8_continue (Suc k) code [] = None"
| "utf8_continue (Suc k) code (c # cs) =
     (let next = byte_of c in
        if next div 64 \<noteq> 2 then None else utf8_continue k (code * 64 + next mod 64) cs)"

lemma utf8_continue_length: "utf8_continue k code cs = Some (code', rest) \<Longrightarrow> length rest \<le> length cs"
  by (induction k code cs rule: utf8_continue.induct) (fastforce simp: Let_def split: if_splits)+

function valid_utf8 :: "string \<Rightarrow> bool" where
  "valid_utf8 [] = True"
| "valid_utf8 (c # cs) =
     (let first = byte_of c in
        if first < 0x80 then valid_utf8 cs
        else case utf8_lead first of
            None \<Rightarrow> False
          | Some (k, code, minimum) \<Rightarrow>
              if length cs < k then False
              else case utf8_continue k code cs of
                  None \<Rightarrow> False
                | Some (code', rest) \<Rightarrow>
                    if code' < minimum \<or> 0x10ffff < code' \<or> 0xd800 \<le> code' \<and> code' \<le> 0xdfff then False
                    else valid_utf8 rest)"
  by pat_completeness auto
termination
  by (relation "measure length") (auto dest: utf8_continue_length)

subsection \<open>What it accepts\<close>

definition scalar_value :: "nat \<Rightarrow> bool" where
  "scalar_value cp \<longleftrightarrow> cp \<le> 0x10ffff \<and> \<not> (0xd800 \<le> cp \<and> cp \<le> 0xdfff)"

definition utf8_bytes :: "nat \<Rightarrow> nat list" where
  "utf8_bytes cp =
     (if cp < 0x80 then [cp]
      else if cp < 0x800 then [0xc0 + cp div 64, 0x80 + cp mod 64]
      else if cp < 0x10000 then [0xe0 + cp div 4096, 0x80 + cp div 64 mod 64, 0x80 + cp mod 64]
      else [0xf0 + cp div 262144, 0x80 + cp div 4096 mod 64, 0x80 + cp div 64 mod 64, 0x80 + cp mod 64])"

definition utf8_encode :: "nat \<Rightarrow> string" where
  "utf8_encode cp = map char_of (utf8_bytes cp)"

lemma base64: "b < 64 \<Longrightarrow> (a * 64 + b) div 64 = (a::nat)" "b < 64 \<Longrightarrow> (a * 64 + b) mod 64 = (b::nat)"
  by simp_all

lemma cont_byte: "b < 64 \<Longrightarrow> (128 + b) div 64 = 2 \<and> (128 + b) mod 64 = (b::nat)"
  using base64 [of b 2] by (simp add: add.commute)

lemma cont_byte_back: "x div 64 = 2 \<Longrightarrow> x = 128 + x mod (64::nat)"
  using div_mult_mod_eq [of x 64] by simp

lemma base64_bound: "k * 64 \<le> x * 64 + r \<Longrightarrow> r < 64 \<Longrightarrow> k \<le> (x::nat)"
  by linarith

lemma digits4: "(x::nat) div 262144 = x div 64 div 64 div 64" "x div 4096 = x div 64 div 64"
  by (simp_all flip: div_mult2_eq)

lemma base64_of: "x = x div 64 * 64 + x mod (64::nat)"
  by simp

text \<open>The four shapes of an encoded scalar value, by its base-64 digits.\<close>

lemma utf8_bytes_digits:
  shows "cp < 0x80 \<Longrightarrow> utf8_bytes cp = [cp]"
    and "b < 64 \<Longrightarrow> 2 \<le> a \<Longrightarrow> a < 32 \<Longrightarrow> utf8_bytes (a * 64 + b) = [192 + a, 128 + b]"
    and "b < 64 \<Longrightarrow> c < 64 \<Longrightarrow> a < 16 \<Longrightarrow> 32 \<le> a * 64 + b \<Longrightarrow> utf8_bytes ((a * 64 + b) * 64 + c) = [224 + a, 128 + b, 128 + c]"
    and "b < 64 \<Longrightarrow> c < 64 \<Longrightarrow> d < 64 \<Longrightarrow> 1024 \<le> (a * 64 + b) * 64 + c \<Longrightarrow>
      utf8_bytes (((a * 64 + b) * 64 + c) * 64 + d) = [240 + a, 128 + b, 128 + c, 128 + d]"
proof -
  show "cp < 0x80 \<Longrightarrow> utf8_bytes cp = [cp]" by (simp add: utf8_bytes_def)
  show "b < 64 \<Longrightarrow> 2 \<le> a \<Longrightarrow> a < 32 \<Longrightarrow> utf8_bytes (a * 64 + b) = [192 + a, 128 + b]"
    by (simp add: utf8_bytes_def base64)
  have three: "x div 64 div 64 = a \<Longrightarrow> x div 64 mod 64 = b \<Longrightarrow> x mod 64 = c \<Longrightarrow> 0x800 \<le> x \<Longrightarrow> x < 0x10000 \<Longrightarrow>
      utf8_bytes x = [224 + a, 128 + b, 128 + c]" for x by (simp add: utf8_bytes_def digits4)
  show "b < 64 \<Longrightarrow> c < 64 \<Longrightarrow> a < 16 \<Longrightarrow> 32 \<le> a * 64 + b \<Longrightarrow> utf8_bytes ((a * 64 + b) * 64 + c) = [224 + a, 128 + b, 128 + c]"
    by (rule three) (simp_all only: base64, simp_all)
  have four: "x div 64 div 64 div 64 = a \<Longrightarrow> x div 64 div 64 mod 64 = b \<Longrightarrow> x div 64 mod 64 = c \<Longrightarrow> x mod 64 = d \<Longrightarrow> 0x10000 \<le> x \<Longrightarrow>
      utf8_bytes x = [240 + a, 128 + b, 128 + c, 128 + d]" for x by (simp add: utf8_bytes_def digits4)
  show "b < 64 \<Longrightarrow> c < 64 \<Longrightarrow> d < 64 \<Longrightarrow> 1024 \<le> (a * 64 + b) * 64 + c \<Longrightarrow>
      utf8_bytes (((a * 64 + b) * 64 + c) * 64 + d) = [240 + a, 128 + b, 128 + c, 128 + d]"
    by (rule four) (simp_all only: base64, simp_all)
qed

lemma scalar_digits:
  assumes "scalar_value cp"
  obtains (one) "cp < 0x80"
    | (two) a b where "cp = a * 64 + b" "b < 64" "2 \<le> a" "a < 32"
    | (three) a b c where "cp = (a * 64 + b) * 64 + c" "b < 64" "c < 64" "a < 16" "32 \<le> a * 64 + b"
    | (four) a b c d where "cp = ((a * 64 + b) * 64 + c) * 64 + d" "b < 64" "c < 64" "d < 64" "a < 5" "1024 \<le> (a * 64 + b) * 64 + c"
proof -
  define d where "d = cp mod 64"
  define c where "c = cp div 64 mod 64"
  define b where "b = cp div 64 div 64 mod 64"
  define a where "a = cp div 64 div 64 div 64"
  have cp: "cp = ((a * 64 + b) * 64 + c) * 64 + d" by (simp add: a_def b_def c_def d_def)
  then have sum: "cp = 262144 * a + 4096 * b + 64 * c + d" by simp
  have lt: "b < 64" "c < 64" "d < 64" by (simp_all add: b_def c_def d_def)
  have top: "cp \<le> 0x10ffff" using assms by (simp add: scalar_value_def)
  consider "cp < 0x80" | "0x80 \<le> cp" "cp < 0x800" | "0x800 \<le> cp" "cp < 0x10000" | "0x10000 \<le> cp" by linarith
  then show thesis
  proof cases
    case 1
    then show thesis by (rule one)
  next
    case 2
    then have "a = 0 \<and> b = 0" using sum lt by linarith
    then show thesis using cp lt 2 by (intro two [of c d]) simp_all
  next
    case 3
    then have "a = 0" using sum lt by linarith
    then show thesis using cp lt 3 by (intro three [of b c d]) simp_all
  next
    case 4
    then show thesis using cp lt top by (intro four [of a b c d]) simp_all
  qed
qed

lemma valid_utf8_encode:
  assumes "scalar_value cp"
  shows "valid_utf8 (utf8_encode cp @ s) = valid_utf8 s"
  using assms
proof (cases rule: scalar_digits)
  case one
  then show ?thesis by (simp add: utf8_encode_def utf8_bytes_digits)
next
  case (two a b)
  have "utf8_lead (192 + a) = Some (1, a, 0x80)" using two by (simp add: utf8_lead_def mod_if)
  then show ?thesis
    using two cont_byte [of b] assms by (simp add: utf8_encode_def utf8_bytes_digits Let_def scalar_value_def)
next
  case (three a b c)
  have "utf8_lead (224 + a) = Some (2, a, 0x800)" using three by (simp add: utf8_lead_def mod_if)
  moreover have "utf8_encode cp = [char_of (224 + a), char_of (128 + b), char_of (128 + c)]"
    unfolding utf8_encode_def three(1) utf8_bytes_digits(3) [OF three(2-5)] by simp
  ultimately show ?thesis
    using three cont_byte [of b] cont_byte [of c] assms
    by (auto simp: Let_def scalar_value_def numeral_2_eq_2)
next
  case (four a b c d)
  have "utf8_lead (240 + a) = Some (3, a, 0x10000)" using four by (simp add: utf8_lead_def mod_if)
  moreover have "utf8_encode cp = [char_of (240 + a), char_of (128 + b), char_of (128 + c), char_of (128 + d)]"
    unfolding utf8_encode_def four(1) utf8_bytes_digits(4) [OF four(2,3,4,6)] by simp
  ultimately show ?thesis
    using four cont_byte [of b] cont_byte [of c] cont_byte [of d] assms
    by (auto simp: Let_def scalar_value_def numeral_3_eq_3)
qed

lemma utf8_lead_cases:
  assumes "utf8_lead first = Some (k, code, minimum)"
  obtains "k = 1" "first = 192 + code" "2 \<le> code" "code < 32" "minimum = 0x80"
    | "k = 2" "first = 224 + code" "code < 16" "minimum = 0x800"
    | "k = 3" "first = 240 + code" "code < 5" "minimum = 0x10000"
proof -
  consider "0xc2 \<le> first" "first \<le> 0xdf" | "0xe0 \<le> first" "first \<le> 0xef" | "0xf0 \<le> first" "first \<le> 0xf4"
    using assms by (auto simp: utf8_lead_def split: if_splits)
  then show thesis
  proof cases
    case 1
    then have "first = 192 + (first - 192)" by simp
    then obtain r where "first = 192 + r" by blast
    then show thesis using 1 assms by (intro that(1)) (auto simp: utf8_lead_def mod_if)
  next
    case 2
    then obtain r where "first = 224 + r" by (auto simp: le_iff_add)
    then show thesis using 2 assms by (intro that(2)) (auto simp: utf8_lead_def mod_if)
  next
    case 3
    then obtain r where "first = 240 + r" by (auto simp: le_iff_add)
    then show thesis using 3 assms by (intro that(3)) (auto simp: utf8_lead_def mod_if)
  qed
qed

text \<open>One step of the validator reads one encoded scalar value.\<close>

lemma valid_utf8_step:
  assumes "valid_utf8 (c # cs)"
  obtains cp rest where "scalar_value cp" and "c # cs = utf8_encode cp @ rest" and "valid_utf8 rest"
proof (cases "byte_of c < 0x80")
  case True
  then have "utf8_encode (byte_of c) = [c]" by (simp add: utf8_encode_def utf8_bytes_digits)
  then show thesis using True assms by (intro that [of "byte_of c" cs]) (simp_all add: scalar_value_def Let_def)
next
  case False
  obtain k code minimum code' rest where lead: "utf8_lead (byte_of c) = Some (k, code, minimum)"
    and cont: "utf8_continue k code cs = Some (code', rest)" and ok: "minimum \<le> code'" "scalar_value code'"
    and rest: "valid_utf8 rest"
    using assms False by (auto simp: Let_def scalar_value_def not_less split: option.splits prod.splits if_splits)
  have "c # cs = utf8_encode code' @ rest"
    using lead
  proof (cases rule: utf8_lead_cases)
    case 1
    obtain d where d: "cs = d # rest" "byte_of d div 64 = 2" "code' = code * 64 + byte_of d mod 64"
      using cont 1 by (cases cs) (auto simp: Let_def split: if_splits)
    have "utf8_encode code' = [char_of (byte_of c), char_of (byte_of d)]"
      unfolding utf8_encode_def d(3) using 1 cont_byte_back [OF d(2)] by (subst utf8_bytes_digits(2)) simp_all
    then show ?thesis using d by simp
  next
    case 2
    obtain d e where d: "cs = d # e # rest" "byte_of d div 64 = 2" "byte_of e div 64 = 2"
      and code': "code' = (code * 64 + byte_of d mod 64) * 64 + byte_of e mod 64"
      using cont 2 by (cases cs; cases "tl cs") (auto simp: Let_def numeral_2_eq_2 split: if_splits)
    have "32 \<le> code * 64 + byte_of d mod 64"
      by (rule base64_bound [of _ _ "byte_of e mod 64"]) (use ok(1) 2 code' in simp_all)
    then have "utf8_encode code' = [char_of (byte_of c), char_of (byte_of d), char_of (byte_of e)]"
      unfolding utf8_encode_def code' using 2 cont_byte_back [OF d(2)] cont_byte_back [OF d(3)]
      by (subst utf8_bytes_digits(3)) simp_all
    then show ?thesis using d by simp
  next
    case 3
    obtain d e f where d: "cs = d # e # f # rest" "byte_of d div 64 = 2" "byte_of e div 64 = 2" "byte_of f div 64 = 2"
      and code': "code' = ((code * 64 + byte_of d mod 64) * 64 + byte_of e mod 64) * 64 + byte_of f mod 64"
      using cont 3 by (cases cs; cases "tl cs"; cases "tl (tl cs)") (auto simp: Let_def numeral_3_eq_3 split: if_splits)
    have "1024 \<le> (code * 64 + byte_of d mod 64) * 64 + byte_of e mod 64"
      by (rule base64_bound [of _ _ "byte_of f mod 64"]) (use ok(1) 3 code' in simp_all)
    then have "utf8_encode code' = [char_of (byte_of c), char_of (byte_of d), char_of (byte_of e), char_of (byte_of f)]"
      unfolding utf8_encode_def code' using 3 cont_byte_back [OF d(2)] cont_byte_back [OF d(3)] cont_byte_back [OF d(4)]
      by (subst utf8_bytes_digits(4)) simp_all
    then show ?thesis using d by simp
  qed
  then show thesis using that ok(2) rest by blast
qed

lemma utf8_encode_nonempty [simp]: "utf8_encode cp \<noteq> []"
  by (simp add: utf8_encode_def utf8_bytes_def)

text \<open>
  C31. The hand-written validator, with its three kinds of leading byte, minimum codes and
  surrogate gap, accepts a byte string exactly when it is the concatenation of the UTF-8
  encodings of Unicode scalar values.
\<close>

theorem valid_utf8_iff: "valid_utf8 s \<longleftrightarrow> (\<exists>cps. (\<forall>cp \<in> set cps. scalar_value cp) \<and> s = concat (map utf8_encode cps))"
proof
  show "valid_utf8 s \<Longrightarrow> \<exists>cps. (\<forall>cp \<in> set cps. scalar_value cp) \<and> s = concat (map utf8_encode cps)"
  proof (induction "length s" arbitrary: s rule: less_induct)
    case less
    show ?case
    proof (cases s)
      case Nil
      then show ?thesis by (intro exI [of _ "[]"]) simp
    next
      case (Cons c cs)
      obtain cp rest where cp: "scalar_value cp" "s = utf8_encode cp @ rest" "valid_utf8 rest"
        using less.prems unfolding Cons by (rule valid_utf8_step)
      then have "length rest < length s" by (simp add: length_greater_0_conv)
      then obtain cps where "\<forall>cp \<in> set cps. scalar_value cp" "rest = concat (map utf8_encode cps)"
        using less.hyps cp(3) by blast
      then show ?thesis using cp by (intro exI [of _ "cp # cps"]) simp
    qed
  qed
next
  assume "\<exists>cps. (\<forall>cp \<in> set cps. scalar_value cp) \<and> s = concat (map utf8_encode cps)"
  then obtain cps where "\<forall>cp \<in> set cps. scalar_value cp" "s = concat (map utf8_encode cps)" by blast
  then show "valid_utf8 s" by (induction cps arbitrary: s) (simp_all add: valid_utf8_encode)
qed

theorem valid_utf8_iff_witness: "valid_utf8 (map char_of [0xE2, 0x82, 0xAC :: nat])"
  by (rule iffD2 [OF valid_utf8_iff], rule exI [of _ "[0x20ac]"])
    (simp add: scalar_value_def utf8_encode_def utf8_bytes_def)

section \<open>Decimal numbers\<close>

text \<open>The optional fraction and the optional exponent; \<open>None\<close> is the early \<^verbatim>\<open>return false\<close>.\<close>

definition skip_fraction :: "string \<Rightarrow> string option" where
  "skip_fraction t =
     (case t of
        [] \<Rightarrow> Some t
      | c # r \<Rightarrow>
          if c = CHR ''.'' then let r' = dropWhile is_digit r in if length r' = length r then None else Some r'
          else Some t)"

definition skip_exponent :: "string \<Rightarrow> string option" where
  "skip_exponent t =
     (case t of
        [] \<Rightarrow> Some t
      | c # r \<Rightarrow>
          if c = CHR ''e'' \<or> c = CHR ''E'' then
            let r1 = (case r of [] \<Rightarrow> r | s # r2 \<Rightarrow> if s = CHR ''+'' \<or> s = CHR ''-'' then r2 else r);
                r' = dropWhile is_digit r1
            in if length r' = length r1 then None else Some r'
          else Some t)"

definition decimal_grammar :: "string \<Rightarrow> bool" where
  "decimal_grammar text =
     (let t = (case text of [] \<Rightarrow> text | c # r \<Rightarrow> if c = CHR ''-'' then r else text) in
        case t of
          [] \<Rightarrow> False
        | c # r \<Rightarrow>
            if c \<noteq> CHR ''0'' \<and> (byte_of c < 49 \<or> 57 < byte_of c) then False
            else case skip_fraction (if c = CHR ''0'' then r else dropWhile is_digit t) of
                None \<Rightarrow> False
              | Some t1 \<Rightarrow> (case skip_exponent t1 of None \<Rightarrow> False | Some t2 \<Rightarrow> t2 = []))"

subsection \<open>What the grammar accepts\<close>

definition digits :: "string \<Rightarrow> bool" where
  "digits ds \<longleftrightarrow> ds \<noteq> [] \<and> list_all is_digit ds"

definition is_integer_part :: "string \<Rightarrow> bool" where
  "is_integer_part ds \<longleftrightarrow> ds = ''0'' \<or> digits ds \<and> hd ds \<noteq> CHR ''0''"

definition is_fraction_part :: "string \<Rightarrow> bool" where
  "is_fraction_part f \<longleftrightarrow> f = [] \<or> (\<exists>ds. digits ds \<and> f = CHR ''.'' # ds)"

definition is_exponent_part :: "string \<Rightarrow> bool" where
  "is_exponent_part x \<longleftrightarrow> x = [] \<or>
     (\<exists>e s ds. (e = CHR ''e'' \<or> e = CHR ''E'') \<and> (s = [] \<or> s = ''+'' \<or> s = ''-'') \<and> digits ds \<and> x = e # s @ ds)"

lemma dropWhile_prefix: "list_all is_digit ds \<Longrightarrow> (case r of [] \<Rightarrow> True | c # _ \<Rightarrow> \<not> is_digit c) \<Longrightarrow> dropWhile is_digit (ds @ r) = r"
  by (cases r) (auto simp: list_all_iff dropWhile_append3)

lemma dropWhile_digits:
  obtains ds where "r = ds @ dropWhile is_digit r" and "list_all is_digit ds" and "ds = takeWhile is_digit r"
  using that [of "takeWhile is_digit r"] by (auto simp: list_all_iff dest: set_takeWhileD)

lemma not_digit_chars [simp]:
  "\<not> is_digit CHR ''.''" "\<not> is_digit CHR ''e''" "\<not> is_digit CHR ''E''" "\<not> is_digit CHR ''+''" "\<not> is_digit CHR ''-''"
  by (simp_all add: is_digit_def)

lemma skip_fraction_Some:
  "skip_fraction t = Some r \<Longrightarrow> \<exists>f. is_fraction_part f \<and> t = f @ r"
proof (cases t)
  case (Cons c s)
  assume some: "skip_fraction t = Some r"
  show ?thesis
  proof (cases "c = CHR ''.''")
    case True
    then have r: "r = dropWhile is_digit s" "length r \<noteq> length s"
      using some Cons by (auto simp: skip_fraction_def Let_def split: if_splits)
    obtain ds where ds: "s = ds @ r" "list_all is_digit ds" using dropWhile_digits [of s] r by blast
    then have "is_fraction_part (CHR ''.'' # ds)" using r by (auto simp: is_fraction_part_def digits_def)
    then show ?thesis using Cons True ds by (intro exI [of _ "CHR ''.'' # ds"]) simp
  qed (use some Cons in \<open>auto simp: skip_fraction_def is_fraction_part_def\<close>)
qed (auto simp: skip_fraction_def is_fraction_part_def)

lemma skip_fraction_part:
  assumes "is_fraction_part f" and "case r of [] \<Rightarrow> True | c # _ \<Rightarrow> \<not> is_digit c \<and> c \<noteq> CHR ''.''"
  shows "skip_fraction (f @ r) = Some r"
proof (cases "f = []")
  case True
  then show ?thesis using assms(2) by (auto simp: skip_fraction_def split: list.splits)
next
  case False
  then obtain ds where ds: "digits ds" "f = CHR ''.'' # ds" using assms(1) by (auto simp: is_fraction_part_def)
  have "dropWhile is_digit (ds @ r) = r" using ds assms(2) by (intro dropWhile_prefix) (auto simp: digits_def split: list.splits)
  then show ?thesis using ds by (simp add: skip_fraction_def digits_def)
qed

lemma skip_exponent_end: "skip_exponent t = Some [] \<longleftrightarrow> is_exponent_part t"
proof
  assume some: "skip_exponent t = Some []"
  show "is_exponent_part t"
  proof (cases t)
    case (Cons c s)
    have c: "c = CHR ''e'' \<or> c = CHR ''E''" using some Cons by (auto simp: skip_exponent_def split: if_splits)
    let ?r = "case s of [] \<Rightarrow> s | x # r2 \<Rightarrow> if x = CHR ''+'' \<or> x = CHR ''-'' then r2 else s"
    have r: "dropWhile is_digit ?r = []" "?r \<noteq> []"
      using some Cons c by (auto simp: skip_exponent_def Let_def split: if_splits)
    then have "digits ?r" by (auto simp: digits_def list_all_iff)
    moreover have "\<exists>sg. (sg = [] \<or> sg = ''+'' \<or> sg = ''-'') \<and> s = sg @ ?r" by (cases s) auto
    ultimately show ?thesis using Cons c unfolding is_exponent_part_def by blast
  qed (simp add: is_exponent_part_def)
next
  assume "is_exponent_part t"
  then consider "t = []" | e s ds where "e = CHR ''e'' \<or> e = CHR ''E''" "s = [] \<or> s = ''+'' \<or> s = ''-''" "digits ds" "t = e # s @ ds"
    by (auto simp: is_exponent_part_def)
  then show "skip_exponent t = Some []"
  proof cases
    case 2
    obtain a ds' where ds: "ds = a # ds'" and a: "is_digit a" and "\<forall>x \<in> set ds'. is_digit x"
      using 2(3) by (cases ds) (auto simp: digits_def list_all_iff)
    then have "dropWhile is_digit (a # ds') = []" by simp
    moreover have "a \<noteq> CHR ''+''" "a \<noteq> CHR ''-''" using a by auto
    ultimately show ?thesis
      using 2 unfolding ds by (auto simp: skip_exponent_def Let_def simp del: dropWhile.simps dropWhile_eq_Nil_conv)
  qed (simp add: skip_exponent_def)
qed

text \<open>
  C32. The scanner for numbers accepts exactly the texts made of an optional minus sign, an
  integer part without leading zeros, an optional fraction and an optional exponent: the
  numbers of JSON.
\<close>

theorem decimal_grammar_iff:
  "decimal_grammar text \<longleftrightarrow>
     (\<exists>sign int frac ex. text = sign @ int @ frac @ ex \<and> (sign = [] \<or> sign = ''-'') \<and>
        is_integer_part int \<and> is_fraction_part frac \<and> is_exponent_part ex)"
  (is "_ \<longleftrightarrow> ?R")
proof
  assume g: "decimal_grammar text"
  define t where "t = (case text of [] \<Rightarrow> text | c # r \<Rightarrow> if c = CHR ''-'' then r else text)"
  obtain c r where t: "t = c # r" and c: "c = CHR ''0'' \<or> 49 \<le> byte_of c \<and> byte_of c \<le> 57"
    and "\<exists>t1. skip_fraction (if c = CHR ''0'' then r else dropWhile is_digit t) = Some t1 \<and> skip_exponent t1 = Some []"
    using g unfolding decimal_grammar_def t_def [symmetric] Let_def by (auto split: list.splits option.splits if_splits)
  then obtain t1 where fr: "skip_fraction (if c = CHR ''0'' then r else dropWhile is_digit t) = Some t1"
    and ex: "is_exponent_part t1" using skip_exponent_end by blast
  obtain frac where frac: "is_fraction_part frac" "(if c = CHR ''0'' then r else dropWhile is_digit t) = frac @ t1"
    using skip_fraction_Some [OF fr] by blast
  have "\<exists>int. is_integer_part int \<and> t = int @ frac @ t1"
  proof (cases "c = CHR ''0''")
    case True
    then show ?thesis using t frac(2) by (intro exI [of _ "''0''"]) (simp add: is_integer_part_def)
  next
    case False
    obtain ds where ds: "t = ds @ dropWhile is_digit t" "list_all is_digit ds" "ds = takeWhile is_digit t" by (rule dropWhile_digits)
    have "is_digit c" using c False by (simp add: is_digit_def)
    then have "hd ds = c" "ds \<noteq> []" using ds(3) t by simp_all
    then have "is_integer_part ds" using ds(2) False by (simp add: is_integer_part_def digits_def)
    then show ?thesis using ds(1) frac(2) False by (intro exI [of _ ds]) simp
  qed
  moreover have "\<exists>sign. (sign = [] \<or> sign = ''-'') \<and> text = sign @ t" unfolding t_def by (cases "text") auto
  ultimately show ?R using frac(1) ex by blast
next
  assume ?R
  then obtain sign int frac ex where whole: "text = sign @ int @ frac @ ex" and sign: "sign = [] \<or> sign = ''-''"
    and int: "is_integer_part int" and frac: "is_fraction_part frac" and ex: "is_exponent_part ex" by blast
  let ?t = "int @ frac @ ex"
  have ex_hd: "case ex of [] \<Rightarrow> True | c # _ \<Rightarrow> \<not> is_digit c \<and> c \<noteq> CHR ''.''" using ex by (auto simp: is_exponent_part_def)
  then have fr: "skip_fraction (frac @ ex) = Some ex" by (rule skip_fraction_part [OF frac])
  have tail: "case frac @ ex of [] \<Rightarrow> True | c # _ \<Rightarrow> \<not> is_digit c"
    using frac ex_hd by (auto simp: is_fraction_part_def split: list.splits)
  obtain c r where cr: "int = c # r" using int by (cases int) (auto simp: is_integer_part_def digits_def)
  have minus: "c \<noteq> CHR ''-''" using int cr by (auto simp: is_integer_part_def digits_def)
  then have t: "(case text of [] \<Rightarrow> text | c # r \<Rightarrow> if c = CHR ''-'' then r else text) = ?t"
    using sign whole cr by auto
  have exp: "skip_exponent ex = Some []" using ex skip_exponent_end by blast
  show "decimal_grammar text"
  proof (cases "c = CHR ''0''")
    case True
    then have "r = []" using int cr by (auto simp: is_integer_part_def)
    then show ?thesis using True cr fr exp by (simp add: decimal_grammar_def t)
  next
    case False
    then have "list_all is_digit int" "is_digit c" using int cr by (auto simp: is_integer_part_def digits_def)
    moreover from this have "dropWhile is_digit ?t = frac @ ex" using dropWhile_prefix [OF _ tail] by blast
    moreover have "\<not> byte_of c < 49"
    proof
      assume "byte_of c < 49"
      then have "byte_of c = 48" using \<open>is_digit c\<close> by (simp add: is_digit_def)
      then have "byte_of c = byte_of (CHR ''0'')" by simp
      then show False using False by (simp only: of_char_eq_iff)
    qed
    ultimately show ?thesis using False cr fr exp by (simp add: decimal_grammar_def t is_digit_def)
  qed
qed

end
