(* ===== verification/Charconv.thy ===== *)
theory Charconv
  imports Text_Format
begin

text \<open>
  The standard-library conversions the sources call: \<^verbatim>\<open>std::from_chars\<close> and \<^verbatim>\<open>std::to_chars\<close> on
  doubles, ordered maps with string keys, and the bounded JSON writer that
  \<^verbatim>\<open>src/ml/features.cpp\<close> and \<^verbatim>\<open>src/ml/feedback_event.cpp\<close> share. The value of a double is the
  exact value of its decimal text: only the limits of the range are modelled, not rounding.
\<close>

section \<open>from_chars\<close>

text \<open>
  \<open>FcInvalid\<close> is \<^verbatim>\<open>errc::invalid_argument\<close>, \<open>FcRange\<close> is \<^verbatim>\<open>errc::result_out_of_range\<close>; the string
  is the text behind \<^verbatim>\<open>ptr\<close>.
\<close>

datatype FromChars = FcInvalid | FcRange string | FcValue double string

text \<open>A finite nonzero value is representable strictly between these bounds.\<close>

definition dbl_overflow :: real where
  "dbl_overflow = 2 ^ 1024 - 2 ^ 970"

definition dbl_underflow :: real where
  "dbl_underflow = 1 / 2 ^ 1075"

definition lower_char :: "char \<Rightarrow> char" where
  "lower_char c = (if 65 \<le> byte_of c \<and> byte_of c \<le> 90 then char_of (byte_of c + 32) else c)"

definition starts_ci :: "string \<Rightarrow> string \<Rightarrow> bool" where
  "starts_ci w t = (map lower_char (take (length w) t) = w)"

definition is_alnum :: "char \<Rightarrow> bool" where
  "is_alnum c = (is_digit c \<or> 65 \<le> byte_of c \<and> byte_of c \<le> 90 \<or> 97 \<le> byte_of c \<and> byte_of c \<le> 122)"

text \<open>The optional parenthesised character sequence after \<^verbatim>\<open>nan\<close>.\<close>

definition skip_nan_payload :: "string \<Rightarrow> string" where
  "skip_nan_payload t =
     (case t of
        [] \<Rightarrow> t
      | c # r \<Rightarrow>
          let rest = dropWhile (\<lambda>x. is_alnum x \<or> x = CHR ''_'') r in
          if c = CHR ''('' \<and> rest \<noteq> [] \<and> hd rest = CHR '')'' then tl rest else t)"

definition digits_value :: "string \<Rightarrow> nat" where
  "digits_value ds = foldl (\<lambda>v c. v * 10 + (byte_of c - 48)) 0 ds"

definition split_fraction :: "string \<Rightarrow> string \<times> string" where
  "split_fraction t =
     (case t of
        [] \<Rightarrow> ([], t)
      | c # r \<Rightarrow> if c = CHR ''.'' then (takeWhile is_digit r, dropWhile is_digit r) else ([], t))"

definition split_exponent :: "string \<Rightarrow> int \<times> string" where
  "split_exponent t =
     (case t of
        [] \<Rightarrow> (0, t)
      | c # r \<Rightarrow>
          let negative = (r \<noteq> [] \<and> hd r = CHR ''-'');
              r1 = (if r \<noteq> [] \<and> (hd r = CHR ''+'' \<or> hd r = CHR ''-'') then tl r else r);
              ds = takeWhile is_digit r1
          in if (c = CHR ''e'' \<or> c = CHR ''E'') \<and> ds \<noteq> []
             then (if negative then - int (digits_value ds) else int (digits_value ds), dropWhile is_digit r1)
             else (0, t))"

definition from_chars_double :: "string \<Rightarrow> FromChars" where
  "from_chars_double text =
     (let negative = (text \<noteq> [] \<and> hd text = CHR ''-'');
          t = (if negative then tl text else text)
      in if starts_ci ''infinity'' t then FcValue (if negative then NegInf else PosInf) (drop 8 t)
         else if starts_ci ''inf'' t then FcValue (if negative then NegInf else PosInf) (drop 3 t)
         else if starts_ci ''nan'' t then FcValue NaN (skip_nan_payload (drop 3 t))
         else
           let ds = takeWhile is_digit t;
               (fs, t2) = split_fraction (dropWhile is_digit t);
               (e, rest) = split_exponent t2;
               v = (if negative then -1 else 1) * real (digits_value (ds @ fs)) * 10 powi (e - int (length fs))
           in if ds = [] \<and> fs = [] then FcInvalid
              else if v = 0 then FcValue (Finite 0) rest
              else if dbl_overflow \<le> \<bar>v\<bar> \<or> \<bar>v\<bar> \<le> dbl_underflow then FcRange rest
              else FcValue (Finite v) rest)"

text \<open>A finite result is zero or in the representable range.\<close>

lemma from_chars_range:
  "from_chars_double s = FcValue (Finite v) rest \<Longrightarrow> v = 0 \<or> dbl_underflow < \<bar>v\<bar> \<and> \<bar>v\<bar> < dbl_overflow"
  by (auto simp: from_chars_double_def Let_def not_le split: if_splits prod.splits)

section \<open>to_chars\<close>

text \<open>\<^verbatim>\<open>std::to_chars(first, last, x, chars_format::scientific, 16)\<close>.\<close>

definition round_half_even :: "real \<Rightarrow> int" where
  "round_half_even x =
     (let f = \<lfloor>x\<rfloor> in
        if x - of_int f < 1 / 2 then f
        else if 1 / 2 < x - of_int f then f + 1
        else if even f then f else f + 1)"

definition pad_left :: "nat \<Rightarrow> nat \<Rightarrow> string" where
  "pad_left k n = replicate (k - length (nat_to_string n)) (CHR ''0'') @ nat_to_string n"

text \<open>The 17 significant digits and the exponent, after a carry out of the top digit.\<close>

definition scientific_digits :: "real \<Rightarrow> int \<times> int" where
  "scientific_digits a =
     (let e = \<lfloor>log 10 a\<rfloor>; d = round_half_even (a * 10 powi (16 - e))
      in if 10 ^ 17 \<le> d then (10 ^ 16, e + 1) else (d, e))"

definition to_chars_scientific :: "real \<Rightarrow> string" where
  "to_chars_scientific x =
     (let (d, e) = (if x = 0 then (0, 0) else scientific_digits \<bar>x\<bar>)
      in (if x < 0 then ''-'' else []) @ nat_to_string (nat (d div 10 ^ 16)) @ ''.'' @ pad_left 16 (nat (d mod 10 ^ 16)) @
         ''e'' @ (if e < 0 then ''-'' else ''+'') @ pad_left 2 (nat \<bar>e\<bar>))"

lemma length_pad_left: "n < 10 ^ k \<Longrightarrow> 0 < k \<Longrightarrow> length (pad_left k n) = k"
  using length_nat_to_string [of n k] by (simp add: pad_left_def)

lemma length_pad_left_le: "n < 10 ^ m \<Longrightarrow> k \<le> m \<Longrightarrow> 0 < m \<Longrightarrow> length (pad_left k n) \<le> m"
  using length_nat_to_string [of n m] by (simp add: pad_left_def)

lemma round_half_even_nonneg: "0 \<le> x \<Longrightarrow> 0 \<le> round_half_even x"
  by (simp add: round_half_even_def Let_def)

lemma scientific_digits_bounds:
  assumes "0 < a" and "scientific_digits a = (d, e)"
  shows "0 \<le> d" and "d < 10 ^ 17" and "e = \<lfloor>log 10 a\<rfloor> \<or> e = \<lfloor>log 10 a\<rfloor> + 1"
  using assms(2) round_half_even_nonneg [of "a * 10 powi (16 - \<lfloor>log 10 a\<rfloor>)"] assms(1)
  by (auto simp: scientific_digits_def Let_def split: if_splits)

lemma pow2_1080: "(2::real) ^ 1080 \<le> 10 powr 405"
proof -
  have exps: "8 * 135 = (1080::nat)" "real (3 * 135) = 405" by simp_all
  have "(2::real) ^ (8 * 135) = (2 ^ 8) ^ 135" by (rule power_mult)
  also have "\<dots> \<le> (10 ^ 3) ^ 135" by (rule power_mono) simp_all
  also have "\<dots> = 10 ^ (3 * 135)" by (rule power_mult [symmetric])
  also have "\<dots> = 10 powr (real (3 * 135))" by (rule powr_realpow [symmetric]) simp
  finally show ?thesis unfolding exps .
qed

lemma length_to_chars_scientific:
  assumes "x = 0 \<or> dbl_underflow < \<bar>x\<bar> \<and> \<bar>x\<bar> < dbl_overflow"
  shows "length (to_chars_scientific x) \<le> 24"
proof -
  obtain d e where de: "(if x = 0 then (0, 0) else scientific_digits \<bar>x\<bar>) = (d, e)" by (cases "if x = 0 then (0, 0) else scientific_digits \<bar>x\<bar>")
  have d: "0 \<le> d" "d < 10 ^ 17" and e: "\<bar>e\<bar> < 1000"
  proof -
    show "0 \<le> d" "d < 10 ^ 17" using de scientific_digits_bounds [of "\<bar>x\<bar>" d e] by (auto split: if_splits)
    show "\<bar>e\<bar> < 1000"
    proof (cases "x = 0")
      case True
      then show ?thesis using de by simp
    next
      case False
      then have pos: "0 < \<bar>x\<bar>" by simp
      have ten: "1 < (10::real)" by simp
      have two: "0 < (2::real) ^ k" for k by simp
      have "\<lfloor>log 10 \<bar>x\<bar>\<rfloor> < 405"
      proof -
        have "dbl_overflow \<le> 2 ^ 1024" unfolding dbl_overflow_def using two [of 970] by linarith
        also have "\<dots> \<le> (2::real) ^ 1080" by (rule power_increasing) simp_all
        also note pow2_1080
        finally have "\<bar>x\<bar> < 10 powr 405" using assms False by linarith
        then have "log 10 \<bar>x\<bar> < 405" by (rule iffD2 [OF log_less_iff [OF ten pos]])
        then show ?thesis by linarith
      qed
      moreover have "- 405 \<le> \<lfloor>log 10 \<bar>x\<bar>\<rfloor>"
      proof -
        have "inverse (10 powr 405) \<le> inverse ((2::real) ^ 1080)" by (rule le_imp_inverse_le [OF pow2_1080 two])
        also have "\<dots> \<le> inverse (2 ^ 1075)" by (rule le_imp_inverse_le [OF power_increasing two]) simp_all
        also have "\<dots> = dbl_underflow" by (simp only: dbl_underflow_def inverse_eq_divide)
        finally have "10 powr (- 405) \<le> \<bar>x\<bar>" using assms False unfolding powr_minus by linarith
        then have "- 405 \<le> log 10 \<bar>x\<bar>" by (rule iffD2 [OF le_log_iff [OF ten pos]])
        then show ?thesis by linarith
      qed
      moreover have "e = \<lfloor>log 10 \<bar>x\<bar>\<rfloor> \<or> e = \<lfloor>log 10 \<bar>x\<bar>\<rfloor> + 1"
        using scientific_digits_bounds(3) [of "\<bar>x\<bar>" d e] de False by simp
      ultimately show ?thesis by linarith
    qed
  qed
  have "d div 10 ^ 16 < 10" using d by (simp add: div_less_iff_less_mult flip: power_Suc)
  then have "length (nat_to_string (nat (d div 10 ^ 16))) \<le> 1"
    using d(1) by (intro length_nat_to_string) (simp_all add: nat_less_iff)
  moreover have "length (pad_left 16 (nat (d mod 10 ^ 16))) = 16"
    by (rule length_pad_left) (simp_all add: nat_less_iff)
  moreover have "length (pad_left 2 (nat \<bar>e\<bar>)) \<le> 3"
    using e by (intro length_pad_left_le) (simp_all add: nat_less_iff)
  ultimately show ?thesis using de by (cases "e < 0") (auto simp: to_chars_scientific_def)
qed

section \<open>Maps with string keys\<close>

text \<open>\<^verbatim>\<open>std::map<std::string, V>\<close>: strings are compared byte by byte, the map is kept in key order.\<close>

fun str_less :: "string \<Rightarrow> string \<Rightarrow> bool" where
  "str_less [] [] = False"
| "str_less [] (_ # _) = True"
| "str_less (_ # _) [] = False"
| "str_less (a # s) (b # t) = (byte_of a < byte_of b \<or> a = b \<and> str_less s t)"

text \<open>Insert or overwrite.\<close>

fun map_put :: "string \<Rightarrow> 'v \<Rightarrow> (string \<times> 'v) list \<Rightarrow> (string \<times> 'v) list" where
  "map_put k v [] = [(k, v)]"
| "map_put k v ((k', v') # m) =
     (if k = k' then (k, v) # m else if str_less k k' then (k, v) # (k', v') # m else (k', v') # map_put k v m)"

lemma set_map_put: "k \<notin> fst ` set m \<Longrightarrow> set (map_put k v m) = insert (k, v) (set m)"
  by (induction m rule: map_put.induct) auto

lemma keys_map_put: "fst ` set (map_put k v m) = insert k (fst ` set m)"
  by (induction m rule: map_put.induct) auto

lemma length_map_put: "length (map_put k v m) \<le> Suc (length m)"
  by (induction m rule: map_put.induct) auto

lemma str_less_irrefl [simp]: "\<not> str_less s s"
  by (induction s) auto

lemma str_less_trans: "str_less s t \<Longrightarrow> str_less t u \<Longrightarrow> str_less s u"
proof (induction s t arbitrary: u rule: str_less.induct)
  case (4 a s b t)
  then show ?case by (cases u) auto
qed (auto elim: str_less.elims)

lemma str_less_total: "s \<noteq> t \<Longrightarrow> str_less s t \<or> str_less t s"
proof (induction s t rule: str_less.induct)
  case (4 a s b t)
  then show ?case by (cases "a = b") (auto simp: nat_neq_iff [symmetric])
qed auto

definition map_sorted :: "(string \<times> 'v) list \<Rightarrow> bool" where
  "map_sorted m \<longleftrightarrow> sorted_wrt str_less (map fst m)"

lemma map_sorted_Nil [simp]: "map_sorted []"
  by (simp add: map_sorted_def)

lemma map_put_sorted: "map_sorted m \<Longrightarrow> map_sorted (map_put k v m)"
  unfolding map_sorted_def
proof (induction k v m rule: map_put.induct)
  case (2 k v k' v' m)
  consider "k = k'" | "k \<noteq> k'" "str_less k k'" | "k \<noteq> k'" "\<not> str_less k k'" by blast
  then show ?case
  proof cases
    case 2
    then show ?thesis using "2.prems" str_less_trans by auto
  next
    case 3
    then have "str_less k' k" using str_less_total by blast
    then show ?thesis using 3 "2.prems" "2.IH" [OF 3] keys_map_put [of k v m]
      by simp
  qed (use "2.prems" in simp)
qed simp

lemma map_sorted_distinct: "map_sorted m \<Longrightarrow> distinct (map fst m)"
  unfolding map_sorted_def
proof (induction m)
  case (Cons e m)
  then show ?case by auto
qed simp

lemma map_of_map_put [simp]: "map_of (map_put k v m) = (map_of m)(k \<mapsto> v)"
  by (induction m rule: map_put.induct) (auto simp: fun_eq_iff)

section \<open>The bounded JSON writer\<close>

text \<open>
  The two \<^verbatim>\<open>Json\<close> writers, of \<^verbatim>\<open>src/ml/features.cpp\<close> and \<^verbatim>\<open>src/ml/feedback_event.cpp\<close>, differ in their
  byte limit only. \<^verbatim>\<open>Json::add\<close> throws \<^verbatim>\<open>length_error\<close> when the text does not fit;
  \<^verbatim>\<open>Json::quoted\<close> adds the escaped characters one by one; \<^verbatim>\<open>Json::number\<close> rejects non-finite
  numbers. A run of the writer is a list of pieces, each a text to add or an exception
  raised at that point.
\<close>

datatype MlError = InvalidArgument string | LengthError

definition json_add :: "nat \<Rightarrow> string \<Rightarrow> string \<Rightarrow> MlError + string" where
  "json_add limit text data = (if limit - length data < length text then Inl LengthError else Inr (data @ text))"

fun json_run :: "nat \<Rightarrow> (MlError + string) list \<Rightarrow> string \<Rightarrow> MlError + string" where
  "json_run limit [] data = Inr data"
| "json_run limit (Inl e # ps) data = Inl e"
| "json_run limit (Inr t # ps) data =
     (case json_add limit t data of Inl e \<Rightarrow> Inl e | Inr data' \<Rightarrow> json_run limit ps data')"

definition hex_digit :: "nat \<Rightarrow> char" where
  "hex_digit d = ''0123456789abcdef'' ! d"

definition json_escape :: "char \<Rightarrow> string" where
  "json_escape c =
     (if c = CHR 0x22 then [CHR 0x5C, CHR 0x22]
      else if c = CHR 0x5C then [CHR 0x5C, CHR 0x5C]
      else if byte_of c < 0x20 then [CHR 0x5C, CHR ''u'', CHR ''0'', CHR ''0'', hex_digit (byte_of c div 16), hex_digit (byte_of c mod 16)]
      else [c])"

definition json_quoted :: "string \<Rightarrow> (MlError + string) list" where
  "json_quoted text = map Inr ([[CHR 0x22]] @ map json_escape text @ [[CHR 0x22]])"

text \<open>The conversion goes through a buffer of 64 bytes; the two strings are the messages of the two errors.\<close>

definition json_number :: "string \<Rightarrow> string \<Rightarrow> double \<Rightarrow> MlError + string" where
  "json_number nonfinite failed d =
     (case d of
        Finite x \<Rightarrow>
          if 64 < length (to_chars_scientific x) then Inl (InvalidArgument failed) else Inr (to_chars_scientific x)
      | _ \<Rightarrow> Inl (InvalidArgument nonfinite))"

text \<open>The texts of a run, when no piece raises.\<close>

definition json_texts :: "(MlError + string) list \<Rightarrow> string" where
  "json_texts ps = concat (map (\<lambda>p. case p of Inl _ \<Rightarrow> [] | Inr t \<Rightarrow> t) ps)"

definition json_clean :: "(MlError + string) list \<Rightarrow> bool" where
  "json_clean ps = list_all (\<lambda>p. case p of Inl _ \<Rightarrow> False | Inr _ \<Rightarrow> True) ps"

lemma json_clean_simps [simp]:
  "json_clean []" "json_clean (Inr t # ps) = json_clean ps" "\<not> json_clean (Inl e # ps)"
  "json_clean (ps @ qs) \<longleftrightarrow> json_clean ps \<and> json_clean qs" "json_clean (json_quoted s)"
  by (auto simp: json_clean_def json_quoted_def list_all_iff)

lemma json_texts_simps [simp]:
  "json_texts [] = []" "json_texts (Inr t # ps) = t @ json_texts ps" "json_texts (ps @ qs) = json_texts ps @ json_texts qs"
  by (simp_all add: json_texts_def)

text \<open>Writing pieces is writing their concatenation, as long as that fits.\<close>

lemma json_run_clean:
  "json_clean ps \<Longrightarrow> length data \<le> limit \<Longrightarrow>
   json_run limit ps data =
     (if length data + length (json_texts ps) \<le> limit then Inr (data @ json_texts ps) else Inl LengthError)"
proof (induction limit ps data rule: json_run.induct)
  case (3 limit t ps data)
  then show ?case by (auto simp: json_add_def)
qed simp_all

text \<open>Whatever is written fits.\<close>

lemma json_run_bounded:
  "json_run limit ps data = Inr out \<Longrightarrow> length data \<le> limit \<Longrightarrow> length out \<le> limit"
proof (induction limit ps data rule: json_run.induct)
  case (3 limit t ps data)
  then show ?case by (auto simp: json_add_def split: if_splits)
qed simp_all

lemma json_number_ok:
  "x = 0 \<or> dbl_underflow < \<bar>x\<bar> \<and> \<bar>x\<bar> < dbl_overflow \<Longrightarrow> json_number a b (Finite x) = Inr (to_chars_scientific x)"
  using length_to_chars_scientific [of x] by (auto simp: json_number_def)

end
