(* ===== verification/Feature_Extractor.thy ===== *)
theory Feature_Extractor
  imports Features Charconv
begin

text \<open>
  The ingress feature extractor of \<^verbatim>\<open>src/ml/features.cpp\<close>: validation of a schema, extraction
  of the allowlisted headers of a message, and the bounded JSON encoding of a snapshot. An
  extractor that was constructed never throws: every message gets a snapshot whose encoding
  fits the byte limit, or the explicit \<^verbatim>\<open>FeatureLimit\<close> marker.
\<close>

section \<open>Limits\<close>

definition kMaxHeaders :: nat where "kMaxHeaders = 16"
definition kMaxKeyBytes :: nat where "kMaxKeyBytes = 64"
definition kMaxValueBytes :: nat where "kMaxValueBytes = 256"
definition kMaxVocabulary :: nat where "kMaxVocabulary = 1024"
definition kMaxFeatureBytes :: nat where "kMaxFeatureBytes = 8192"

definition starts_reserved :: "string \<Rightarrow> bool" where
  "starts_reserved s = (take 2 s = ''__'')"

text \<open>Comparison of doubles: a comparison with \<^verbatim>\<open>NaN\<close> is false.\<close>

fun dbl_less :: "double \<Rightarrow> double \<Rightarrow> bool" where
  "dbl_less (Finite a) (Finite b) = (a < b)"
| "dbl_less NegInf (Finite _) = True"
| "dbl_less NegInf PosInf = True"
| "dbl_less (Finite _) PosInf = True"
| "dbl_less _ _ = False"

section \<open>Schemas\<close>

definition validate_version :: "string \<Rightarrow> MlError + unit" where
  "validate_version version =
     (if version = [] \<or> 128 < length version \<or> \<not> valid_utf8 version
      then Inl (InvalidArgument ''ML version must be nonempty UTF-8 and at most 128 bytes'') else Inr ())"

text \<open>The vocabulary loop, with the values seen so far.\<close>

fun check_vocabulary :: "string list \<Rightarrow> string list \<Rightarrow> MlError + unit" where
  "check_vocabulary [] seen = Inr ()"
| "check_vocabulary (v # vs) seen =
     (if kMaxValueBytes < length v \<or> \<not> valid_utf8 v \<or> v \<in> set seen
      then Inl (InvalidArgument ''invalid feature vocabulary'') else check_vocabulary vs (v # seen))"

definition check_field :: "HeaderFeature \<Rightarrow> MlError + unit" where
  "check_field f =
     (case hf_type f of
        Numeric \<Rightarrow>
          if \<not> isfinite (hf_minimum f) \<or> \<not> isfinite (hf_maximum f) \<or> dbl_less (hf_maximum f) (hf_minimum f) \<or>
             hf_vocabulary f \<noteq> [] \<or> hf_encoding f \<noteq> Vocabulary
          then Inl (InvalidArgument ''invalid numeric feature specification'') else Inr ()
      | Categorical \<Rightarrow>
          if hf_minimum f \<noteq> Finite 0 \<or> hf_maximum f \<noteq> Finite 0
          then Inl (InvalidArgument ''categorical feature cannot declare numeric range'')
          else (case hf_encoding f of
              Hash \<Rightarrow> if hf_vocabulary f \<noteq> [] then Inl (InvalidArgument ''hash feature cannot declare vocabulary'') else Inr ()
            | Vocabulary \<Rightarrow>
                if kMaxVocabulary < length (hf_vocabulary f) then Inl (InvalidArgument ''feature vocabulary too large'')
                else check_vocabulary (hf_vocabulary f) []))"

definition bad_key :: "string \<Rightarrow> bool" where
  "bad_key k = (k = [] \<or> kMaxKeyBytes < length k \<or> \<not> valid_utf8 k \<or> starts_reserved k)"

fun check_fields :: "HeaderFeature list \<Rightarrow> string list \<Rightarrow> MlError + unit" where
  "check_fields [] names = Inr ()"
| "check_fields (f # fs) names =
     (if bad_key (hf_name f) \<or> hf_name f \<in> set names then Inl (InvalidArgument ''invalid feature header key'')
      else case check_field f of Inl e \<Rightarrow> Inl e | Inr _ \<Rightarrow> check_fields fs (hf_name f # names))"

definition FeatureExtractor :: "FeatureSchema \<Rightarrow> MlError + FeatureSchema" where
  "FeatureExtractor schema =
     (case validate_version (fs_version schema) of
        Inl e \<Rightarrow> Inl e
      | Inr _ \<Rightarrow>
          if kMaxHeaders < length (fs_headers schema) then Inl (InvalidArgument ''too many feature headers'')
          else (case check_fields (fs_headers schema) [] of Inl e \<Rightarrow> Inl e | Inr _ \<Rightarrow> Inr schema))"

section \<open>Numbers\<close>

definition parse_number :: "string \<Rightarrow> HeaderFeature \<Rightarrow> MissingReason + FeatureValue" where
  "parse_number raw f =
     (if \<not> decimal_grammar raw then Inl InvalidType
      else
        let nonzero = list_ex (\<lambda>c. 49 \<le> byte_of c \<and> byte_of c \<le> 57) (takeWhile (\<lambda>c. c \<noteq> CHR ''e'' \<and> c \<noteq> CHR ''E'') raw);
            number = (if \<not> nonzero then Some (Finite 0)
              else case from_chars_double raw of
                  FcValue v rest \<Rightarrow> if rest \<noteq> [] \<or> \<not> isfinite v \<or> v = Finite 0 then None else Some v
                | _ \<Rightarrow> None)
        in case number of
            None \<Rightarrow> Inl OutOfRange
          | Some n \<Rightarrow>
              if dbl_less n (hf_minimum f) \<or> dbl_less (hf_maximum f) n then Inl OutOfRange else Inr (FNumber n))"

section \<open>JSON\<close>

definition reason_string :: "MissingReason \<Rightarrow> string" where
  "reason_string r =
     (case r of Absent \<Rightarrow> ''absent'' | InvalidType \<Rightarrow> ''invalid_type'' | OutOfRange \<Rightarrow> ''out_of_range''
        | InvalidEncoding \<Rightarrow> ''invalid_encoding'' | Oversized \<Rightarrow> ''oversized'')"

definition value_pieces :: "FeatureValue \<Rightarrow> (MlError + string) list" where
  "value_pieces v = (case v of FNumber d \<Rightarrow> [json_number ''nonfinite feature number'' ''feature number conversion failed'' d] | FText s \<Rightarrow> json_quoted s | FMissing \<Rightarrow> [Inr ''null''])"

text \<open>The entries of one object, a comma before every entry but the first.\<close>

fun entry_pieces :: "bool \<Rightarrow> ('v \<Rightarrow> (MlError + string) list) \<Rightarrow> (string \<times> 'v) list \<Rightarrow> (MlError + string) list" where
  "entry_pieces first f [] = []"
| "entry_pieces first f ((k, v) # m) =
     (if first then [] else [Inr '','']) @ json_quoted k @ [Inr '':''] @ f v @ entry_pieces False f m"

fun check_headers :: "(string \<times> MissingReason) list \<Rightarrow> (string \<times> FeatureValue) list \<Rightarrow> MlError + unit" where
  "check_headers missing [] = Inr ()"
| "check_headers missing ((k, v) # m) =
     (if bad_key k then Inl (InvalidArgument ''invalid snapshot key'')
      else if (case v of FText c \<Rightarrow> kMaxValueBytes < length c \<or> \<not> valid_utf8 c | _ \<Rightarrow> False)
        then Inl (InvalidArgument ''invalid snapshot category'')
      else if (v = FMissing) \<noteq> (k \<in> fst ` set missing) then Inl (InvalidArgument ''inconsistent missing reason'')
      else check_headers missing m)"

definition snapshot_pieces :: "FeatureSnapshot \<Rightarrow> (MlError + string) list" where
  \<open>snapshot_pieces s =
     [Inr ''{"payload_size_bytes":''] @ json_quoted (nat_to_string (sn_payload_size_bytes s)) @ [Inr '',"headers":{''] @
     entry_pieces True value_pieces (sn_headers s) @ [Inr ''},"missing_reasons":{''] @
     entry_pieces True (\<lambda>r. json_quoted (reason_string r)) (sn_missing_reasons s) @ [Inr ''}}'']\<close>

definition snapshot_json :: "FeatureSnapshot \<Rightarrow> MlError + string" where
  "snapshot_json s =
     (if kMaxHeaders < length (sn_headers s) \<or> kMaxHeaders < length (sn_missing_reasons s)
        then Inl (InvalidArgument ''too many snapshot headers'')
      else case check_headers (sn_missing_reasons s) (sn_headers s) of
          Inl e \<Rightarrow> Inl e
        | Inr _ \<Rightarrow>
            if list_ex (\<lambda>k. k \<notin> fst ` set (sn_headers s)) (map fst (sn_missing_reasons s))
              then Inl (InvalidArgument ''unknown missing key'')
            else json_run kMaxFeatureBytes (snapshot_pieces s) [])"

section \<open>Extraction\<close>

definition extract_field :: "HeaderFeature \<Rightarrow> header_map \<Rightarrow> MissingReason + FeatureValue" where
  "extract_field f headers =
     (case headers (hf_name f) of
        None \<Rightarrow> Inl Absent
      | Some raw \<Rightarrow>
          if kMaxValueBytes < length raw then Inl Oversized
          else if \<not> valid_utf8 raw then Inl InvalidEncoding
          else if hf_type f = Numeric then parse_number raw f
          else Inr (FText raw))"

fun extract_fields :: "HeaderFeature list \<Rightarrow> header_map \<Rightarrow> FeatureSnapshot \<Rightarrow> FeatureSnapshot" where
  "extract_fields [] headers s = s"
| "extract_fields (f # fs) headers s =
     extract_fields fs headers
       (case extract_field f headers of
          Inl reason \<Rightarrow> s\<lparr>sn_headers := map_put (hf_name f) FMissing (sn_headers s),
                          sn_missing_reasons := map_put (hf_name f) reason (sn_missing_reasons s)\<rparr>
        | Inr v \<Rightarrow> s\<lparr>sn_headers := map_put (hf_name f) v (sn_headers s)\<rparr>)"

definition FeatureExtractor_extract :: "FeatureSchema \<Rightarrow> nat \<Rightarrow> header_map \<Rightarrow> MlError + ExtractedFeatures" where
  "FeatureExtractor_extract schema payload_size headers =
     (let s = extract_fields (fs_headers schema) headers
            \<lparr>sn_payload_size_bytes = payload_size, sn_headers = [], sn_missing_reasons = []\<rparr>
      in case snapshot_json s of
          Inl LengthError \<Rightarrow> Inr \<lparr>ef_features = None, ef_validity = FeaturesLimit\<rparr>
        | Inl e \<Rightarrow> Inl e
        | Inr _ \<Rightarrow> Inr \<lparr>ef_features = Some s, ef_validity = FeaturesValid\<rparr>)"

section \<open>What an extractor produces\<close>

definition value_ok :: "FeatureValue \<Rightarrow> bool" where
  "value_ok v =
     (case v of
        FMissing \<Rightarrow> True
      | FNumber d \<Rightarrow> (\<exists>x. d = Finite x \<and> (x = 0 \<or> dbl_underflow < \<bar>x\<bar> \<and> \<bar>x\<bar> < dbl_overflow))
      | FText s \<Rightarrow> length s \<le> kMaxValueBytes \<and> valid_utf8 s)"

lemma parse_number_ok: "parse_number raw f = Inr v \<Longrightarrow> value_ok v \<and> v \<noteq> FMissing"
  by (auto simp: parse_number_def value_ok_def Let_def isfinite_def dest: from_chars_range
      split: if_splits option.splits FromChars.splits double.splits)

lemma parse_number_Inr:
  assumes "parse_number raw f = Inr v"
  shows "decimal_grammar raw \<and> (\<exists>x. v = FNumber (Finite x) \<and> \<not> dbl_less (Finite x) (hf_minimum f) \<and> \<not> dbl_less (hf_maximum f) (Finite x))"
  using assms parse_number_ok [OF assms]
  by (auto simp: parse_number_def value_ok_def Let_def split: if_splits option.splits FeatureValue.splits)

lemma parse_number_Inl: "parse_number raw f = Inl reason \<Longrightarrow> reason = InvalidType \<or> reason = OutOfRange"
  by (auto simp: parse_number_def Let_def split: if_splits option.splits FromChars.splits)

lemma extract_field_ok: "extract_field f headers = Inr v \<Longrightarrow> value_ok v \<and> v \<noteq> FMissing"
  by (auto simp: extract_field_def dest: parse_number_ok split: option.splits if_splits)
    (auto simp: value_ok_def)

lemma extract_field_Inr:
  "extract_field f headers = Inr v \<Longrightarrow>
   \<exists>raw. headers (hf_name f) = Some raw \<and> length raw \<le> kMaxValueBytes \<and> valid_utf8 raw \<and>
     (if hf_type f = Numeric then parse_number raw f = Inr v else v = FText raw)"
  by (auto simp: extract_field_def split: option.splits if_splits)

lemma extract_field_Inl:
  "extract_field f headers = Inl reason \<Longrightarrow>
   (reason = Absent \<longleftrightarrow> headers (hf_name f) = None) \<and>
   (reason = Oversized \<longleftrightarrow> (\<exists>raw. headers (hf_name f) = Some raw \<and> kMaxValueBytes < length raw))"
  using parse_number_Inl by (force simp: extract_field_def split: option.splits if_splits)

text \<open>The state of the extraction loop after the fields named \<open>names\<close>.\<close>

definition snapshot_ok :: "string list \<Rightarrow> FeatureSnapshot \<Rightarrow> bool" where
  "snapshot_ok names s \<longleftrightarrow>
     map_sorted (sn_headers s) \<and> map_sorted (sn_missing_reasons s) \<and>
     fst ` set (sn_headers s) = set names \<and>
     (\<forall>(k, v) \<in> set (sn_headers s). value_ok v \<and> (v = FMissing \<longleftrightarrow> k \<in> fst ` set (sn_missing_reasons s))) \<and>
     fst ` set (sn_missing_reasons s) \<subseteq> set names"

lemma snapshot_okD:
  assumes "snapshot_ok names s" "(k, v) \<in> set (sn_headers s)"
  shows "k \<in> set names" "value_ok v" "v = FMissing \<longleftrightarrow> k \<in> fst ` set (sn_missing_reasons s)"
proof -
  have "k \<in> fst ` set (sn_headers s)" using assms(2) by (metis fst_conv imageI)
  then show "k \<in> set names" using assms(1) by (simp add: snapshot_ok_def)
  show "value_ok v" "v = FMissing \<longleftrightarrow> k \<in> fst ` set (sn_missing_reasons s)"
    using assms by (auto simp: snapshot_ok_def)
qed

lemma snapshot_ok_put_missing:
  assumes "snapshot_ok names s" and k: "k \<notin> set names"
  shows "snapshot_ok (k # names) (s\<lparr>sn_headers := map_put k FMissing (sn_headers s),
    sn_missing_reasons := map_put k r (sn_missing_reasons s)\<rparr>)"
proof -
  have new: "k \<notin> fst ` set (sn_headers s)" "k \<notin> fst ` set (sn_missing_reasons s)"
    using assms by (auto simp: snapshot_ok_def)
  have "\<forall>(k', v) \<in> set (map_put k FMissing (sn_headers s)). value_ok v \<and>
      (v = FMissing \<longleftrightarrow> k' \<in> insert k (fst ` set (sn_missing_reasons s)))"
  proof (intro ballI, clarify)
    fix k' v assume "(k', v) \<in> set (map_put k FMissing (sn_headers s))"
    then consider "k' = k" "v = FMissing" | "(k', v) \<in> set (sn_headers s)" by (auto simp: set_map_put [OF new(1)])
    then show "value_ok v \<and> (v = FMissing \<longleftrightarrow> k' \<in> insert k (fst ` set (sn_missing_reasons s)))"
    proof cases
      case 2
      then show ?thesis using snapshot_okD [OF assms(1) 2] k by blast
    qed (simp add: value_ok_def)
  qed
  then show ?thesis using assms(1)
    by (simp add: snapshot_ok_def map_put_sorted keys_map_put subset_insertI2)
qed

lemma snapshot_ok_put_value:
  assumes "snapshot_ok names s" and k: "k \<notin> set names" and "value_ok v" "v \<noteq> FMissing"
  shows "snapshot_ok (k # names) (s\<lparr>sn_headers := map_put k v (sn_headers s)\<rparr>)"
proof -
  have new: "k \<notin> fst ` set (sn_headers s)" "k \<notin> fst ` set (sn_missing_reasons s)"
    using assms by (auto simp: snapshot_ok_def)
  have "\<forall>(k', v) \<in> set (map_put k v (sn_headers s)). value_ok v \<and>
      (v = FMissing \<longleftrightarrow> k' \<in> fst ` set (sn_missing_reasons s))"
    using assms(1,3,4) new(2) by (simp add: snapshot_ok_def set_map_put [OF new(1)])
  then show ?thesis using assms(1)
    by (simp add: snapshot_ok_def map_put_sorted keys_map_put subset_insertI2)
qed

lemma extract_fields_ok:
  assumes "snapshot_ok names s" and "distinct (map hf_name fs @ names)"
  shows "snapshot_ok (rev (map hf_name fs) @ names) (extract_fields fs headers s)"
  using assms
proof (induction fs arbitrary: s names)
  case (Cons f fs)
  show ?case
  proof (cases "extract_field f headers")
    case (Inl reason)
    then show ?thesis using Cons snapshot_ok_put_missing [of names s "hf_name f" reason] by simp
  next
    case (Inr v)
    then show ?thesis using Cons snapshot_ok_put_value [of names s "hf_name f" v] extract_field_ok [OF Inr] by simp
  qed
qed simp

lemma check_fields_ok:
  "check_fields fs names = Inr u \<Longrightarrow> distinct names \<Longrightarrow>
   distinct (map hf_name fs @ names) \<and> (\<forall>f \<in> set fs. \<not> bad_key (hf_name f) \<and> check_field f = Inr ())"
  by (induction fs names rule: check_fields.induct) (auto split: if_splits sum.splits)

lemma FeatureExtractor_ok:
  assumes "FeatureExtractor schema = Inr ex"
  shows "ex = schema" "length (fs_headers schema) \<le> kMaxHeaders" "distinct (map hf_name (fs_headers schema))"
    "f \<in> set (fs_headers schema) \<Longrightarrow> \<not> bad_key (hf_name f)"
  using assms check_fields_ok [of "fs_headers schema" "[]"]
  by (auto simp: FeatureExtractor_def split: sum.splits if_splits)

text \<open>A snapshot the loop built passes every test of the encoder.\<close>

lemma check_headers_ok:
  "(\<And>k v. (k, v) \<in> set hs \<Longrightarrow> \<not> bad_key k \<and> value_ok v \<and> (v = FMissing \<longleftrightarrow> k \<in> fst ` set missing)) \<Longrightarrow>
   check_headers missing hs = Inr ()"
proof (induction missing hs rule: check_headers.induct)
  case (2 missing k v m)
  then have "\<not> bad_key k" "value_ok v" "v = FMissing \<longleftrightarrow> k \<in> fst ` set missing" by auto
  moreover have "check_headers missing m = Inr ()" using "2.IH" "2.prems" calculation
    by (cases v) (auto simp: value_ok_def)
  ultimately show ?case by (cases v) (auto simp: value_ok_def)
qed simp

lemma value_pieces_clean: "value_ok v \<Longrightarrow> json_clean (value_pieces v)"
  by (auto simp: value_pieces_def value_ok_def json_number_ok split: FeatureValue.splits)

lemma entry_pieces_clean:
  "(\<And>k v. (k, v) \<in> set m \<Longrightarrow> json_clean (f v)) \<Longrightarrow> json_clean (entry_pieces first f m)"
  by (induction first f m rule: entry_pieces.induct) auto

lemma snapshot_pieces_clean:
  "\<forall>(k, v) \<in> set (sn_headers s). value_ok v \<Longrightarrow> json_clean (snapshot_pieces s)"
  unfolding snapshot_pieces_def
  by (auto intro!: entry_pieces_clean value_pieces_clean)

lemma map_sorted_length:
  "map_sorted m \<Longrightarrow> fst ` set m \<subseteq> set names \<Longrightarrow> length m \<le> length names"
  using map_sorted_distinct [of m] card_mono [of "set names" "fst ` set m"] card_length [of names]
    distinct_card [of "map fst m"] by simp

lemma snapshot_json_eq:
  assumes "snapshot_ok names s" "length names \<le> kMaxHeaders" "\<And>n. n \<in> set names \<Longrightarrow> \<not> bad_key n"
  shows "snapshot_json s =
    (if length (json_texts (snapshot_pieces s)) \<le> kMaxFeatureBytes then Inr (json_texts (snapshot_pieces s)) else Inl LengthError)"
proof -
  have "length (sn_headers s) \<le> length names" "length (sn_missing_reasons s) \<le> length names"
    using assms(1) by (auto simp: snapshot_ok_def intro!: map_sorted_length)
  moreover have "check_headers (sn_missing_reasons s) (sn_headers s) = Inr ()"
    using snapshot_okD [OF assms(1)] assms(3) by (intro check_headers_ok) blast
  moreover have "\<not> list_ex (\<lambda>k. k \<notin> fst ` set (sn_headers s)) (map fst (sn_missing_reasons s))"
    using assms(1) by (simp add: snapshot_ok_def list_ex_iff subset_iff)
  moreover have "json_clean (snapshot_pieces s)"
    using snapshot_okD(2) [OF assms(1)] by (intro snapshot_pieces_clean) blast
  ultimately show ?thesis using assms(2) by (simp add: snapshot_json_def json_run_clean)
qed

definition empty_snapshot :: "nat \<Rightarrow> FeatureSnapshot" where
  "empty_snapshot n = \<lparr>sn_payload_size_bytes = n, sn_headers = [], sn_missing_reasons = []\<rparr>"

lemma extracted_ok:
  assumes "FeatureExtractor schema = Inr ex"
  shows "snapshot_ok (rev (map hf_name (fs_headers schema))) (extract_fields (fs_headers schema) headers (empty_snapshot n))"
  using extract_fields_ok [of "[]" "empty_snapshot n" "fs_headers schema" headers] FeatureExtractor_ok [OF assms]
  by (simp add: snapshot_ok_def empty_snapshot_def)

text \<open>Each field of a schema is looked up on its own.\<close>

definition field_value :: "HeaderFeature \<Rightarrow> header_map \<Rightarrow> FeatureValue" where
  "field_value f headers = (case extract_field f headers of Inl _ \<Rightarrow> FMissing | Inr v \<Rightarrow> v)"

definition field_reason :: "HeaderFeature \<Rightarrow> header_map \<Rightarrow> MissingReason option" where
  "field_reason f headers = (case extract_field f headers of Inl r \<Rightarrow> Some r | Inr v \<Rightarrow> None)"

lemma extract_fields_other:
  "n \<notin> hf_name ` set fs \<Longrightarrow>
   map_of (sn_headers (extract_fields fs headers s)) n = map_of (sn_headers s) n \<and>
   map_of (sn_missing_reasons (extract_fields fs headers s)) n = map_of (sn_missing_reasons s) n"
  by (induction fs headers s rule: extract_fields.induct) (auto split: sum.splits)

lemma extract_fields_value:
  "distinct (map hf_name fs) \<Longrightarrow> f \<in> set fs \<Longrightarrow> map_of (sn_missing_reasons s) (hf_name f) = None \<Longrightarrow>
   map_of (sn_headers (extract_fields fs headers s)) (hf_name f) = Some (field_value f headers) \<and>
   map_of (sn_missing_reasons (extract_fields fs headers s)) (hf_name f) = field_reason f headers"
proof (induction fs headers s rule: extract_fields.induct)
  case (2 g fs headers s)
  show ?case
  proof (cases "g = f")
    case True
    with 2 have "hf_name f \<notin> hf_name ` set fs" by auto
    then show ?thesis using True "2.prems"
      by (auto simp: extract_fields_other field_value_def field_reason_def split: sum.splits)
  next
    case False
    then have "hf_name g \<noteq> hf_name f" using "2.prems" by (auto simp: rev_image_eqI)
    then show ?thesis using False "2.prems" "2.IH" by (cases "extract_field g headers") simp_all
  qed
qed simp

lemma extract_fields_size [simp]:
  "sn_payload_size_bytes (extract_fields fs headers s) = sn_payload_size_bytes s"
  by (induction fs headers s rule: extract_fields.induct) (auto split: sum.splits)

lemma FeatureExtractor_extract_eq:
  assumes "FeatureExtractor schema = Inr ex"
  defines "s \<equiv> \<lambda>n headers. extract_fields (fs_headers schema) headers (empty_snapshot n)"
  shows "FeatureExtractor_extract ex n headers =
    Inr (if length (json_texts (snapshot_pieces (s n headers))) \<le> kMaxFeatureBytes
         then \<lparr>ef_features = Some (s n headers), ef_validity = FeaturesValid\<rparr>
         else \<lparr>ef_features = None, ef_validity = FeaturesLimit\<rparr>)"
proof -
  have "snapshot_json (s n headers) = (if length (json_texts (snapshot_pieces (s n headers))) \<le> kMaxFeatureBytes
      then Inr (json_texts (snapshot_pieces (s n headers))) else Inl LengthError)"
    unfolding s_def using FeatureExtractor_ok [OF assms(1)]
    by (intro snapshot_json_eq [OF extracted_ok [OF assms(1)]]) auto
  then show ?thesis using FeatureExtractor_ok(1) [OF assms(1)]
    by (simp add: FeatureExtractor_extract_def Let_def s_def empty_snapshot_def)
qed

section \<open>Properties\<close>

text \<open>A schema with one number and one category, and the headers of a message.\<close>

definition ex_schema :: FeatureSchema where
  "ex_schema = \<lparr>fs_version = ''v1'', fs_headers =
     [\<lparr>hf_name = ''n'', hf_type = Numeric, hf_minimum = Finite 0, hf_maximum = Finite 9, hf_encoding = Vocabulary, hf_vocabulary = []\<rparr>,
      \<lparr>hf_name = ''job'', hf_type = Categorical, hf_minimum = Finite 0, hf_maximum = Finite 0, hf_encoding = Hash, hf_vocabulary = []\<rparr>]\<rparr>"

definition ex_headers :: header_map where
  "ex_headers = [''n'' \<mapsto> ''00'', ''job'' \<mapsto> ''resize'']"

definition ex_snapshot :: FeatureSnapshot where
  "ex_snapshot = \<lparr>sn_payload_size_bytes = 7, sn_headers = [(''job'', FText ''resize''), (''n'', FMissing)],
     sn_missing_reasons = [(''n'', InvalidType)]\<rparr>"

lemma ex_schema_ok: "FeatureExtractor ex_schema = Inr ex_schema"
  by (simp add: FeatureExtractor_def ex_schema_def validate_version_def check_field_def bad_key_def utf8_lead_def
      starts_reserved_def kMaxHeaders_def kMaxKeyBytes_def isfinite_def)

lemma ex_extract:
  "FeatureExtractor_extract ex_schema 7 ex_headers = Inr \<lparr>ef_features = Some ex_snapshot, ef_validity = FeaturesValid\<rparr>"
proof -
  have s: "extract_fields (fs_headers ex_schema) ex_headers (empty_snapshot 7) = ex_snapshot"
    by (simp add: ex_schema_def ex_headers_def empty_snapshot_def ex_snapshot_def extract_field_def kMaxValueBytes_def
        parse_number_def decimal_grammar_def skip_fraction_def skip_exponent_def)
  have "length (json_texts (snapshot_pieces ex_snapshot)) \<le> kMaxFeatureBytes"
    by (simp add: ex_snapshot_def snapshot_pieces_def json_quoted_def value_pieces_def reason_string_def
        json_texts_def json_escape_def kMaxFeatureBytes_def nat_to_string.simps digit_char_def)
  then show ?thesis using FeatureExtractor_extract_eq [OF ex_schema_ok, of 7 ex_headers] by (simp add: s)
qed

text \<open>
  C29. An extractor that was constructed never throws: whatever the size and the headers of a
  message, extraction returns either the marker \<^verbatim>\<open>FeatureLimit\<close> without a snapshot, or a valid
  snapshot of at most 16 headers in key order, exactly the headers of the schema, in which a
  value is missing exactly when a reason is recorded, and whose JSON encoding succeeds with
  at most 8192 bytes.
\<close>

theorem extract_never_throws:
  assumes "FeatureExtractor schema = Inr ex"
  shows "\<exists>r. FeatureExtractor_extract ex bytes headers = Inr r \<and>
    (case ef_features r of
       None \<Rightarrow> ef_validity r = FeaturesLimit
     | Some s \<Rightarrow> ef_validity r = FeaturesValid \<and> sn_payload_size_bytes s = bytes \<and>
         length (sn_headers s) \<le> kMaxHeaders \<and> map_sorted (sn_headers s) \<and>
         fst ` set (sn_headers s) = hf_name ` set (fs_headers schema) \<and>
         fst ` set (sn_missing_reasons s) = {k. (k, FMissing) \<in> set (sn_headers s)} \<and>
         (\<exists>json. snapshot_json s = Inr json \<and> length json \<le> kMaxFeatureBytes))"
proof -
  let ?s = "extract_fields (fs_headers schema) headers (empty_snapshot bytes)"
  let ?names = "rev (map hf_name (fs_headers schema))"
  note ok = extracted_ok [OF assms, of headers bytes]
  have json: "snapshot_json ?s = (if length (json_texts (snapshot_pieces ?s)) \<le> kMaxFeatureBytes
      then Inr (json_texts (snapshot_pieces ?s)) else Inl LengthError)"
    using FeatureExtractor_ok [OF assms] by (intro snapshot_json_eq [OF ok]) auto
  have keys: "fst ` set (sn_headers ?s) = hf_name ` set (fs_headers schema)" and sorted: "map_sorted (sn_headers ?s)"
    using ok by (simp_all add: snapshot_ok_def)
  then have len: "length (sn_headers ?s) \<le> kMaxHeaders"
    using map_sorted_length [of "sn_headers ?s" ?names] FeatureExtractor_ok(2) [OF assms] by simp
  have missing: "fst ` set (sn_missing_reasons ?s) = {k. (k, FMissing) \<in> set (sn_headers ?s)}"
  proof
    show "{k. (k, FMissing) \<in> set (sn_headers ?s)} \<subseteq> fst ` set (sn_missing_reasons ?s)"
      using snapshot_okD(3) [OF ok] by blast
    show "fst ` set (sn_missing_reasons ?s) \<subseteq> {k. (k, FMissing) \<in> set (sn_headers ?s)}"
    proof
      fix k assume k: "k \<in> fst ` set (sn_missing_reasons ?s)"
      then have "k \<in> fst ` set (sn_headers ?s)" using ok by (auto simp: snapshot_ok_def)
      then obtain v where "(k, v) \<in> set (sn_headers ?s)" by auto
      with k show "k \<in> {k. (k, FMissing) \<in> set (sn_headers ?s)}" using snapshot_okD(3) [OF ok] by blast
    qed
  qed
  show ?thesis using keys sorted len missing json
    by (simp add: FeatureExtractor_extract_eq [OF assms] empty_snapshot_def)
qed

theorem extract_never_throws_witness:
  "\<exists>r. FeatureExtractor_extract ex_schema 7 ex_headers = Inr r"
  using extract_never_throws [OF ex_schema_ok, of 7 ex_headers] by blast



end
