(* ===== verification/Histogram.thy ===== *)
theory Histogram
  imports Prelude
begin

text \<open>
  The decaying histogram of \<^verbatim>\<open>src/ml/duration_predictor.cpp\<close> (\<^verbatim>\<open>DecayingHistogram\<close>): a fixed layout of
  geometric bins, exponential decay by growing the increment instead of shrinking the counts,
  renormalisation when the increment gets large, and interpolated quantiles. The increments
  are shown to implement the textbook definition, in which every retained weight is
  multiplied by the decay at each observation; quantiles stay within the layout, grow with
  the requested fraction, and are not changed by renormalisation.
\<close>

section \<open>The histogram\<close>

definition kRenormalizeAt :: real where "kRenormalizeAt = 10 ^ 100"

record DecayingHistogram =
  h_counts :: "real list"
  h_min_ms :: real
  h_max_ms :: real
  h_ratio :: real
  h_log_ratio :: real
  h_gain :: real
  h_scale :: real
  h_total :: real
  h_sum :: real
  h_censored :: real
  h_observations :: nat

definition make_DecayingHistogram :: "nat \<Rightarrow> real \<Rightarrow> real \<Rightarrow> real \<Rightarrow> DecayingHistogram" where
  "make_DecayingHistogram bins lo hi decay =
     (let ratio = (hi / lo) powr (1 / real (bins - 1)) in
      \<lparr>h_counts = replicate bins 0, h_min_ms = lo, h_max_ms = hi, h_ratio = ratio,
       h_log_ratio = ln ratio, h_gain = 1 / decay, h_scale = 1, h_total = 0, h_sum = 0, h_censored = 0,
       h_observations = 0\<rparr>)"

text \<open>The conversion to \<^verbatim>\<open>std::size_t\<close> truncates; the logarithm is non-negative there.\<close>

definition hist_bin :: "DecayingHistogram \<Rightarrow> real \<Rightarrow> nat" where
  "hist_bin h value_ms =
     (if value_ms < h_min_ms h then 0
      else let index = nat \<lfloor>ln (value_ms / h_min_ms h) / h_log_ratio h\<rfloor> + 1 in
        min index (length (h_counts h) - 1))"

definition hist_lower :: "DecayingHistogram \<Rightarrow> nat \<Rightarrow> real" where
  "hist_lower h index = (if index = 0 then 0 else h_min_ms h * h_ratio h ^ (index - 1))"

definition hist_upper :: "DecayingHistogram \<Rightarrow> nat \<Rightarrow> real" where
  "hist_upper h index = h_min_ms h * h_ratio h ^ index"

definition renormalize_if_needed :: "DecayingHistogram \<Rightarrow> DecayingHistogram" where
  "renormalize_if_needed h =
     (if h_scale h \<le> kRenormalizeAt then h
      else h\<lparr>h_counts := map (\<lambda>c. c / h_scale h) (h_counts h), h_total := h_total h / h_scale h,
             h_sum := h_sum h / h_scale h, h_censored := h_censored h / h_scale h, h_scale := 1\<rparr>)"

definition hist_add :: "real \<Rightarrow> DecayingHistogram \<Rightarrow> bool \<times> DecayingHistogram" where
  "hist_add value_ms h =
     (let clamped = h_max_ms h < value_ms;
          val = (if clamped then h_max_ms h else value_ms);
          b = hist_bin h val;
          h1 = h\<lparr>h_counts := (h_counts h)[b := h_counts h ! b + h_scale h], h_total := h_total h + h_scale h,
                 h_sum := h_sum h + h_scale h * val, h_observations := Suc (h_observations h),
                 h_scale := h_scale h * h_gain h\<rparr>
      in (clamped, renormalize_if_needed h1))"

definition hist_add_censored :: "DecayingHistogram \<Rightarrow> DecayingHistogram" where
  "hist_add_censored h =
     renormalize_if_needed (h\<lparr>h_censored := h_censored h + h_scale h, h_scale := h_scale h * h_gain h\<rparr>)"

definition hist_shrink :: "real \<Rightarrow> DecayingHistogram \<Rightarrow> DecayingHistogram" where
  "hist_shrink factor h =
     h\<lparr>h_counts := map (\<lambda>c. c * factor) (h_counts h), h_total := h_total h * factor,
       h_sum := h_sum h * factor, h_censored := h_censored h * factor\<rparr>"

text \<open>The loop of \<^verbatim>\<open>quantile\<close>, from bin \<open>i\<close> on with the weight seen so far.\<close>

fun quantile_scan :: "DecayingHistogram \<Rightarrow> real \<Rightarrow> real \<Rightarrow> nat \<Rightarrow> real list \<Rightarrow> real" where
  "quantile_scan h target seen i [] = hist_upper h (length (h_counts h) - 1)"
| "quantile_scan h target seen i (c # cs) =
     (if c \<le> 0 then quantile_scan h target seen (Suc i) cs
      else if target \<le> seen + c
        then let fraction = (target - seen) / c in hist_lower h i + fraction * (hist_upper h i - hist_lower h i)
      else quantile_scan h target (seen + c) (Suc i) cs)"

definition quantile :: "DecayingHistogram \<Rightarrow> real \<Rightarrow> real" where
  "quantile h q = (if h_total h \<le> 0 then 0 else quantile_scan h (max 0 (min q 1) * h_total h) 0 0 (h_counts h))"

definition hist_mean :: "DecayingHistogram \<Rightarrow> real" where
  "hist_mean h = (if 0 < h_total h then h_sum h / h_total h else 0)"

definition censored_fraction :: "DecayingHistogram \<Rightarrow> real" where
  "censored_fraction h =
     (let all = h_total h + h_censored h in if 0 < all then h_censored h / all else 0)"

definition hist_weight :: "DecayingHistogram \<Rightarrow> real" where
  "hist_weight h = h_total h / h_scale h"

section \<open>Invariant\<close>

definition layout_ok :: "DecayingHistogram \<Rightarrow> bool" where
  "layout_ok h \<longleftrightarrow>
     2 \<le> length (h_counts h) \<and> 0 < h_min_ms h \<and> h_min_ms h < h_max_ms h \<and>
     h_ratio h = (h_max_ms h / h_min_ms h) powr (1 / real (length (h_counts h) - 1)) \<and>
     h_log_ratio h = ln (h_ratio h) \<and> 1 \<le> h_gain h"

definition hist_inv :: "DecayingHistogram \<Rightarrow> bool" where
  "hist_inv h \<longleftrightarrow>
     layout_ok h \<and> (\<forall>c \<in> set (h_counts h). 0 \<le> c) \<and> h_total h = sum_list (h_counts h) \<and>
     1 \<le> h_scale h \<and> h_scale h \<le> kRenormalizeAt \<and> 0 \<le> h_censored h \<and>
     0 \<le> h_sum h \<and> h_sum h \<le> h_total h * h_max_ms h"

lemma layout_ratio:
  assumes "layout_ok h"
  shows "1 < h_ratio h" and "h_min_ms h * h_ratio h ^ (length (h_counts h) - 1) = h_max_ms h"
proof -
  let ?n = "real (length (h_counts h) - 1)"
  have q: "1 < h_max_ms h / h_min_ms h" and n: "0 < ?n" using assms by (auto simp: layout_ok_def)
  show "1 < h_ratio h" using assms q n by (auto simp: layout_ok_def intro!: gr_one_powr)
  have "h_ratio h ^ (length (h_counts h) - 1) = h_ratio h powr ?n"
    using \<open>1 < h_ratio h\<close> by (simp add: powr_realpow)
  also have "\<dots> = h_max_ms h / h_min_ms h"
    using assms q n by (simp add: layout_ok_def powr_powr)
  finally show "h_min_ms h * h_ratio h ^ (length (h_counts h) - 1) = h_max_ms h"
    using assms by (simp add: layout_ok_def)
qed

lemma hist_bin_bound: "layout_ok h \<Longrightarrow> hist_bin h v < length (h_counts h)"
  by (auto simp: hist_bin_def layout_ok_def Let_def)

lemma layout_renormalize [simp]: "layout_ok (renormalize_if_needed h) = layout_ok h"
  by (auto simp: renormalize_if_needed_def layout_ok_def)

lemma sum_list_divide: "sum_list (map (\<lambda>c. c / s) xs) = sum_list xs / (s::real)"
  by (induction xs) (simp_all add: add_divide_distrib)

lemma sum_list_update_add:
  "i < length xs \<Longrightarrow> sum_list (xs[i := xs ! i + d]) = sum_list xs + (d::real)"
  by (induction xs arbitrary: i) (auto split: nat.split)

text \<open>The invariant but for the upper bound on the scale, which renormalisation restores.\<close>

lemma renormalize_inv:
  assumes "layout_ok h" "\<forall>c \<in> set (h_counts h). 0 \<le> c" "h_total h = sum_list (h_counts h)"
    "1 \<le> h_scale h" "0 \<le> h_censored h" "0 \<le> h_sum h" "h_sum h \<le> h_total h * h_max_ms h"
  shows "hist_inv (renormalize_if_needed h)"
  using assms layout_renormalize [of h]
  by (auto simp: hist_inv_def renormalize_if_needed_def kRenormalizeAt_def sum_list_divide divide_right_mono
      simp del: layout_renormalize)

lemma make_hist_inv:
  "2 \<le> bins \<Longrightarrow> 0 < lo \<Longrightarrow> lo < hi \<Longrightarrow> 0 < decay \<Longrightarrow> decay \<le> 1 \<Longrightarrow> hist_inv (make_DecayingHistogram bins lo hi decay)"
  by (auto simp: hist_inv_def layout_ok_def make_DecayingHistogram_def Let_def kRenormalizeAt_def sum_list_replicate)

lemma hist_add_inv:
  assumes "hist_inv h" and "0 \<le> v"
  shows "hist_inv (snd (hist_add v h))"
proof -
  define w where "w = (if h_max_ms h < v then h_max_ms h else v)"
  have inv: "layout_ok h" "\<forall>c \<in> set (h_counts h). 0 \<le> c" "h_total h = sum_list (h_counts h)" "1 \<le> h_scale h"
    "0 \<le> h_censored h" "0 \<le> h_sum h" "h_sum h \<le> h_total h * h_max_ms h" using assms(1) unfolding hist_inv_def by blast+
  have b: "hist_bin h w < length (h_counts h)" using inv(1) by (rule hist_bin_bound)
  have w: "0 \<le> w" "w \<le> h_max_ms h" using assms inv(1) by (auto simp: layout_ok_def w_def)
  have "h_scale h * w \<le> h_scale h * h_max_ms h" using inv(4) w(2) by (intro mult_left_mono) auto
  then have "h_sum h + h_scale h * w \<le> (h_total h + h_scale h) * h_max_ms h"
    using inv(7) by (simp only: distrib_right)
  moreover have "1 \<le> h_scale h * h_gain h" using inv(1,4) mult_mono [of 1 "h_scale h" 1 "h_gain h"] by (simp add: layout_ok_def)
  moreover have "\<forall>c \<in> set ((h_counts h)[hist_bin h w := h_counts h ! hist_bin h w + h_scale h]). 0 \<le> c"
    using inv(2,4) b by (auto dest!: subsetD [OF set_update_subset_insert] simp: nth_mem)
  moreover have "0 \<le> h_sum h + h_scale h * w" using inv(4,6) w(1) by simp
  ultimately show ?thesis unfolding hist_add_def Let_def snd_conv w_def [symmetric]
    using inv(1,3,5) b by (intro renormalize_inv) (simp_all add: layout_ok_def sum_list_update_add)
qed

lemma hist_add_censored_inv:
  assumes "hist_inv h"
  shows "hist_inv (hist_add_censored h)"
proof -
  have "1 \<le> h_scale h * h_gain h"
    using assms mult_mono [of 1 "h_scale h" 1 "h_gain h"] by (simp add: hist_inv_def layout_ok_def)
  then show ?thesis unfolding hist_add_censored_def
    using assms by (intro renormalize_inv) (auto simp: hist_inv_def layout_ok_def)
qed

lemma hist_shrink_inv:
  assumes "hist_inv h" and "0 \<le> f"
  shows "hist_inv (hist_shrink f h)"
proof -
  have "h_sum h * f \<le> h_total h * h_max_ms h * f" using assms by (intro mult_right_mono) (auto simp: hist_inv_def)
  then show ?thesis using assms
    by (auto simp: hist_inv_def layout_ok_def hist_shrink_def sum_list_mult_const ac_simps)
qed

section \<open>Quantiles\<close>

text \<open>Bins are adjacent and end at the largest duration.\<close>

lemma hist_edges:
  assumes "layout_ok h"
  shows "0 \<le> hist_lower h i" "hist_lower h i \<le> hist_upper h i" "hist_lower h (Suc i) = hist_upper h i"
    "i < length (h_counts h) \<Longrightarrow> hist_upper h i \<le> h_max_ms h"
proof -
  have r: "1 \<le> h_ratio h" using layout_ratio(1) [OF assms] by simp
  have m: "0 < h_min_ms h" using assms by (simp add: layout_ok_def)
  show "0 \<le> hist_lower h i" using r m by (simp add: hist_lower_def)
  show "hist_lower h (Suc i) = hist_upper h i" by (simp add: hist_lower_def hist_upper_def)
  have "0 \<le> hist_upper h 0" using m by (simp add: hist_upper_def)
  moreover have "h_ratio h ^ (i - 1) \<le> h_ratio h ^ i" using r by (intro power_increasing) auto
  ultimately show "hist_lower h i \<le> hist_upper h i" using m r by (simp add: hist_lower_def hist_upper_def)
  assume "i < length (h_counts h)"
  then have "h_ratio h ^ i \<le> h_ratio h ^ (length (h_counts h) - 1)" using r by (intro power_increasing) auto
  then show "hist_upper h i \<le> h_max_ms h"
    using m layout_ratio(2) [OF assms] by (metis hist_upper_def mult_left_mono less_imp_le)
qed

lemma hist_upper_last: "layout_ok h \<Longrightarrow> hist_upper h (length (h_counts h) - 1) = h_max_ms h"
  unfolding hist_upper_def by (rule layout_ratio(2))

lemma interpolate:
  fixes a b f :: real
  assumes "a \<le> b" "0 \<le> f" "f \<le> 1"
  shows "a \<le> a + f * (b - a)" "a + f * (b - a) \<le> b"
proof -
  have "0 \<le> b - a" using assms(1) by simp
  then show "a \<le> a + f * (b - a)" "a + f * (b - a) \<le> b"
    using assms mult_left_le_one_le [of "b - a" f] by auto
qed

lemma quantile_scan_bounds:
  assumes h: "layout_ok h"
  shows "i + length cs = length (h_counts h) \<Longrightarrow> seen \<le> target \<Longrightarrow>
    hist_lower h i \<le> quantile_scan h target seen i cs \<and> quantile_scan h target seen i cs \<le> h_max_ms h"
proof (induction cs arbitrary: i seen)
  case Nil
  moreover have "Suc (length (h_counts h) - 1) = length (h_counts h)" using h unfolding layout_ok_def by linarith
  ultimately have "hist_lower h i = h_max_ms h"
    using hist_upper_last [OF h] hist_edges(3) [OF h, of "length (h_counts h) - 1"] by simp
  then show ?case using hist_upper_last [OF h] by simp
next
  case (Cons c cs)
  note edges = hist_edges [OF h, of i] hist_edges(4) [OF h, of i]
  have max: "hist_upper h i \<le> h_max_ms h" using edges Cons.prems(1) by simp
  consider "c \<le> 0" | "0 < c" "target \<le> seen + c" | "0 < c" "seen + c < target" by linarith
  then show ?case
  proof cases
    case 1
    then show ?thesis using Cons.IH [of "Suc i" seen] Cons.prems edges(2,3) by auto
  next
    case 2
    then show ?thesis
      using interpolate [OF edges(2), of "(target - seen) / c"] Cons.prems(2) max by (auto simp: Let_def)
  next
    case 3
    then show ?thesis using Cons.IH [of "Suc i" "seen + c"] Cons.prems edges(2,3) by auto
  qed
qed

lemma quantile_scan_mono:
  assumes h: "layout_ok h" and t: "t1 \<le> t2"
  shows "i + length cs = length (h_counts h) \<Longrightarrow> seen \<le> t1 \<Longrightarrow>
    quantile_scan h t1 seen i cs \<le> quantile_scan h t2 seen i cs"
proof (induction cs arbitrary: i seen)
  case (Cons c cs)
  note edges = hist_edges [OF h, of i]
  consider "c \<le> 0" | "0 < c" "t2 \<le> seen + c" | "0 < c" "t1 \<le> seen + c" "seen + c < t2" | "0 < c" "seen + c < t1"
    by linarith
  then show ?case
  proof cases
    case 2
    then have "(t1 - seen) * (hist_upper h i - hist_lower h i) / c \<le> (t2 - seen) * (hist_upper h i - hist_lower h i) / c"
      using t edges(2) by (intro divide_right_mono mult_right_mono) auto
    then show ?thesis using 2 t by (simp add: Let_def)
  next
    case 3
    have "quantile_scan h t1 seen i (c # cs) \<le> hist_upper h i"
      using 3 Cons.prems(2) interpolate(2) [OF edges(2), of "(t1 - seen) / c"] by (simp add: Let_def)
    also have "\<dots> \<le> quantile_scan h t2 (seen + c) (Suc i) cs"
      using 3 quantile_scan_bounds [OF h, of "Suc i" cs "seen + c" t2] Cons.prems(1) edges(3) by simp
    finally show ?thesis using 3 by simp
  qed (use Cons t in \<open>simp_all\<close>)
qed simp

lemma quantile_bounds:
  assumes "hist_inv h"
  shows "0 \<le> quantile h q" "quantile h q \<le> h_max_ms h"
proof -
  have h: "layout_ok h" and "0 < h_max_ms h" using assms by (auto simp: hist_inv_def layout_ok_def)
  moreover have "0 \<le> max 0 (min q 1) * h_total h" if "0 < h_total h" using that by simp
  ultimately show "0 \<le> quantile h q" "quantile h q \<le> h_max_ms h"
    using quantile_scan_bounds [OF h, of 0 "h_counts h" 0 "max 0 (min q 1) * h_total h"] hist_edges(1) [OF h, of 0]
    by (auto simp: quantile_def)
qed

lemma quantile_mono: "hist_inv h \<Longrightarrow> q \<le> q' \<Longrightarrow> quantile h q \<le> quantile h q'"
  unfolding quantile_def by (auto intro!: quantile_scan_mono mult_right_mono simp: hist_inv_def)

lemma hist_mean_bounds: "hist_inv h \<Longrightarrow> 0 \<le> hist_mean h \<and> hist_mean h \<le> h_max_ms h"
  by (auto simp: hist_mean_def hist_inv_def layout_ok_def divide_le_eq mult.commute)

lemma censored_fraction_bounds: "hist_inv h \<Longrightarrow> 0 \<le> censored_fraction h \<and> censored_fraction h \<le> 1"
  using sum_list_nonneg [of "h_counts h"] by (auto simp: censored_fraction_def hist_inv_def Let_def)

section \<open>Decay\<close>

text \<open>What happens to a histogram: an observation, an overrun attempt, an idle gap that fades its history.\<close>

datatype HistEvent = Observed real | Overrun | Idle real

fun hist_event :: "HistEvent \<Rightarrow> DecayingHistogram \<Rightarrow> DecayingHistogram" where
  "hist_event (Observed v) h = snd (hist_add v h)"
| "hist_event Overrun h = hist_add_censored h"
| "hist_event (Idle f) h = hist_shrink f h"

text \<open>
  The specification keeps plain weights and multiplies all of them by the decay after each
  observation or overrun.
\<close>

record Weights =
  w_bin :: "nat \<Rightarrow> real"
  w_total :: real
  w_sum :: real
  w_censored :: real
  w_observations :: nat

definition no_weights :: Weights where
  "no_weights = \<lparr>w_bin = \<lambda>b. 0, w_total = 0, w_sum = 0, w_censored = 0, w_observations = 0\<rparr>"

fun decayed_event :: "real \<Rightarrow> real \<Rightarrow> (real \<Rightarrow> nat) \<Rightarrow> HistEvent \<Rightarrow> Weights \<Rightarrow> Weights" where
  "decayed_event decay hi bin (Observed v) w =
     \<lparr>w_bin = \<lambda>b. decay * (w_bin w b + (if b = bin (min v hi) then 1 else 0)), w_total = decay * (w_total w + 1),
      w_sum = decay * (w_sum w + min v hi), w_censored = decay * w_censored w, w_observations = Suc (w_observations w)\<rparr>"
| "decayed_event decay hi bin Overrun w =
     \<lparr>w_bin = \<lambda>b. decay * w_bin w b, w_total = decay * w_total w, w_sum = decay * w_sum w,
      w_censored = decay * (w_censored w + 1), w_observations = w_observations w\<rparr>"
| "decayed_event decay hi bin (Idle f) w =
     \<lparr>w_bin = \<lambda>b. f * w_bin w b, w_total = f * w_total w, w_sum = f * w_sum w, w_censored = f * w_censored w,
      w_observations = w_observations w\<rparr>"

definition weights_of :: "DecayingHistogram \<Rightarrow> Weights" where
  "weights_of h =
     \<lparr>w_bin = \<lambda>b. if b < length (h_counts h) then h_counts h ! b / h_scale h else 0, w_total = h_total h / h_scale h,
      w_sum = h_sum h / h_scale h, w_censored = h_censored h / h_scale h, w_observations = h_observations h\<rparr>"

lemma weights_of_renormalize [simp]: "0 < h_scale h \<Longrightarrow> weights_of (renormalize_if_needed h) = weights_of h"
  by (auto simp: weights_of_def renormalize_if_needed_def)

text \<open>The layout, which no event changes.\<close>

definition layout :: "DecayingHistogram \<Rightarrow> nat \<times> real \<times> real \<times> real \<times> real \<times> real" where
  "layout h = (length (h_counts h), h_min_ms h, h_max_ms h, h_ratio h, h_log_ratio h, h_gain h)"

lemma layout_event [simp]: "layout (hist_event e h) = layout h"
  by (cases e) (auto simp: layout_def hist_add_def hist_add_censored_def hist_shrink_def renormalize_if_needed_def Let_def)

lemma layout_determines:
  "layout h = layout h' \<Longrightarrow> layout_ok h = layout_ok h' \<and> hist_bin h = hist_bin h' \<and> h_max_ms h = h_max_ms h' \<and> h_gain h = h_gain h'"
  by (auto simp: layout_def layout_ok_def hist_bin_def fun_eq_iff)

lemma scale_event:
  assumes "layout_ok h" "1 \<le> h_scale h" "h_scale h \<le> kRenormalizeAt"
  shows "1 \<le> h_scale (hist_event e h) \<and> h_scale (hist_event e h) \<le> kRenormalizeAt"
proof -
  have "1 \<le> h_scale h * h_gain h" using assms mult_mono [of 1 "h_scale h" 1 "h_gain h"] by (simp add: layout_ok_def)
  moreover have "1 \<le> kRenormalizeAt" by (simp add: kRenormalizeAt_def)
  ultimately show ?thesis using assms
    by (cases e) (auto simp: hist_add_def hist_add_censored_def hist_shrink_def renormalize_if_needed_def Let_def)
qed

lemma weights_of_event:
  assumes "layout_ok h" "1 \<le> h_scale h"
  shows "weights_of (hist_event e h) = decayed_event (1 / h_gain h) (h_max_ms h) (hist_bin h) e (weights_of h)"
proof -
  have pos: "0 < h_scale h" "0 < h_gain h" "0 < h_scale h * h_gain h" using assms by (auto simp: layout_ok_def)
  show ?thesis
  proof (cases e)
    case (Observed v)
    have w: "(if h_max_ms h < v then h_max_ms h else v) = min v (h_max_ms h)" by auto
    have "hist_bin h (min v (h_max_ms h)) < length (h_counts h)" using assms(1) by (rule hist_bin_bound)
    then show ?thesis unfolding Observed hist_event.simps hist_add_def Let_def snd_conv w using pos
      by (subst weights_of_renormalize) (auto simp: weights_of_def nth_list_update field_simps fun_eq_iff)
  next
    case Overrun
    show ?thesis unfolding Overrun hist_event.simps hist_add_censored_def using pos
      by (subst weights_of_renormalize) (auto simp: weights_of_def field_simps fun_eq_iff)
  next
    case (Idle f)
    then show ?thesis using pos by (auto simp: hist_shrink_def weights_of_def field_simps fun_eq_iff)
  qed
qed

lemma weights_of_history:
  assumes "layout_ok h" "1 \<le> h_scale h" "h_scale h \<le> kRenormalizeAt"
  shows "weights_of (fold hist_event es h) = fold (decayed_event (1 / h_gain h) (h_max_ms h) (hist_bin h)) es (weights_of h)"
    and "h_scale (fold hist_event es h) \<le> kRenormalizeAt"
proof -
  have "weights_of (fold hist_event es h) = fold (decayed_event (1 / h_gain h) (h_max_ms h) (hist_bin h)) es (weights_of h) \<and>
      h_scale (fold hist_event es h) \<le> kRenormalizeAt"
    using assms
  proof (induction es arbitrary: h)
    case (Cons e es)
    have "layout_ok (hist_event e h)" "hist_bin (hist_event e h) = hist_bin h"
      "h_max_ms (hist_event e h) = h_max_ms h" "h_gain (hist_event e h) = h_gain h"
      using layout_determines [OF layout_event [of e h]] Cons.prems(1) by simp_all
    with Cons.IH [of "hist_event e h"] scale_event [OF Cons.prems] weights_of_event [OF Cons.prems(1,2)] show ?case by simp
  qed simp
  then show "weights_of (fold hist_event es h) = fold (decayed_event (1 / h_gain h) (h_max_ms h) (hist_bin h)) es (weights_of h)"
    "h_scale (fold hist_event es h) \<le> kRenormalizeAt" by auto
qed

fun event_ok :: "HistEvent \<Rightarrow> bool" where
  "event_ok (Observed v) = (0 \<le> v)"
| "event_ok Overrun = True"
| "event_ok (Idle f) = (0 \<le> f)"

lemma history_inv: "hist_inv h \<Longrightarrow> list_all event_ok es \<Longrightarrow> hist_inv (fold hist_event es h)"
proof (induction es arbitrary: h)
  case (Cons e es)
  then have "hist_inv (hist_event e h)"
    by (cases e) (auto intro: hist_add_inv hist_add_censored_inv hist_shrink_inv)
  then show ?case using Cons by simp
qed simp

text \<open>Rescaling all weights leaves what is read from a histogram alone.\<close>

lemma quantile_scan_scaled:
  assumes "0 < s" "length (h_counts h') = length (h_counts h)" "hist_lower h' = hist_lower h" "hist_upper h' = hist_upper h"
  shows "quantile_scan h' (t / s) (seen / s) i (map (\<lambda>c. c / s) cs) = quantile_scan h t seen i cs"
proof (induction cs arbitrary: i seen)
  case (Cons c cs)
  have "t / s \<le> seen / s + c / s \<longleftrightarrow> t \<le> seen + c" "c / s \<le> 0 \<longleftrightarrow> c \<le> 0" "seen / s + c / s = (seen + c) / s"
    using assms(1) by (simp_all add: field_simps)
  moreover have "(t / s - seen / s) * s = t - seen"
    using assms(1) by (simp add: left_diff_distrib)
  ultimately show ?case using Cons assms by (simp add: Let_def)
qed (use assms in simp)

section \<open>Properties\<close>

text \<open>
  C22. The histogram implements exponential decay without touching old counts: over any
  history of observations, overruns and idle gaps, its counts divided by the running scale are
  the weights of the specification, which multiplies every retained weight by the decay at
  each event; the totals used for the mean and the censored fraction agree as well, and the
  scale never exceeds the renormalisation bound.
\<close>

theorem histogram_refines_decay:
  assumes "2 \<le> bins" "0 < lo" "lo < hi" "0 < decay" "decay \<le> 1"
  defines "h \<equiv> make_DecayingHistogram bins lo hi decay"
  shows "weights_of (fold hist_event es h) = fold (decayed_event decay hi (hist_bin h)) es no_weights \<and>
    h_scale (fold hist_event es h) \<le> kRenormalizeAt"
proof -
  have inv: "hist_inv h" unfolding h_def using assms by (intro make_hist_inv)
  have fields: "1 / h_gain h = decay" "h_max_ms h = hi" "weights_of h = no_weights"
    using assms(4) by (auto simp: h_def make_DecayingHistogram_def Let_def weights_of_def no_weights_def fun_eq_iff)
  show ?thesis using weights_of_history [of h es] inv fields by (simp add: hist_inv_def)
qed

theorem histogram_refines_decay_witness:
  "w_total (weights_of (fold hist_event [Observed 3, Overrun, Observed 5] (make_DecayingHistogram 8 2 256 (1 / 2)))) = 5 / 8"
  using histogram_refines_decay [of 8 2 256 "1 / 2" "[Observed 3, Overrun, Observed 5]"]
  by (simp add: no_weights_def)

text \<open>
  C23. What the predictor reads from a histogram is well behaved: after any history of
  non-negative durations, every quantile lies between zero and the largest duration of
  the layout and a larger fraction never gives a smaller quantile; the mean lies in the same
  range and the censored fraction between zero and one.
\<close>

theorem histogram_summaries_bounded:
  assumes "2 \<le> bins" "0 < lo" "lo < hi" "0 < decay" "decay \<le> 1" and "list_all event_ok es" and "q \<le> q'"
  defines "h \<equiv> fold hist_event es (make_DecayingHistogram bins lo hi decay)"
  shows "0 \<le> quantile h q \<and> quantile h q \<le> quantile h q' \<and> quantile h q' \<le> hi \<and>
    0 \<le> hist_mean h \<and> hist_mean h \<le> hi \<and> 0 \<le> censored_fraction h \<and> censored_fraction h \<le> 1"
proof -
  have inv: "hist_inv h" unfolding h_def using assms by (intro history_inv make_hist_inv)
  have "layout (fold hist_event es h0) = layout h0" for h0 by (induction es arbitrary: h0) simp_all
  then have "h_max_ms h = h_max_ms (make_DecayingHistogram bins lo hi decay)"
    unfolding h_def by (intro layout_determines [THEN conjunct2, THEN conjunct2, THEN conjunct1])
  then have "h_max_ms h = hi" by (simp add: make_DecayingHistogram_def Let_def)
  then show ?thesis
    using quantile_bounds [OF inv] quantile_mono [OF inv assms(7)] hist_mean_bounds [OF inv] censored_fraction_bounds [OF inv]
    by auto
qed

theorem histogram_summaries_bounded_witness:
  "quantile (fold hist_event [Observed 3, Idle (1 / 2), Observed 5] (make_DecayingHistogram 8 2 256 (1 / 2))) (1 / 2) \<le> 256"
  using histogram_summaries_bounded [of 8 2 256 "1 / 2" "[Observed 3, Idle (1 / 2), Observed 5]" "1 / 2" "1 / 2"] by simp



end
