(* ===== verification/Predictor.thy ===== *)
theory Predictor
  imports Histogram Charconv Message "HOL-Library.AList"
begin

text \<open>
  The per-key duration predictor, \<^verbatim>\<open>include/ml/duration_predictor.hpp\<close> and
  \<^verbatim>\<open>src/ml/duration_predictor.cpp\<close>: validation of its configuration, sharded bounded tracking of
  keys with least-recently-active recycling, learning from durations and overruns, tier boundaries from
  the global histogram, prediction with hysteresis, and the keys messages map to. Clock
  readings are arguments, the hash of a key is a parameter. A reference that would be out of
  range or dangling makes an operation \<open>None\<close>; on reachable predictors none is.
\<close>

section \<open>Data\<close>

definition kMaxPredictorKeyBytes :: nat where "kMaxPredictorKeyBytes = 256"
definition kMaxJobKeyBytes :: nat where "kMaxJobKeyBytes = 128"

datatype DurationSummary = Median | P75 | Mean
datatype PredictionStatus = Predicted | Unready | ColdKey | HighSpread | Censored | StaleKey | InvalidKey

record DurationPrediction =
  dp_estimate_ms :: "real option"
  dp_bucket :: nat
  dp_status :: PredictionStatus
  dp_key_observations :: nat

record PerKeyPredictorConfig =
  pc_num_levels :: nat
  pc_default_priority :: nat
  pc_summary :: DurationSummary
  pc_min_samples :: nat
  pc_spread_quantile :: double
  pc_max_spread_ratio :: double
  pc_max_censored_fraction :: double
  pc_decay :: double
  pc_global_decay :: double
  pc_time_half_life :: millis
  pc_stale_after :: millis
  pc_histogram_bins :: nat
  pc_min_ms :: double
  pc_max_ms :: double
  pc_max_keys :: nat
  pc_shards :: nat
  pc_idle_eviction :: millis
  pc_cold_eviction_grace :: millis
  pc_boundary_refresh_every :: nat
  pc_global_min_samples :: nat
  pc_hysteresis :: double

record BoundarySnapshot =
  bs_sequence :: nat
  bs_boundaries_ms :: "real list"

record Entry =
  e_histogram :: DecayingHistogram
  e_last_activity :: time
  e_last_decay :: time
  e_tier :: int

text \<open>
  The recency list holds pointers to the keys, most recently active first; an entry's
  \<^verbatim>\<open>position\<close> iterator is the place of its key in that list.
\<close>

record Shard =
  sh_keys :: "(string \<times> Entry) list"
  sh_recency :: "string list"
  sh_evictions :: nat

record PerKeyPredictor =
  pp_config :: PerKeyPredictorConfig
  pp_shards :: "Shard list"
  pp_per_shard_cap :: nat
  pp_global :: DecayingHistogram
  pp_snapshot :: "BoundarySnapshot option"
  pp_global_observations :: nat
  pp_snapshots :: nat
  pp_degenerate :: nat
  pp_rejected :: nat
  pp_overflow_count :: nat
  pp_observed :: nat
  pp_saturated :: nat
  pp_censored :: nat

record PredictorStats =
  ps_keys :: nat
  ps_observations :: nat
  ps_rejected :: nat
  ps_evictions :: nat
  ps_overflow_observations :: nat
  ps_saturated :: nat
  ps_censored :: nat
  ps_snapshots :: nat
  ps_degenerate_refreshes :: nat

section \<open>Configuration\<close>

text \<open>The value of a finite double.\<close>

definition dval :: "double \<Rightarrow> real" where
  "dval d = (case d of Finite x \<Rightarrow> x | _ \<Rightarrow> 0)"

definition validated :: "PerKeyPredictorConfig \<Rightarrow> MlError + PerKeyPredictorConfig" where
  "validated c =
     (if pc_num_levels c < 1 then Inl (InvalidArgument ''num_levels must be >= 1'')
      else if pc_num_levels c \<le> pc_default_priority c then Inl (InvalidArgument ''default_priority must be < num_levels'')
      else if pc_min_samples c < 1 then Inl (InvalidArgument ''min_samples must be >= 1'')
      else if \<not> isfinite (pc_spread_quantile c) \<or> dval (pc_spread_quantile c) \<le> 1 / 2 \<or> 1 < dval (pc_spread_quantile c)
        then Inl (InvalidArgument ''spread_quantile must be in (0.5, 1]'')
      else if \<not> isfinite (pc_max_spread_ratio c) \<or> dval (pc_max_spread_ratio c) < 1
        then Inl (InvalidArgument ''max_spread_ratio must be >= 1'')
      else if \<not> isfinite (pc_max_censored_fraction c) \<or> dval (pc_max_censored_fraction c) < 0 \<or> 1 < dval (pc_max_censored_fraction c)
        then Inl (InvalidArgument ''max_censored_fraction must be in [0, 1]'')
      else if list_ex (\<lambda>d. \<not> isfinite d \<or> dval d \<le> 0 \<or> 1 < dval d) [pc_decay c, pc_global_decay c]
        then Inl (InvalidArgument ''decay must be in (0, 1]'')
      else if pc_time_half_life c < 0 \<or> pc_stale_after c < 0 \<or> pc_idle_eviction c < 0 \<or> pc_cold_eviction_grace c < 0
        then Inl (InvalidArgument ''durations must be non-negative'')
      else if pc_histogram_bins c < 8 \<or> 1024 < pc_histogram_bins c then Inl (InvalidArgument ''histogram_bins must be 8..1024'')
      else if \<not> isfinite (pc_min_ms c) \<or> \<not> isfinite (pc_max_ms c) \<or> dval (pc_min_ms c) \<le> 0 \<or> dval (pc_max_ms c) \<le> dval (pc_min_ms c)
        then Inl (InvalidArgument ''require 0 < min_ms < max_ms'')
      else if pc_shards c < 1 \<or> 256 < pc_shards c then Inl (InvalidArgument ''shards must be 1..256'')
      else if pc_max_keys c < pc_shards c then Inl (InvalidArgument ''max_keys must be >= shards'')
      else if pc_boundary_refresh_every c < 1 then Inl (InvalidArgument ''boundary_refresh_every must be >= 1'')
      else if \<not> isfinite (pc_hysteresis c) \<or> dval (pc_hysteresis c) < 0 \<or> 1 \<le> dval (pc_hysteresis c)
        then Inl (InvalidArgument ''hysteresis must be in [0, 1)'')
      else if pc_num_levels c = 1 \<and> pc_default_priority c \<noteq> 0 then Inl (InvalidArgument ''one level requires default_priority 0'')
      else Inr c)"

definition usable_key :: "string \<Rightarrow> bool" where
  "usable_key key = (key \<noteq> [] \<and> length key \<le> kMaxPredictorKeyBytes)"

text \<open>\<^verbatim>\<open>std::upper_bound\<close>: the first boundary above the value; the position is converted to eight bits.\<close>

definition tier_of :: "real list \<Rightarrow> real \<Rightarrow> nat" where
  "tier_of boundaries v = length (takeWhile (\<lambda>b. \<not> v < b) boundaries) mod 256"

definition make_histogram :: "PerKeyPredictorConfig \<Rightarrow> double \<Rightarrow> DecayingHistogram" where
  "make_histogram c decay = make_DecayingHistogram (pc_histogram_bins c) (dval (pc_min_ms c)) (dval (pc_max_ms c)) (dval decay)"

definition make_PerKeyPredictor :: "PerKeyPredictorConfig \<Rightarrow> MlError + PerKeyPredictor" where
  "make_PerKeyPredictor config =
     (case validated config of
        Inl e \<Rightarrow> Inl e
      | Inr c \<Rightarrow> Inr \<lparr>pp_config = c, pp_shards = replicate (pc_shards c) \<lparr>sh_keys = [], sh_recency = [], sh_evictions = 0\<rparr>,
          pp_per_shard_cap = (pc_max_keys c + pc_shards c - 1) div pc_shards c,
          pp_global = make_histogram c (pc_global_decay c),
          pp_snapshot = (if pc_num_levels c = 1 then Some \<lparr>bs_sequence = 0, bs_boundaries_ms = []\<rparr> else None),
          pp_global_observations = 0, pp_snapshots = 0, pp_degenerate = 0, pp_rejected = 0, pp_overflow_count = 0,
          pp_observed = 0, pp_saturated = 0, pp_censored = 0\<rparr>)"

definition model_version :: "PerKeyPredictor \<Rightarrow> string" where
  "model_version p =
     ''per-key-v2;boundaries='' @ nat_to_string (case pp_snapshot p of None \<Rightarrow> 0 | Some s \<Rightarrow> bs_sequence s)"

definition predictor_stats :: "PerKeyPredictor \<Rightarrow> PredictorStats" where
  "predictor_stats p = \<lparr>ps_keys = sum_list (map (\<lambda>s. length (sh_keys s)) (pp_shards p)), ps_observations = pp_observed p,
     ps_rejected = pp_rejected p, ps_evictions = sum_list (map sh_evictions (pp_shards p)),
     ps_overflow_observations = pp_overflow_count p, ps_saturated = pp_saturated p, ps_censored = pp_censored p,
     ps_snapshots = pp_snapshots p, ps_degenerate_refreshes = pp_degenerate p\<rparr>"

section \<open>Keys of a shard\<close>

definition fallback :: "PerKeyPredictorConfig \<Rightarrow> PredictionStatus \<Rightarrow> nat \<Rightarrow> DurationPrediction" where
  "fallback c status seen =
     \<lparr>dp_estimate_ms = None, dp_bucket = pc_default_priority c, dp_status = status, dp_key_observations = seen\<rparr>"

definition stale :: "PerKeyPredictorConfig \<Rightarrow> Entry \<Rightarrow> time \<Rightarrow> bool" where
  "stale c entry now = (0 < pc_stale_after c \<and> ms_to_ns (pc_stale_after c) < now - e_last_activity entry)"

definition new_entry :: "PerKeyPredictorConfig \<Rightarrow> time \<Rightarrow> Entry" where
  "new_entry c now = \<lparr>e_histogram = make_histogram c (pc_decay c), e_last_activity = now, e_last_decay = now, e_tier = -1\<rparr>"

definition admit :: "PerKeyPredictorConfig \<Rightarrow> string \<Rightarrow> time \<Rightarrow> Shard \<Rightarrow> Shard" where
  "admit c key now sh = sh\<lparr>sh_keys := AList.update key (new_entry c now) (sh_keys sh), sh_recency := key # sh_recency sh\<rparr>"

text \<open>
  The history of a tracked key, brought up to date: stale evidence is discarded, an idle gap of a
  second or more fades it. The gap is the difference of two clock readings in milliseconds.
\<close>

definition refresh_entry :: "PerKeyPredictorConfig \<Rightarrow> time \<Rightarrow> Entry \<Rightarrow> Entry" where
  "refresh_entry c now entry =
     (if stale c entry now
        then entry\<lparr>e_histogram := make_histogram c (pc_decay c), e_tier := -1, e_last_decay := now\<rparr>
      else if 0 < pc_time_half_life c
        then let gap = real_of_int (now - e_last_decay entry) / 1000000 in
          if 1000 \<le> gap
            then entry\<lparr>e_histogram := hist_shrink ((1 / 2) powr (gap / real_of_int (pc_time_half_life c))) (e_histogram entry),
                       e_last_decay := now\<rparr>
            else entry
      else entry)"

text \<open>
  \<^verbatim>\<open>touch_locked\<close>: the Boolean is false when the key cannot be tracked. The least recently
  active key is looked up through the recency list; a missing one is \<open>None\<close>.
\<close>

definition touch_locked :: "PerKeyPredictorConfig \<Rightarrow> nat \<Rightarrow> Shard \<Rightarrow> string \<Rightarrow> time \<Rightarrow> (bool \<times> Shard) option" where
  "touch_locked c cap sh key now =
     (case map_of (sh_keys sh) key of
        None \<Rightarrow>
          if cap \<le> length (sh_keys sh)
          then if sh_recency sh = [] then None
            else (case map_of (sh_keys sh) (last (sh_recency sh)) of
                None \<Rightarrow> None
              | Some old \<Rightarrow>
                  let cold = h_observations (e_histogram old) < pc_min_samples c;
                      limit = (if cold then pc_cold_eviction_grace c else pc_idle_eviction c)
                  in if limit \<le> 0 \<or> now - e_last_activity old < ms_to_ns limit then Some (False, sh)
                    else Some (True, admit c key now
                      (sh\<lparr>sh_recency := butlast (sh_recency sh), sh_keys := AList.delete (last (sh_recency sh)) (sh_keys sh),
                          sh_evictions := Suc (sh_evictions sh)\<rparr>)))
          else Some (True, admit c key now sh)
      | Some entry \<Rightarrow> Some (True, sh\<lparr>sh_keys := AList.update key (refresh_entry c now entry) (sh_keys sh)\<rparr>))"

text \<open>Moving a key to the front of the recency list (\<^verbatim>\<open>splice\<close>).\<close>

definition most_recent :: "string \<Rightarrow> Shard \<Rightarrow> Shard" where
  "most_recent key sh = sh\<lparr>sh_recency := key # remove1 key (sh_recency sh)\<rparr>"

text \<open>New evidence on a tracked key.\<close>

definition learn_entry :: "(DecayingHistogram \<Rightarrow> DecayingHistogram) \<Rightarrow> string \<Rightarrow> time \<Rightarrow> Shard \<Rightarrow> Shard option" where
  "learn_entry f key now sh =
     (case map_of (sh_keys sh) key of
        None \<Rightarrow> None
      | Some entry \<Rightarrow>
          Some (most_recent key (sh\<lparr>sh_keys :=
            AList.update key (entry\<lparr>e_histogram := f (e_histogram entry), e_last_activity := now\<rparr>) (sh_keys sh)\<rparr>)))"

section \<open>Prediction\<close>

definition entry_estimate :: "PerKeyPredictorConfig \<Rightarrow> DecayingHistogram \<Rightarrow> real" where
  "entry_estimate c h =
     (case pc_summary c of Median \<Rightarrow> quantile h (1 / 2) | P75 \<Rightarrow> quantile h (3 / 4) | Mean \<Rightarrow> hist_mean h)"

text \<open>The band in which a key keeps the tier it holds; \<open>None\<close> when a boundary is read out of range.\<close>

definition held_band :: "double \<Rightarrow> real list \<Rightarrow> nat \<Rightarrow> real \<Rightarrow> bool option" where
  "held_band hysteresis bounds held estimate =
     (if held = 0 \<or> held - 1 < length bounds
      then let low = (if held = 0 then 0 else bounds ! (held - 1) * (1 - dval hysteresis)) in
        Some (low \<le> estimate \<and> (length bounds \<le> held \<or> estimate < bounds ! held * (1 + dval hysteresis)))
      else None)"

definition evaluate :: "PerKeyPredictorConfig \<Rightarrow> Entry \<Rightarrow> BoundarySnapshot \<Rightarrow> (DurationPrediction \<times> Entry) option" where
  "evaluate c entry snap =
     (let h = e_histogram entry; seen = h_observations h in
      if seen < pc_min_samples c then Some (fallback c ColdKey seen, entry)
      else if dval (pc_max_censored_fraction c) < censored_fraction h then Some (fallback c Censored seen, entry)
      else
        let p50 = quantile h (1 / 2);
            spread = quantile h (dval (pc_spread_quantile c)) / max p50 (dval (pc_min_ms c))
        in if dval (pc_max_spread_ratio c) < spread then Some (fallback c HighSpread seen, entry)
        else
          let estimate = entry_estimate c h in
          if estimate < 0 then Some (fallback c HighSpread seen, entry)
          else
            let bounds = bs_boundaries_ms snap; tier = int (tier_of bounds estimate) in
            case (if 0 \<le> e_tier entry \<and> e_tier entry \<noteq> tier \<and> 0 < dval (pc_hysteresis c)
                  then held_band (pc_hysteresis c) bounds (nat (e_tier entry)) estimate else Some False) of
              None \<Rightarrow> None
            | Some keep \<Rightarrow>
                let t = (if keep then e_tier entry else tier) in
                Some (\<lparr>dp_estimate_ms = Some estimate, dp_bucket = nat (t mod 256), dp_status = Predicted, dp_key_observations = seen\<rparr>,
                      entry\<lparr>e_tier := t\<rparr>))"

section \<open>The predictor\<close>

text \<open>\<^verbatim>\<open>hash\<close> stands for \<^verbatim>\<open>std::hash<std::string_view>\<close>.\<close>

definition shard_index :: "(string \<Rightarrow> nat) \<Rightarrow> PerKeyPredictor \<Rightarrow> string \<Rightarrow> nat" where
  "shard_index hash p key = hash key mod length (pp_shards p)"

definition set_shard :: "nat \<Rightarrow> Shard \<Rightarrow> PerKeyPredictor \<Rightarrow> PerKeyPredictor" where
  "set_shard i sh p = p\<lparr>pp_shards := (pp_shards p)[i := sh]\<rparr>"

definition predict :: "(string \<Rightarrow> nat) \<Rightarrow> time \<Rightarrow> string \<Rightarrow> PerKeyPredictor \<Rightarrow> (DurationPrediction \<times> PerKeyPredictor) option" where
  "predict hash now key p =
     (let c = pp_config p in
      if \<not> usable_key key then Some (fallback c InvalidKey 0, p)
      else case pp_snapshot p of
          None \<Rightarrow> Some (fallback c Unready 0, p)
        | Some snap \<Rightarrow>
            let i = shard_index hash p key; sh = pp_shards p ! i in
            (case map_of (sh_keys sh) key of
               None \<Rightarrow> Some (fallback c ColdKey 0, p)
             | Some entry \<Rightarrow>
                 if stale c entry now then Some (fallback c StaleKey (h_observations (e_histogram entry)), p)
                 else (case evaluate c (entry\<lparr>e_last_activity := now\<rparr>) snap of
                     None \<Rightarrow> None
                   | Some (d, entry') \<Rightarrow>
                       Some (d, set_shard i (most_recent key (sh\<lparr>sh_keys := AList.update key entry' (sh_keys sh)\<rparr>)) p))))"

definition record_evidence ::
  "(string \<Rightarrow> nat) \<Rightarrow> (DecayingHistogram \<Rightarrow> DecayingHistogram) \<Rightarrow> string \<Rightarrow> time \<Rightarrow> PerKeyPredictor \<Rightarrow> (bool \<times> PerKeyPredictor) option" where
  "record_evidence hash f key now p =
     (let i = shard_index hash p key in
      case touch_locked (pp_config p) (pp_per_shard_cap p) (pp_shards p ! i) key now of
        None \<Rightarrow> None
      | Some (False, sh) \<Rightarrow> Some (False, (set_shard i sh p)\<lparr>pp_overflow_count := Suc (pp_overflow_count p)\<rparr>)
      | Some (True, sh) \<Rightarrow>
          (case learn_entry f key now sh of None \<Rightarrow> None | Some sh' \<Rightarrow> Some (True, set_shard i sh' p)))"

definition record_key :: "(string \<Rightarrow> nat) \<Rightarrow> string \<Rightarrow> real \<Rightarrow> time \<Rightarrow> PerKeyPredictor \<Rightarrow> (bool \<times> PerKeyPredictor) option" where
  "record_key hash key duration_ms now p = record_evidence hash (\<lambda>h. snd (hist_add duration_ms h)) key now p"

text \<open>\<^verbatim>\<open>is_sorted\<close> under \<^verbatim>\<open>less_equal\<close> means strictly increasing.\<close>

definition valid_boundaries :: "real list \<Rightarrow> bool" where
  "valid_boundaries b = (0 < hd b \<and> sorted_wrt (<) b)"

definition refresh_boundaries_locked :: "PerKeyPredictor \<Rightarrow> PerKeyPredictor" where
  "refresh_boundaries_locked p =
     (let c = pp_config p;
          fresh = map (\<lambda>i. quantile (pp_global p) (real (i + 1) / real (pc_num_levels c))) [0 ..< pc_num_levels c - 1]
      in if \<not> valid_boundaries fresh then p\<lparr>pp_degenerate := Suc (pp_degenerate p)\<rparr>
      else
        let publish = (\<lambda>bs. p\<lparr>pp_snapshots := Suc (pp_snapshots p),
              pp_snapshot := Some \<lparr>bs_sequence = Suc (pp_snapshots p), bs_boundaries_ms = bs\<rparr>\<rparr>)
        in case pp_snapshot p of
            None \<Rightarrow> publish fresh
          | Some current \<Rightarrow>
              let held = map2 (\<lambda>f old. if \<bar>f - old\<bar> \<le> dval (pc_hysteresis c) * old then old else f) fresh (bs_boundaries_ms current);
                  chosen = (if valid_boundaries held then held else fresh)
              in if chosen = bs_boundaries_ms current then p else publish chosen)"

text \<open>
  \<^verbatim>\<open>observe\<close> with a parent; the empty parent is none. Durations are doubles: a non-finite one is
  rejected.
\<close>

definition observe :: "(string \<Rightarrow> nat) \<Rightarrow> time \<Rightarrow> string \<Rightarrow> string \<Rightarrow> double \<Rightarrow> PerKeyPredictor \<Rightarrow> (bool \<times> PerKeyPredictor) option" where
  "observe hash now key parent duration_ms p =
     (if \<not> usable_key key \<or> parent \<noteq> [] \<and> \<not> usable_key parent \<or> \<not> isfinite duration_ms \<or> dval duration_ms < 0
      then Some (False, p\<lparr>pp_rejected := Suc (pp_rejected p)\<rparr>)
      else case record_key hash key (dval duration_ms) now p of
          None \<Rightarrow> None
        | Some (_, p1) \<Rightarrow>
            (case (if parent \<noteq> [] then record_key hash parent (dval duration_ms) now p1 else Some (True, p1)) of
               None \<Rightarrow> None
             | Some (_, p2) \<Rightarrow>
                 let (clamped, g) = hist_add (dval duration_ms) (pp_global p2);
                     p3 = p2\<lparr>pp_observed := Suc (pp_observed p2), pp_global := g,
                       pp_saturated := (if clamped then Suc (pp_saturated p2) else pp_saturated p2),
                       pp_global_observations := Suc (pp_global_observations p2)\<rparr>;
                     c = pp_config p3
                 in Some (True,
                      if 1 < pc_num_levels c \<and> pc_global_min_samples c \<le> pp_global_observations p3 \<and>
                         (pp_snapshot p3 = None \<or> pp_global_observations p3 mod pc_boundary_refresh_every c = 0)
                      then refresh_boundaries_locked p3 else p3)))"

definition observe_censored :: "(string \<Rightarrow> nat) \<Rightarrow> time \<Rightarrow> string \<Rightarrow> PerKeyPredictor \<Rightarrow> (bool \<times> PerKeyPredictor) option" where
  "observe_censored hash now key p =
     (if \<not> usable_key key then Some (False, p\<lparr>pp_rejected := Suc (pp_rejected p)\<rparr>)
      else case record_evidence hash hist_add_censored key now p of
          None \<Rightarrow> None
        | Some (False, p1) \<Rightarrow> Some (False, p1)
        | Some (True, p1) \<Rightarrow> Some (True, p1\<lparr>pp_censored := Suc (pp_censored p1)\<rparr>))"

end
