(* ===== verification/Predictor_Invariant.thy ===== *)
theory Predictor_Invariant
  imports Predictor
begin

text \<open>
  The invariant of the predictor: every shard tracks at most its share of keys, its recency
  list is a permutation of its keys, every histogram is well formed, held tiers are in
  range, and published boundaries are positive and strictly increasing. Prediction and
  learning keep it, and no operation reads out of range.
\<close>

section \<open>The invariant\<close>

definition config_ok :: "PerKeyPredictorConfig \<Rightarrow> bool" where
  "config_ok c \<longleftrightarrow> validated c = Inr c \<and> pc_num_levels c < 256"

definition hist_for :: "PerKeyPredictorConfig \<Rightarrow> DecayingHistogram \<Rightarrow> bool" where
  "hist_for c h \<longleftrightarrow> hist_inv h \<and> h_max_ms h = dval (pc_max_ms c)"

definition entry_ok :: "PerKeyPredictorConfig \<Rightarrow> Entry \<Rightarrow> bool" where
  "entry_ok c e \<longleftrightarrow> hist_for c (e_histogram e) \<and> -1 \<le> e_tier e \<and> e_tier e < int (pc_num_levels c)"

definition shard_ok :: "PerKeyPredictorConfig \<Rightarrow> nat \<Rightarrow> (string \<Rightarrow> bool) \<Rightarrow> Shard \<Rightarrow> bool" where
  "shard_ok c cap here sh \<longleftrightarrow>
     distinct (map fst (sh_keys sh)) \<and> mset (sh_recency sh) = mset (map fst (sh_keys sh)) \<and>
     length (sh_keys sh) \<le> cap \<and>
     (\<forall>k e. map_of (sh_keys sh) k = Some e \<longrightarrow> entry_ok c e \<and> usable_key k \<and> here k)"

definition boundaries_ok :: "PerKeyPredictorConfig \<Rightarrow> real list \<Rightarrow> bool" where
  "boundaries_ok c bs \<longleftrightarrow> length bs = pc_num_levels c - 1 \<and> sorted_wrt (<) bs \<and> (\<forall>b \<in> set bs. 0 < b)"

definition predictor_inv :: "(string \<Rightarrow> nat) \<Rightarrow> PerKeyPredictor \<Rightarrow> bool" where
  "predictor_inv hash p \<longleftrightarrow>
     (let c = pp_config p; n = length (pp_shards p) in
      config_ok c \<and> n = pc_shards c \<and> pp_per_shard_cap p = (pc_max_keys c + pc_shards c - 1) div pc_shards c \<and>
      (\<forall>i < n. shard_ok c (pp_per_shard_cap p) (\<lambda>k. hash k mod n = i) (pp_shards p ! i)) \<and>
      hist_for c (pp_global p) \<and>
      (case pp_snapshot p of None \<Rightarrow> 1 < pc_num_levels c | Some s \<Rightarrow> boundaries_ok c (bs_boundaries_ms s)))"

lemma config_okD:
  assumes "config_ok c"
  shows "1 \<le> pc_num_levels c" "pc_num_levels c < 256" "pc_default_priority c < pc_num_levels c"
    "1 \<le> pc_min_samples c" "0 < dval (pc_decay c)" "dval (pc_decay c) \<le> 1" "0 < dval (pc_global_decay c)" "dval (pc_global_decay c) \<le> 1"
    "8 \<le> pc_histogram_bins c" "0 < dval (pc_min_ms c)" "dval (pc_min_ms c) < dval (pc_max_ms c)"
    "1 \<le> pc_shards c" "pc_shards c \<le> pc_max_keys c" "0 \<le> dval (pc_hysteresis c)" "dval (pc_hysteresis c) < 1"
    "0 \<le> pc_idle_eviction c" "0 \<le> pc_cold_eviction_grace c" "0 \<le> pc_stale_after c"
  using assms by (auto simp: config_ok_def validated_def split: if_splits)

lemma per_shard_cap_pos: "config_ok c \<Longrightarrow> 1 \<le> (pc_max_keys c + pc_shards c - 1) div pc_shards c"
  using config_okD(12,13) [of c] by (simp add: Suc_le_eq div_greater_zero_iff)

lemma make_histogram_ok: "config_ok c \<Longrightarrow> d = pc_decay c \<or> d = pc_global_decay c \<Longrightarrow> hist_for c (make_histogram c d)"
  using config_okD [of c] unfolding hist_for_def make_histogram_def
  by (intro conjI make_hist_inv) (auto simp: make_DecayingHistogram_def Let_def)

lemma hist_for_add: "hist_for c h \<Longrightarrow> 0 \<le> v \<Longrightarrow> hist_for c (snd (hist_add v h))"
  by (auto simp: hist_for_def hist_add_inv) (auto simp: hist_add_def Let_def renormalize_if_needed_def)

lemma hist_for_censored: "hist_for c h \<Longrightarrow> hist_for c (hist_add_censored h)"
  by (auto simp: hist_for_def hist_add_censored_inv) (auto simp: hist_add_censored_def renormalize_if_needed_def)

lemma hist_for_shrink: "hist_for c h \<Longrightarrow> 0 \<le> f \<Longrightarrow> hist_for c (hist_shrink f h)"
  by (auto simp: hist_for_def hist_shrink_inv) (auto simp: hist_shrink_def)

section \<open>Shards\<close>

lemma shard_okD:
  "shard_ok c cap here sh \<Longrightarrow> map_of (sh_keys sh) k = Some e \<Longrightarrow> entry_ok c e \<and> usable_key k \<and> here k"
  by (simp add: shard_ok_def)

lemma shard_ok_recency: "shard_ok c cap here sh \<Longrightarrow> distinct (sh_recency sh) \<and> set (sh_recency sh) = fst ` set (sh_keys sh)"
  unfolding shard_ok_def by (metis distinct_count_atmost_1 mset_eq_setD list.set_map mset_eq_imp_distinct_iff)

lemma shard_ok_update:
  assumes "shard_ok c cap here sh" "map_of (sh_keys sh) key \<noteq> None" "entry_ok c e"
  shows "shard_ok c cap here (sh\<lparr>sh_keys := AList.update key e (sh_keys sh)\<rparr>)"
proof -
  have "key \<in> fst ` set (sh_keys sh)" using assms(2) by (simp add: map_of_eq_None_iff)
  then have keys: "map fst (AList.update key e (sh_keys sh)) = map fst (sh_keys sh)" by (simp add: AList.update_keys)
  then have "length (AList.update key e (sh_keys sh)) = length (sh_keys sh)" by (metis length_map)
  then show ?thesis using assms keys by (auto simp: shard_ok_def AList.update_conv' split: if_splits)
qed

lemma shard_ok_admit:
  assumes "shard_ok c cap here sh" "map_of (sh_keys sh) key = None" "length (sh_keys sh) < cap"
    "config_ok c" "usable_key key" "here key"
  shows "shard_ok c cap here (admit c key now sh)"
proof -
  have keys: "map fst (AList.update key (new_entry c now) (sh_keys sh)) = map fst (sh_keys sh) @ [key]"
    using assms(2) by (simp add: AList.update_keys map_of_eq_None_iff)
  then have "length (AList.update key (new_entry c now) (sh_keys sh)) = Suc (length (sh_keys sh))"
    by (metis length_map length_append_singleton)
  moreover have "entry_ok c (new_entry c now)"
    using assms(4) make_histogram_ok [of c] config_okD(1) [of c] by (auto simp: entry_ok_def new_entry_def)
  ultimately show ?thesis using assms keys
    by (auto simp: shard_ok_def admit_def AList.update_conv' map_of_eq_None_iff split: if_splits)
qed

lemma shard_ok_evict:
  assumes "shard_ok c cap here sh" "sh_recency sh \<noteq> []"
  shows "shard_ok c cap here (sh\<lparr>sh_recency := butlast (sh_recency sh),
      sh_keys := AList.delete (last (sh_recency sh)) (sh_keys sh), sh_evictions := n\<rparr>)"
    and "length (AList.delete (last (sh_recency sh)) (sh_keys sh)) < length (sh_keys sh)"
proof -
  let ?k = "last (sh_recency sh)"
  have "?k \<in> set (map fst (sh_keys sh))"
    using assms shard_ok_recency [OF assms(1)] last_in_set [OF assms(2)] by simp
  moreover have keys: "map fst (AList.delete ?k (sh_keys sh)) = remove1 ?k (map fst (sh_keys sh))"
    using assms(1) by (simp add: shard_ok_def AList.delete_keys distinct_remove1_removeAll)
  ultimately have "length (map fst (AList.delete ?k (sh_keys sh))) < length (map fst (sh_keys sh))"
    using length_pos_if_in_set [of ?k "map fst (sh_keys sh)"] by (simp add: length_remove1)
  then show len: "length (AList.delete ?k (sh_keys sh)) < length (sh_keys sh)" by simp
  have "mset (butlast (sh_recency sh)) = mset (sh_recency sh) - {#?k#}"
    using append_butlast_last_id [OF assms(2)] by (metis add_diff_cancel_right' mset.simps mset_append)
  then show "shard_ok c cap here (sh\<lparr>sh_recency := butlast (sh_recency sh),
      sh_keys := AList.delete ?k (sh_keys sh), sh_evictions := n\<rparr>)"
    using assms(1) keys len by (auto simp: shard_ok_def AList.delete_conv' AList.distinct_delete split: if_splits)
qed

lemma refresh_entry_ok: "config_ok c \<Longrightarrow> entry_ok c e \<Longrightarrow> entry_ok c (refresh_entry c now e)"
  using config_okD(1) [of c] make_histogram_ok [of c]
  by (auto simp: refresh_entry_def entry_ok_def Let_def intro!: hist_for_shrink)

lemma most_recent_ok:
  assumes "shard_ok c cap here sh" "map_of (sh_keys sh) key \<noteq> None"
  shows "shard_ok c cap here (most_recent key sh)"
proof -
  have "key \<in> fst ` set (sh_keys sh)" using assms(2) by (simp add: map_of_eq_None_iff)
  then have "mset (key # remove1 key (sh_recency sh)) = mset (sh_recency sh)" using shard_ok_recency [OF assms(1)] by simp
  then show ?thesis using assms(1) unfolding shard_ok_def most_recent_def by (simp del: mset.simps)
qed

text \<open>Finding or admitting a key never reads out of range and keeps the shard well formed.\<close>

lemma touch_locked_ok:
  assumes "shard_ok c cap here sh" "config_ok c" "1 \<le> cap" "usable_key key" "here key"
  shows "\<exists>tracked sh'. touch_locked c cap sh key now = Some (tracked, sh') \<and> shard_ok c cap here sh' \<and>
    (tracked \<longrightarrow> map_of (sh_keys sh') key \<noteq> None)"
proof (cases "map_of (sh_keys sh) key")
  case (Some e)
  have "entry_ok c (refresh_entry c now e)" using refresh_entry_ok [OF assms(2)] shard_okD [OF assms(1) Some] by blast
  then have "shard_ok c cap here (sh\<lparr>sh_keys := AList.update key (refresh_entry c now e) (sh_keys sh)\<rparr>)"
    using Some by (intro shard_ok_update [OF assms(1)]) simp
  then show ?thesis by (auto simp: touch_locked_def Some AList.update_conv')
next
  case new: None
  show ?thesis
  proof (cases "cap \<le> length (sh_keys sh)")
    case False
    then have "shard_ok c cap here (admit c key now sh)" using new assms by (intro shard_ok_admit) simp_all
    moreover have "map_of (sh_keys (admit c key now sh)) key \<noteq> None" by (simp add: admit_def AList.update_conv')
    ultimately show ?thesis using new False by (auto simp: touch_locked_def)
  next
    case True
    then have "mset (map fst (sh_keys sh)) \<noteq> {#}" using assms(3) by auto
    then have ne: "sh_recency sh \<noteq> []" using assms(1) by (auto simp: shard_ok_def)
    then have "last (sh_recency sh) \<in> fst ` set (sh_keys sh)"
      using shard_ok_recency [OF assms(1)] last_in_set [OF ne] by simp
    then obtain old where old: "map_of (sh_keys sh) (last (sh_recency sh)) = Some old"
      by (metis map_of_eq_None_iff not_Some_eq)
    let ?sh = "sh\<lparr>sh_recency := butlast (sh_recency sh), sh_keys := AList.delete (last (sh_recency sh)) (sh_keys sh),
      sh_evictions := Suc (sh_evictions sh)\<rparr>"
    have "shard_ok c cap here ?sh" "length (sh_keys ?sh) < cap"
      using shard_ok_evict [OF assms(1) ne] assms(1) by (auto simp: shard_ok_def)
    moreover have "map_of (sh_keys ?sh) key = None" using new by (simp add: AList.delete_conv')
    ultimately have "shard_ok c cap here (admit c key now ?sh)" using assms by (intro shard_ok_admit) auto
    moreover have "map_of (sh_keys (admit c key now ?sh)) key \<noteq> None" by (simp add: admit_def AList.update_conv')
    moreover have "touch_locked c cap sh key now = Some (False, sh) \<or>
        touch_locked c cap sh key now = Some (True, admit c key now ?sh)"
      using new True ne old by (simp add: touch_locked_def Let_def)
    ultimately show ?thesis using assms(1) by (elim disjE) auto
  qed
qed

lemma learn_entry_ok:
  assumes "shard_ok c cap here sh" "map_of (sh_keys sh) key \<noteq> None" "\<And>h. hist_for c h \<Longrightarrow> hist_for c (f h)"
  shows "\<exists>sh'. learn_entry f key now sh = Some sh' \<and> shard_ok c cap here sh'"
proof -
  obtain e where e: "map_of (sh_keys sh) key = Some e" using assms(2) by blast
  then have "entry_ok c (e\<lparr>e_histogram := f (e_histogram e), e_last_activity := now\<rparr>)"
    using assms(1,3) shard_okD [of c cap here sh key e] by (simp add: entry_ok_def)
  then have "shard_ok c cap here (sh\<lparr>sh_keys := AList.update key (e\<lparr>e_histogram := f (e_histogram e), e_last_activity := now\<rparr>) (sh_keys sh)\<rparr>)"
    using assms(1,2) by (intro shard_ok_update)
  then show ?thesis using e by (simp add: learn_entry_def most_recent_ok AList.update_conv')
qed

section \<open>Prediction\<close>

definition prediction_ok :: "PerKeyPredictorConfig \<Rightarrow> DurationPrediction \<Rightarrow> bool" where
  "prediction_ok c d \<longleftrightarrow>
     dp_bucket d < pc_num_levels c \<and>
     (if dp_status d = Predicted then \<exists>x. dp_estimate_ms d = Some x \<and> 0 \<le> x \<and> x \<le> dval (pc_max_ms c)
      else dp_estimate_ms d = None \<and> dp_bucket d = pc_default_priority c)"

lemma tier_of_le: "tier_of bs v \<le> length bs"
  using length_takeWhile_le [of "\<lambda>b. \<not> v < b" bs] mod_less_eq_dividend order.trans unfolding tier_of_def by blast

lemma fallback_ok: "config_ok c \<Longrightarrow> status \<noteq> Predicted \<Longrightarrow> prediction_ok c (fallback c status seen)"
  by (simp add: prediction_ok_def fallback_def config_okD)

lemma entry_estimate_ok: "hist_for c h \<Longrightarrow> 0 \<le> entry_estimate c h \<and> entry_estimate c h \<le> dval (pc_max_ms c)"
  using quantile_bounds [of h] hist_mean_bounds [of h]
  by (auto simp: entry_estimate_def hist_for_def split: DurationSummary.split)

lemma held_band_defined:
  assumes "boundaries_ok c bs" "0 \<le> t" "t < int (pc_num_levels c)"
  shows "\<exists>keep. held_band hyst bs (nat t) x = Some keep"
proof -
  have "nat t = 0 \<or> nat t - 1 < length bs" using assms by (auto simp: boundaries_ok_def)
  then show ?thesis by (simp add: held_band_def Let_def)
qed

text \<open>Either the entry falls back, or its tier is decided by the boundaries and the band of the tier it holds.\<close>

lemma evaluate_cases:
  obtains (fb) st where "st \<in> {ColdKey, Censored, HighSpread}" "evaluate c e snap = Some (fallback c st (h_observations (e_histogram e)), e)"
    | (est) "evaluate c e snap =
        (let estimate = entry_estimate c (e_histogram e); bounds = bs_boundaries_ms snap; tier = int (tier_of bounds estimate) in
         case (if 0 \<le> e_tier e \<and> e_tier e \<noteq> tier \<and> 0 < dval (pc_hysteresis c)
               then held_band (pc_hysteresis c) bounds (nat (e_tier e)) estimate else Some False) of
           None \<Rightarrow> None
         | Some keep \<Rightarrow>
             let t = (if keep then e_tier e else tier) in
             Some (\<lparr>dp_estimate_ms = Some estimate, dp_bucket = nat (t mod 256), dp_status = Predicted,
                 dp_key_observations = h_observations (e_histogram e)\<rparr>, e\<lparr>e_tier := t\<rparr>))"
proof -
  let ?h = "e_histogram e"
  consider "h_observations ?h < pc_min_samples c"
    | "\<not> h_observations ?h < pc_min_samples c" "dval (pc_max_censored_fraction c) < censored_fraction ?h"
    | "\<not> h_observations ?h < pc_min_samples c" "\<not> dval (pc_max_censored_fraction c) < censored_fraction ?h"
      "dval (pc_max_spread_ratio c) < quantile ?h (dval (pc_spread_quantile c)) / max (quantile ?h (1 / 2)) (dval (pc_min_ms c)) \<or>
       entry_estimate c ?h < 0"
    | "\<not> h_observations ?h < pc_min_samples c" "\<not> dval (pc_max_censored_fraction c) < censored_fraction ?h"
      "\<not> dval (pc_max_spread_ratio c) < quantile ?h (dval (pc_spread_quantile c)) / max (quantile ?h (1 / 2)) (dval (pc_min_ms c))"
      "\<not> entry_estimate c ?h < 0"
    by blast
  then show thesis
  proof cases
    case 1
    then show thesis by (intro fb [of ColdKey]) (simp_all add: evaluate_def Let_def)
  next
    case 2
    then show thesis by (intro fb [of Censored]) (simp_all add: evaluate_def Let_def)
  next
    case 3
    then show thesis by (intro fb [of HighSpread]) (auto simp: evaluate_def Let_def)
  next
    case 4
    show thesis by (rule est) (simp only: evaluate_def Let_def 4 if_False)
  qed
qed

text \<open>The tier an entry ends up with, once its estimate is trusted.\<close>

lemma evaluate_ok:
  assumes c: "config_ok c" and e: "entry_ok c e" and bs: "boundaries_ok c (bs_boundaries_ms snap)"
  shows "\<exists>d e'. evaluate c e snap = Some (d, e') \<and> entry_ok c e' \<and> prediction_ok c d"
proof -
  let ?h = "e_histogram e" and ?bs = "bs_boundaries_ms snap"
  let ?est = "entry_estimate c ?h"
  let ?tier = "int (tier_of ?bs ?est)"
  let ?band = "if 0 \<le> e_tier e \<and> e_tier e \<noteq> ?tier \<and> 0 < dval (pc_hysteresis c)
    then held_band (pc_hysteresis c) ?bs (nat (e_tier e)) ?est else Some False"
  have est: "0 \<le> ?est" "?est \<le> dval (pc_max_ms c)" using entry_estimate_ok [of c ?h] e by (simp_all add: entry_ok_def)
  have "\<exists>keep. ?band = Some keep \<and> (keep \<longrightarrow> 0 \<le> e_tier e)"
    using held_band_defined [OF bs, of "e_tier e" "pc_hysteresis c" ?est] e by (auto simp: entry_ok_def)
  then obtain keep where keep: "?band = Some keep" and kept: "keep \<Longrightarrow> 0 \<le> e_tier e" by blast
  define t where "t = (if keep then e_tier e else ?tier)"
  have "?tier < int (pc_num_levels c)"
    using tier_of_le [of ?bs ?est] bs config_okD(1) [OF c] by (simp add: boundaries_ok_def)
  then have t: "0 \<le> t" "t < int (pc_num_levels c)" using e kept by (auto simp: t_def entry_ok_def)
  let ?d = "\<lparr>dp_estimate_ms = Some ?est, dp_bucket = nat (t mod 256), dp_status = Predicted, dp_key_observations = h_observations ?h\<rparr>"
  have d: "prediction_ok c ?d" using t est config_okD(2) [OF c] by (simp add: prediction_ok_def)
  have e': "entry_ok c (e\<lparr>e_tier := t\<rparr>)" using e t by (simp add: entry_ok_def)
  show ?thesis
  proof (rule evaluate_cases [of c e snap])
    fix st assume "st \<in> {ColdKey, Censored, HighSpread}" "evaluate c e snap = Some (fallback c st (h_observations ?h), e)"
    then show ?thesis using e fallback_ok [OF c, of st] by auto
  qed (simp only: Let_def keep option.case t_def [symmetric], use d e' in simp)
qed

section \<open>Operations\<close>

lemma predictor_inv_counters [simp]:
  "predictor_inv hash (p\<lparr>pp_rejected := n\<rparr>) = predictor_inv hash p"
  "predictor_inv hash (p\<lparr>pp_overflow_count := n\<rparr>) = predictor_inv hash p"
  "predictor_inv hash (p\<lparr>pp_observed := n\<rparr>) = predictor_inv hash p"
  "predictor_inv hash (p\<lparr>pp_saturated := n\<rparr>) = predictor_inv hash p"
  "predictor_inv hash (p\<lparr>pp_censored := n\<rparr>) = predictor_inv hash p"
  "predictor_inv hash (p\<lparr>pp_degenerate := n\<rparr>) = predictor_inv hash p"
  "predictor_inv hash (p\<lparr>pp_snapshots := n\<rparr>) = predictor_inv hash p"
  "predictor_inv hash (p\<lparr>pp_global_observations := n\<rparr>) = predictor_inv hash p"
  by (simp_all add: predictor_inv_def Let_def)

lemma predictor_inv_global [simp]:
  "predictor_inv hash p \<Longrightarrow> hist_for (pp_config p) g \<Longrightarrow> predictor_inv hash (p\<lparr>pp_global := g\<rparr>)"
  by (auto simp: predictor_inv_def Let_def)

lemma predictor_invD:
  assumes "predictor_inv hash p"
  shows "config_ok (pp_config p)" "length (pp_shards p) = pc_shards (pp_config p)" "1 \<le> pp_per_shard_cap p"
    "shard_index hash p key < length (pp_shards p)"
    "shard_ok (pp_config p) (pp_per_shard_cap p) (\<lambda>k. shard_index hash p k = shard_index hash p key) (pp_shards p ! shard_index hash p key)"
    "hist_for (pp_config p) (pp_global p)"
    "pp_snapshot p = Some snap \<Longrightarrow> boundaries_ok (pp_config p) (bs_boundaries_ms snap)"
proof -
  show c: "config_ok (pp_config p)" and n: "length (pp_shards p) = pc_shards (pp_config p)" and "hist_for (pp_config p) (pp_global p)"
    and "1 \<le> pp_per_shard_cap p" and "pp_snapshot p = Some snap \<Longrightarrow> boundaries_ok (pp_config p) (bs_boundaries_ms snap)"
    using assms per_shard_cap_pos [of "pp_config p"] by (auto simp: predictor_inv_def Let_def)
  show i: "shard_index hash p key < length (pp_shards p)" using n config_okD(12) [OF c] by (simp add: shard_index_def)
  then show "shard_ok (pp_config p) (pp_per_shard_cap p) (\<lambda>k. shard_index hash p k = shard_index hash p key) (pp_shards p ! shard_index hash p key)"
    using assms unfolding predictor_inv_def Let_def shard_index_def by blast
qed

lemma set_shard_inv:
  assumes "predictor_inv hash p" and "i < length (pp_shards p)"
    and "shard_ok (pp_config p) (pp_per_shard_cap p) (\<lambda>k. shard_index hash p k = i) sh"
  shows "predictor_inv hash (set_shard i sh p)"
  using assms by (auto simp: predictor_inv_def Let_def set_shard_def shard_index_def nth_list_update)

lemma set_shard_frame [simp]: "pp_config (set_shard i sh p) = pp_config p"
  by (simp add: set_shard_def)

lemma predict_ok:
  assumes "predictor_inv hash p"
  shows "\<exists>d p'. predict hash now key p = Some (d, p') \<and> predictor_inv hash p' \<and> pp_config p' = pp_config p \<and>
    prediction_ok (pp_config p) d"
proof -
  note inv = predictor_invD [OF assms]
  let ?i = "shard_index hash p key" and ?c = "pp_config p"
  let ?sh = "pp_shards p ! ?i"
  have fb: "prediction_ok ?c (fallback ?c st n)" if "st \<noteq> Predicted" for st n using fallback_ok [OF inv(1) that] .
  show ?thesis
  proof (cases "usable_key key \<and> pp_snapshot p \<noteq> None \<and> map_of (sh_keys ?sh) key \<noteq> None")
    case False
    then show ?thesis using assms fb by (auto simp: predict_def Let_def split: option.split)
  next
    case True
    then obtain snap e where key: "usable_key key" and snap: "pp_snapshot p = Some snap" and e: "map_of (sh_keys ?sh) key = Some e" by auto
    show ?thesis
    proof (cases "stale ?c e now")
      case True
      then show ?thesis using key snap e assms fb by (simp add: predict_def)
    next
      case False
      have "entry_ok ?c (e\<lparr>e_last_activity := now\<rparr>)" using shard_okD [OF inv(5) e] by (simp add: entry_ok_def)
      then obtain d e' where ev: "evaluate ?c (e\<lparr>e_last_activity := now\<rparr>) snap = Some (d, e')" "entry_ok ?c e'" "prediction_ok ?c d"
        using evaluate_ok [OF inv(1) _ inv(7) [OF snap]] by blast
      let ?sh' = "?sh\<lparr>sh_keys := AList.update key e' (sh_keys ?sh)\<rparr>"
      have "shard_ok ?c (pp_per_shard_cap p) (\<lambda>k. shard_index hash p k = ?i) ?sh'"
        using e ev(2) by (intro shard_ok_update [OF inv(5)]) simp_all
      then have "shard_ok ?c (pp_per_shard_cap p) (\<lambda>k. shard_index hash p k = ?i) (most_recent key ?sh')"
        by (rule most_recent_ok) (simp add: AList.update_conv')
      then have "predictor_inv hash (set_shard ?i (most_recent key ?sh') p)" by (rule set_shard_inv [OF assms inv(4)])
      then show ?thesis using False key snap e ev by (simp add: predict_def Let_def)
    qed
  qed
qed

lemma record_evidence_ok:
  assumes "predictor_inv hash p" "usable_key key" "\<And>h. hist_for (pp_config p) h \<Longrightarrow> hist_for (pp_config p) (f h)"
  shows "\<exists>b p'. record_evidence hash f key now p = Some (b, p') \<and> predictor_inv hash p' \<and> pp_config p' = pp_config p"
proof -
  note inv = predictor_invD [OF assms(1)]
  let ?i = "shard_index hash p key" and ?c = "pp_config p"
  let ?ok = "shard_ok ?c (pp_per_shard_cap p) (\<lambda>k. shard_index hash p k = ?i)"
  obtain tracked sh where t: "touch_locked ?c (pp_per_shard_cap p) (pp_shards p ! ?i) key now = Some (tracked, sh)" "?ok sh"
    "tracked \<Longrightarrow> map_of (sh_keys sh) key \<noteq> None"
    using touch_locked_ok [OF inv(5,1,3) assms(2) refl, of now] by blast
  show ?thesis
  proof (cases tracked)
    case False
    then show ?thesis using t(1) set_shard_inv [OF assms(1) inv(4) t(2)] by (simp add: record_evidence_def Let_def ex_bool_eq)
  next
    case True
    obtain sh' where "learn_entry f key now sh = Some sh'" "?ok sh'"
      using learn_entry_ok [OF t(2) t(3) [OF True], of f now] assms(3) by blast
    then show ?thesis using t(1) True set_shard_inv [OF assms(1) inv(4)] by (simp add: record_evidence_def Let_def ex_bool_eq)
  qed
qed

lemma record_key_ok:
  assumes "predictor_inv hash p" "usable_key key" "0 \<le> v"
  shows "\<exists>b p'. record_key hash key v now p = Some (b, p') \<and> predictor_inv hash p' \<and> pp_config p' = pp_config p"
  unfolding record_key_def using assms(3) hist_for_add by (intro record_evidence_ok [OF assms(1,2)]) blast

lemma valid_boundaries_ok:
  assumes "valid_boundaries bs" "length bs = pc_num_levels c - 1" "1 < pc_num_levels c"
  shows "boundaries_ok c bs"
proof -
  obtain b bs' where bs: "bs = b # bs'" using assms by (cases bs) auto
  then show ?thesis using assms by (auto simp: boundaries_ok_def valid_boundaries_def)
qed

lemma refresh_boundaries_ok:
  assumes "predictor_inv hash p" "1 < pc_num_levels (pp_config p)"
  shows "predictor_inv hash (refresh_boundaries_locked p)" "pp_config (refresh_boundaries_locked p) = pp_config p"
proof -
  let ?c = "pp_config p"
  let ?fresh = "map (\<lambda>i. quantile (pp_global p) (real (i + 1) / real (pc_num_levels ?c))) [0 ..< pc_num_levels ?c - 1]"
  have publish: "predictor_inv hash (p\<lparr>pp_snapshots := n, pp_snapshot := Some \<lparr>bs_sequence = n, bs_boundaries_ms = bs\<rparr>\<rparr>)"
    if "valid_boundaries bs" "length bs = pc_num_levels ?c - 1" for n bs
    using assms(1) valid_boundaries_ok [OF that assms(2)] by (auto simp: predictor_inv_def Let_def)
  have len: "length (map2 g ?fresh (bs_boundaries_ms s)) = pc_num_levels ?c - 1" if "pp_snapshot p = Some s" for g s
    using predictor_invD(7) [OF assms(1) that] by (simp add: boundaries_ok_def)
  show "predictor_inv hash (refresh_boundaries_locked p)"
    using assms(1) publish len unfolding refresh_boundaries_locked_def Let_def
    by (auto split: option.splits simp del: map_map)
  show "pp_config (refresh_boundaries_locked p) = pp_config p"
    by (simp add: refresh_boundaries_locked_def Let_def split: option.split)
qed

lemma observe_ok:
  assumes "predictor_inv hash p"
  shows "\<exists>b p'. observe hash now key parent d p = Some (b, p') \<and> predictor_inv hash p' \<and> pp_config p' = pp_config p"
proof (cases "\<not> usable_key key \<or> parent \<noteq> [] \<and> \<not> usable_key parent \<or> \<not> isfinite d \<or> dval d < 0")
  case True
  then show ?thesis using assms by (simp add: observe_def ex_bool_eq)
next
  case False
  then have d: "0 \<le> dval d" by simp
  obtain b1 p1 where p1: "record_key hash key (dval d) now p = Some (b1, p1)" "predictor_inv hash p1" "pp_config p1 = pp_config p"
    using record_key_ok [OF assms _ d, of key now] False by blast
  obtain b2 p2 where p2: "(if parent \<noteq> [] then record_key hash parent (dval d) now p1 else Some (True, p1)) = Some (b2, p2)"
    "predictor_inv hash p2" "pp_config p2 = pp_config p"
    using record_key_ok [OF p1(2) _ d, of parent now] p1 False by (cases "parent = []") auto
  obtain clamped g where g: "hist_add (dval d) (pp_global p2) = (clamped, g)" by fastforce
  then have "hist_for (pp_config p2) g" using hist_for_add [OF predictor_invD(6) [OF p2(2)] d] by simp
  let ?p3 = "p2\<lparr>pp_observed := Suc (pp_observed p2), pp_global := g,
    pp_saturated := (if clamped then Suc (pp_saturated p2) else pp_saturated p2),
    pp_global_observations := Suc (pp_global_observations p2)\<rparr>"
  have p3: "predictor_inv hash ?p3" using p2(2) \<open>hist_for (pp_config p2) g\<close> by simp
  have "observe hash now key parent d p = Some (True, ?p3) \<or>
      1 < pc_num_levels (pp_config ?p3) \<and> observe hash now key parent d p = Some (True, refresh_boundaries_locked ?p3)"
    unfolding observe_def using False p1(1) p2(1) g by (simp add: Let_def)
  then show ?thesis using p3 p2(3) refresh_boundaries_ok [OF p3] by auto
qed

lemma observe_censored_ok:
  assumes "predictor_inv hash p"
  shows "\<exists>b p'. observe_censored hash now key p = Some (b, p') \<and> predictor_inv hash p' \<and> pp_config p' = pp_config p"
proof (cases "usable_key key")
  case True
  obtain b p1 where "record_evidence hash hist_add_censored key now p = Some (b, p1)" "predictor_inv hash p1" "pp_config p1 = pp_config p"
    using record_evidence_ok [OF assms True, of hist_add_censored now] hist_for_censored by blast
  then show ?thesis using True by (cases b) (simp_all add: observe_censored_def ex_bool_eq)
qed (use assms in \<open>simp add: observe_censored_def ex_bool_eq\<close>)

lemma validated_id: "validated c = Inr c' \<Longrightarrow> c' = c"
  by (simp add: validated_def split: if_splits)

lemma make_predictor_ok:
  assumes "make_PerKeyPredictor c = Inr p" "pc_num_levels c < 256"
  shows "predictor_inv hash p \<and> pp_config p = c"
proof -
  obtain c' where v: "validated c = Inr c'" using assms(1) by (auto simp: make_PerKeyPredictor_def split: sum.splits)
  then have v: "validated c = Inr c" using validated_id by blast
  then have c: "config_ok c" using assms(2) by (simp add: config_ok_def)
  have "shard_ok c cap here \<lparr>sh_keys = [], sh_recency = [], sh_evictions = 0\<rparr>" for cap here
    by (simp add: shard_ok_def)
  moreover have "boundaries_ok c []" if "pc_num_levels c = 1" using that by (simp add: boundaries_ok_def)
  moreover have "p = \<lparr>pp_config = c, pp_shards = replicate (pc_shards c) \<lparr>sh_keys = [], sh_recency = [], sh_evictions = 0\<rparr>,
          pp_per_shard_cap = (pc_max_keys c + pc_shards c - 1) div pc_shards c,
          pp_global = make_histogram c (pc_global_decay c),
          pp_snapshot = (if pc_num_levels c = 1 then Some \<lparr>bs_sequence = 0, bs_boundaries_ms = []\<rparr> else None),
          pp_global_observations = 0, pp_snapshots = 0, pp_degenerate = 0, pp_rejected = 0, pp_overflow_count = 0,
          pp_observed = 0, pp_saturated = 0, pp_censored = 0\<rparr>"
    using assms(1) v by (simp add: make_PerKeyPredictor_def)
  ultimately show ?thesis using c make_histogram_ok [OF c] config_okD(1) [OF c]
    by (simp add: predictor_inv_def Let_def)
qed

section \<open>The interface of a duration predictor\<close>

text \<open>
  The abstract class \<^verbatim>\<open>DurationPredictor\<close>: whatever implements it must keep its state usable under
  any interleaving of predictions and observations, and give well-formed predictions.
\<close>

datatype PredictorCall = CallPredict time string | CallObserve time string string double | CallCensored time string

fun predictor_run ::
  "(time \<Rightarrow> string \<Rightarrow> 's \<Rightarrow> (DurationPrediction \<times> 's) option) \<Rightarrow> (time \<Rightarrow> string \<Rightarrow> string \<Rightarrow> double \<Rightarrow> 's \<Rightarrow> (bool \<times> 's) option) \<Rightarrow>
   (time \<Rightarrow> string \<Rightarrow> 's \<Rightarrow> (bool \<times> 's) option) \<Rightarrow> PredictorCall list \<Rightarrow> 's \<Rightarrow> (DurationPrediction list \<times> 's) option" where
  "predictor_run pre obs cen [] s = Some ([], s)"
| "predictor_run pre obs cen (CallPredict t k # calls) s =
     (case pre t k s of
        None \<Rightarrow> None
      | Some (d, s') \<Rightarrow>
          (case predictor_run pre obs cen calls s' of None \<Rightarrow> None | Some (ds, s'') \<Rightarrow> Some (d # ds, s'')))"
| "predictor_run pre obs cen (CallObserve t k parent d # calls) s =
     (case obs t k parent d s of None \<Rightarrow> None | Some (_, s') \<Rightarrow> predictor_run pre obs cen calls s')"
| "predictor_run pre obs cen (CallCensored t k # calls) s =
     (case cen t k s of None \<Rightarrow> None | Some (_, s') \<Rightarrow> predictor_run pre obs cen calls s')"

locale duration_predictor =
  fixes pre :: "time \<Rightarrow> string \<Rightarrow> 's \<Rightarrow> (DurationPrediction \<times> 's) option"
    and obs :: "time \<Rightarrow> string \<Rightarrow> string \<Rightarrow> double \<Rightarrow> 's \<Rightarrow> (bool \<times> 's) option"
    and cen :: "time \<Rightarrow> string \<Rightarrow> 's \<Rightarrow> (bool \<times> 's) option"
    and inv :: "'s \<Rightarrow> bool" and good :: "DurationPrediction \<Rightarrow> bool"
  assumes predict_law: "inv s \<Longrightarrow> \<exists>d s'. pre t k s = Some (d, s') \<and> inv s' \<and> good d"
    and observe_law: "inv s \<Longrightarrow> \<exists>b s'. obs t k parent x s = Some (b, s') \<and> inv s'"
    and censored_law: "inv s \<Longrightarrow> \<exists>b s'. cen t k s = Some (b, s') \<and> inv s'"
begin

lemma run_defined: "inv s \<Longrightarrow> \<exists>ds s'. predictor_run pre obs cen calls s = Some (ds, s') \<and> inv s' \<and> list_all good ds"
proof (induction calls arbitrary: s)
  case (Cons call calls)
  show ?case
  proof (cases call)
    case (CallPredict t k)
    obtain d s' where "pre t k s = Some (d, s')" "inv s'" "good d" using predict_law [OF Cons.prems] by blast
    then show ?thesis using Cons.IH [of s'] CallPredict by auto
  next
    case (CallObserve t k parent x)
    obtain b s' where "obs t k parent x s = Some (b, s')" "inv s'" using observe_law [OF Cons.prems] by blast
    then show ?thesis using Cons.IH [of s'] CallObserve by simp
  next
    case (CallCensored t k)
    obtain b s' where "cen t k s = Some (b, s')" "inv s'" using censored_law [OF Cons.prems] by blast
    then show ?thesis using Cons.IH [of s'] CallCensored by simp
  qed
qed simp

end

interpretation pk: duration_predictor "predict hash" "observe hash" "observe_censored hash"
  "\<lambda>p. predictor_inv hash p \<and> pp_config p = c" "prediction_ok c" for hash c
  using predict_ok observe_ok observe_censored_ok by unfold_locales metis+

end
