(* ===== verification/Predictor_Properties.thy ===== *)
theory Predictor_Properties
  imports Predictor_Invariant
begin

text \<open>
  Properties of the per-key predictor: whatever sequence of predictions and observations it
  sees, nothing is read out of range, predictions name existing levels, tracked keys stay within
  the cap and only idle keys are recycled; a predicted tier always contains the estimate
  up to the hysteresis.
\<close>

section \<open>A small predictor\<close>

definition ex_config :: PerKeyPredictorConfig where
  "ex_config = \<lparr>pc_num_levels = 3, pc_default_priority = 1, pc_summary = Median, pc_min_samples = 2,
     pc_spread_quantile = Finite (99 / 100), pc_max_spread_ratio = Finite 16, pc_max_censored_fraction = Finite (1 / 20),
     pc_decay = Finite (1 / 2), pc_global_decay = Finite 1, pc_time_half_life = 600000, pc_stale_after = 1800000,
     pc_histogram_bins = 8, pc_min_ms = Finite 2, pc_max_ms = Finite 256, pc_max_keys = 3, pc_shards = 2,
     pc_idle_eviction = 600000, pc_cold_eviction_grace = 30000, pc_boundary_refresh_every = 2, pc_global_min_samples = 2,
     pc_hysteresis = Finite (1 / 10)\<rparr>"

lemma ex_config_valid: "validated ex_config = Inr ex_config"
  by (simp add: validated_def ex_config_def isfinite_def dval_def)

lemma ex_config_ok: "config_ok ex_config"
  by (simp add: config_ok_def ex_config_valid) (simp add: ex_config_def)

definition ex_predictor :: PerKeyPredictor where
  "ex_predictor = (case make_PerKeyPredictor ex_config of Inr p \<Rightarrow> p)"

lemma ex_predictor: "make_PerKeyPredictor ex_config = Inr ex_predictor"
  by (simp add: ex_predictor_def make_PerKeyPredictor_def ex_config_valid)

lemma ex_predictor_inv: "predictor_inv hash ex_predictor" "pp_config ex_predictor = ex_config"
  using make_predictor_ok [OF ex_predictor] by (simp_all add: ex_config_def)

section \<open>Lemmas\<close>

definition tracked :: "(string \<Rightarrow> nat) \<Rightarrow> PerKeyPredictor \<Rightarrow> string \<Rightarrow> Entry option" where
  "tracked hash p key = map_of (sh_keys (pp_shards p ! shard_index hash p key)) key"

lemma sorted_takeWhile_nth:
  fixes bs :: "real list"
  assumes "sorted_wrt (<) bs" "t = length (takeWhile (\<lambda>b. \<not> v < b) bs)"
  shows "0 < t \<Longrightarrow> bs ! (t - 1) \<le> v" and "t < length bs \<Longrightarrow> v < bs ! t"
proof -
  show "t < length bs \<Longrightarrow> v < bs ! t" using nth_length_takeWhile [of "\<lambda>b. \<not> v < b" bs] assms(2) by simp
  assume "0 < t"
  then have "t - 1 < length (takeWhile (\<lambda>b. \<not> v < b) bs)" using assms(2) by simp
  then show "bs ! (t - 1) \<le> v" using takeWhile_nth set_takeWhileD nth_mem by (metis not_less)
qed

text \<open>Learning about one key touches no other, except to recycle an idle one.\<close>

lemma touch_locked_other:
  assumes "touch_locked c cap sh key now = Some (b, sh')" "k \<noteq> key" "map_of (sh_keys sh) k = Some e"
  shows "map_of (sh_keys sh') k = Some e \<or>
    map_of (sh_keys sh') k = None \<and> b \<and> cap \<le> length (sh_keys sh) \<and> sh_recency sh \<noteq> [] \<and> last (sh_recency sh) = k \<and>
    (let limit = if h_observations (e_histogram e) < pc_min_samples c then pc_cold_eviction_grace c else pc_idle_eviction c
     in 0 < limit \<and> ms_to_ns limit \<le> now - e_last_activity e)"
proof (cases "map_of (sh_keys sh) key")
  case (Some x)
  then show ?thesis using assms by (auto simp: touch_locked_def AList.update_conv')
next
  case new: None
  show ?thesis
  proof (cases "cap \<le> length (sh_keys sh)")
    case False
    then show ?thesis using assms new by (auto simp: touch_locked_def admit_def AList.update_conv')
  next
    case True
    with assms(1) new obtain old where "sh_recency sh \<noteq> []" "map_of (sh_keys sh) (last (sh_recency sh)) = Some old"
      by (auto simp: touch_locked_def split: if_splits option.splits)
    then show ?thesis using assms new True
      by (cases "last (sh_recency sh) = k")
        (auto simp: touch_locked_def admit_def Let_def AList.update_conv' AList.delete_conv' split: if_splits)
  qed
qed

lemma record_evidence_shards:
  assumes "record_evidence hash f key now p = Some (b, p')"
  obtains sh sh' where
    "touch_locked (pp_config p) (pp_per_shard_cap p) (pp_shards p ! shard_index hash p key) key now = Some (b, sh)"
    "sh' = sh \<or> learn_entry f key now sh = Some sh'" "pp_shards p' = (pp_shards p)[shard_index hash p key := sh']"
proof -
  let ?t = "touch_locked (pp_config p) (pp_per_shard_cap p) (pp_shards p ! shard_index hash p key) key now"
  obtain tb sh where t: "?t = Some (tb, sh)" using assms by (cases ?t) (auto simp: record_evidence_def Let_def)
  show thesis
  proof (cases tb)
    case False
    then show thesis using assms t by (intro that [of sh sh]) (auto simp: record_evidence_def Let_def set_shard_def)
  next
    case True
    then obtain sh' where "learn_entry f key now sh = Some sh'"
      using assms t by (cases "learn_entry f key now sh") (auto simp: record_evidence_def Let_def)
    then show thesis using assms t True by (intro that [of sh sh']) (auto simp: record_evidence_def Let_def set_shard_def)
  qed
qed

section \<open>Properties\<close>

text \<open>
  C20. Any interleaving of predictions, observations and overruns on a freshly constructed
  predictor, with any hash of keys and any clock readings, is defined: no boundary, shard or
  recency entry is read out of range. Every prediction names an existing level; one with
  status \<^verbatim>\<open>Predicted\<close> carries an estimate between zero and the largest duration, every other
  one carries no estimate and the default level. The boundaries in force are always positive
  and strictly increasing, one fewer than the levels.
\<close>

theorem predictor_never_out_of_range:
  assumes "make_PerKeyPredictor c = Inr p0" and "pc_num_levels c < 256"
  shows "\<exists>ds p. predictor_run (predict hash) (observe hash) (observe_censored hash) calls p0 = Some (ds, p) \<and>
    list_all (\<lambda>d. dp_bucket d < pc_num_levels c \<and>
      (if dp_status d = Predicted then \<exists>x. dp_estimate_ms d = Some x \<and> 0 \<le> x \<and> x \<le> dval (pc_max_ms c)
       else dp_estimate_ms d = None \<and> dp_bucket d = pc_default_priority c)) ds \<and>
    (case pp_snapshot p of None \<Rightarrow> True
     | Some s \<Rightarrow> length (bs_boundaries_ms s) = pc_num_levels c - 1 \<and> sorted_wrt (<) (bs_boundaries_ms s) \<and>
         list_all (\<lambda>b. 0 < b) (bs_boundaries_ms s))"
proof -
  obtain ds p where run: "predictor_run (predict hash) (observe hash) (observe_censored hash) calls p0 = Some (ds, p)"
    and p: "predictor_inv hash p" "pp_config p = c" and ds: "list_all (prediction_ok c) ds"
    using pk.run_defined [of hash p0 c calls] make_predictor_ok [OF assms, of hash] by blast
  have "boundaries_ok c (bs_boundaries_ms s)" if "pp_snapshot p = Some s" for s
    using predictor_invD(7) [OF p(1) that] p(2) by simp
  then show ?thesis using run ds
    by (auto simp: prediction_ok_def [abs_def] boundaries_ok_def list_all_iff split: option.split)
qed

theorem predictor_never_out_of_range_witness:
  "\<exists>ds p. predictor_run (predict length) (observe length) (observe_censored length)
     [CallObserve 0 ''k'' [] (Finite 5), CallCensored 1 ''j'', CallPredict 2 ''k''] ex_predictor = Some (ds, p)"
  using predictor_never_out_of_range [OF ex_predictor, of length
      "[CallObserve 0 ''k'' [] (Finite 5), CallCensored 1 ''j'', CallPredict 2 ''k'']"]
  by (auto simp: ex_config_def)

text \<open>
  C21. Memory is bounded: after any history the predictor tracks fewer than the configured
  maximum plus the number of shards keys, no shard more than its share, every tracked key is
  in the shard its hash names, and each shard's recency list enumerates its keys without
  repetition.
\<close>

theorem predictor_keys_bounded:
  assumes "make_PerKeyPredictor c = Inr p0" and "pc_num_levels c < 256"
    and "predictor_run (predict hash) (observe hash) (observe_censored hash) calls p0 = Some (ds, p)"
  shows "ps_keys (predictor_stats p) < pc_max_keys c + pc_shards c \<and>
    list_all (\<lambda>sh. length (sh_keys sh) \<le> (pc_max_keys c + pc_shards c - 1) div pc_shards c \<and>
      distinct (sh_recency sh) \<and> set (sh_recency sh) = fst ` set (sh_keys sh)) (pp_shards p) \<and>
    list_all (\<lambda>i. list_all (\<lambda>k. hash k mod pc_shards c = i) (sh_recency (pp_shards p ! i))) [0 ..< pc_shards c]"
proof -
  have inv: "predictor_inv hash p" and c: "pp_config p = c"
    using pk.run_defined [of hash p0 c calls] make_predictor_ok [OF assms(1,2), of hash] assms(3) by auto
  let ?cap = "(pc_max_keys c + pc_shards c - 1) div pc_shards c"
  have n: "length (pp_shards p) = pc_shards c" and pos: "1 \<le> pc_shards c"
    using predictor_invD(2) [OF inv] config_okD(12) [OF predictor_invD(1) [OF inv]] c by simp_all
  have shard: "shard_ok c ?cap (\<lambda>k. hash k mod pc_shards c = i) (pp_shards p ! i)" if "i < pc_shards c" for i
    using inv that n c by (auto simp: predictor_inv_def Let_def)
  then have keys: "length (sh_keys sh) \<le> ?cap" if "sh \<in> set (pp_shards p)" for sh
    using that n by (auto simp: in_set_conv_nth shard_ok_def)
  have "sum_list (map (\<lambda>s. length (sh_keys s)) (pp_shards p)) \<le> sum_list (map (\<lambda>s. ?cap) (pp_shards p))"
    using keys by (intro sum_list_mono)
  then have "ps_keys (predictor_stats p) \<le> pc_shards c * ?cap"
    using n by (simp add: predictor_stats_def sum_list_triv)
  also have "\<dots> < pc_max_keys c + pc_shards c"
    using pos times_div_less_eq_dividend [of "pc_shards c" "pc_max_keys c + pc_shards c - 1"] by linarith
  finally have total: "ps_keys (predictor_stats p) < pc_max_keys c + pc_shards c" .
  have place: "hash k mod pc_shards c = i" if "i < pc_shards c" "k \<in> set (sh_recency (pp_shards p ! i))" for i k
  proof -
    have "k \<in> fst ` set (sh_keys (pp_shards p ! i))" using shard_ok_recency [OF shard [OF that(1)]] that(2) by simp
    then obtain e where "map_of (sh_keys (pp_shards p ! i)) k = Some e" by (metis map_of_eq_None_iff not_Some_eq)
    then show ?thesis using shard_okD [OF shard [OF that(1)]] by blast
  qed
  have "distinct (sh_recency sh) \<and> set (sh_recency sh) = fst ` set (sh_keys sh)" if "sh \<in> set (pp_shards p)" for sh
    using that n shard_ok_recency [OF shard] by (auto simp: in_set_conv_nth)
  then show ?thesis using total keys place by (simp add: list_all_iff)
qed

theorem predictor_keys_bounded_witness: "ps_keys (predictor_stats ex_predictor) < 5"
  using predictor_keys_bounded [OF ex_predictor, of length "[]" "[]" ex_predictor] by (simp add: ex_config_def)

text \<open>
  C25. Only idle keys are forgotten: recording a duration for one key leaves the entry of
  every other key as it is, unless the shard was full and that key was its least recently
  active one, idle at least for the grace of an unproven key or the eviction time of a
  proven one.
\<close>

theorem recycles_only_idle_keys:
  assumes "predictor_inv hash p" and "record_key hash key v now p = Some (b, p')"
    and "k \<noteq> key" and "tracked hash p k = Some e"
  shows "tracked hash p' k = Some e \<or>
    tracked hash p' k = None \<and> b \<and> shard_index hash p k = shard_index hash p key \<and>
    pp_per_shard_cap p \<le> length (sh_keys (pp_shards p ! shard_index hash p k)) \<and>
    last (sh_recency (pp_shards p ! shard_index hash p k)) = k \<and>
    (let c = pp_config p;
         limit = if h_observations (e_histogram e) < pc_min_samples c then pc_cold_eviction_grace c else pc_idle_eviction c
     in 0 < limit \<and> ms_to_ns limit \<le> now - e_last_activity e)"
proof -
  let ?i = "shard_index hash p key" and ?c = "pp_config p"
  obtain sh sh' where t: "touch_locked ?c (pp_per_shard_cap p) (pp_shards p ! ?i) key now = Some (b, sh)"
    and sh': "sh' = sh \<or> learn_entry (\<lambda>h. snd (hist_add v h)) key now sh = Some sh'" "pp_shards p' = (pp_shards p)[?i := sh']"
    by (rule record_evidence_shards [OF assms(2) [unfolded record_key_def]])
  have same: "map_of (sh_keys sh') k = map_of (sh_keys sh) k"
    using sh'(1) assms(3) by (auto simp: learn_entry_def most_recent_def AList.update_conv' split: option.splits)
  have idx: "shard_index hash p' k = shard_index hash p k" using sh'(2) by (simp add: shard_index_def)
  show ?thesis
  proof (cases "shard_index hash p k = ?i")
    case False
    then show ?thesis using assms(4) idx sh'(2) by (simp add: tracked_def)
  next
    case True
    then have "tracked hash p' k = map_of (sh_keys sh) k"
      using idx sh'(2) same predictor_invD(4) [OF assms(1), of key] by (simp add: tracked_def)
    moreover have "map_of (sh_keys (pp_shards p ! ?i)) k = Some e" using assms(4) True by (simp add: tracked_def)
    ultimately show ?thesis using touch_locked_other [OF t assms(3)] True by (auto simp: Let_def)
  qed
qed

text \<open>The example with one key tracked; under \<^const>\<open>length\<close> as the hash, one-letter keys share a shard.\<close>

definition ex_tracked :: PerKeyPredictor where
  "ex_tracked = set_shard 1 (admit ex_config ''a'' 0 \<lparr>sh_keys = [], sh_recency = [], sh_evictions = 0\<rparr>) ex_predictor"

lemma ex_shards: "pp_shards ex_predictor = replicate 2 \<lparr>sh_keys = [], sh_recency = [], sh_evictions = 0\<rparr>"
  "pp_per_shard_cap ex_predictor = 2"
  by (simp_all add: ex_predictor_def make_PerKeyPredictor_def ex_config_valid) (simp_all add: ex_config_def)

lemma ex_tracked_inv: "predictor_inv length ex_tracked"
  unfolding ex_tracked_def
proof (rule set_shard_inv [OF ex_predictor_inv(1)])
  show "shard_ok (pp_config ex_predictor) (pp_per_shard_cap ex_predictor) (\<lambda>k. shard_index length ex_predictor k = 1)
      (admit ex_config ''a'' 0 \<lparr>sh_keys = [], sh_recency = [], sh_evictions = 0\<rparr>)"
    unfolding ex_predictor_inv(2)
    by (rule shard_ok_admit [OF _ _ _ ex_config_ok])
      (simp_all add: shard_ok_def ex_shards shard_index_def usable_key_def kMaxPredictorKeyBytes_def)
qed (simp add: ex_shards)

theorem recycles_only_idle_keys_witness:
  "\<exists>b p'. record_key length ''b'' 5 9 ex_tracked = Some (b, p') \<and> tracked length p' ''a'' = Some (new_entry ex_config 0)"
proof -
  obtain b p' where r: "record_key length ''b'' 5 9 ex_tracked = Some (b, p')"
    using record_key_ok [OF ex_tracked_inv, of "''b''" 5 9] by (auto simp: usable_key_def kMaxPredictorKeyBytes_def)
  have shards: "pp_shards ex_tracked ! 1 = \<lparr>sh_keys = [(''a'', new_entry ex_config 0)], sh_recency = [''a''], sh_evictions = 0\<rparr>"
    "length (pp_shards ex_tracked) = 2" "pp_per_shard_cap ex_tracked = 2"
    by (simp_all add: ex_tracked_def set_shard_def admit_def ex_shards)
  then have "tracked length ex_tracked ''a'' = Some (new_entry ex_config 0)" by (simp add: tracked_def shard_index_def)
  from recycles_only_idle_keys [OF ex_tracked_inv r _ this] show ?thesis using r shards by (auto simp: shard_index_def)
qed

text \<open>
  C24. A predicted tier contains the estimate up to the hysteresis: whether the boundaries
  decide the tier or a key keeps the tier it held, the estimate is at least the lower
  boundary of the tier less the hysteresis fraction and below its upper boundary plus
  that fraction; the tier is remembered in the entry.
\<close>

theorem predicted_tier_in_band:
  assumes "config_ok c" "entry_ok c e" "boundaries_ok c (bs_boundaries_ms snap)"
    and "evaluate c e snap = Some (d, e')" "dp_status d = Predicted"
  shows "\<exists>x. dp_estimate_ms d = Some x \<and> e_tier e' = int (dp_bucket d) \<and>
    (let t = dp_bucket d; bs = bs_boundaries_ms snap; h = dval (pc_hysteresis c) in
     (t = 0 \<or> bs ! (t - 1) * (1 - h) \<le> x) \<and> (length bs \<le> t \<or> x < bs ! t * (1 + h)))"
proof -
  let ?bs = "bs_boundaries_ms snap" and ?h = "dval (pc_hysteresis c)"
  let ?x = "entry_estimate c (e_histogram e)"
  let ?tier = "tier_of ?bs ?x"
  have h: "0 \<le> ?h" "?h < 1" using config_okD [OF assms(1)] by auto
  have bs: "sorted_wrt (<) ?bs" "\<And>b. b \<in> set ?bs \<Longrightarrow> 0 < b" "length ?bs < 256"
    using assms(3) config_okD(2) [OF assms(1)] by (auto simp: boundaries_ok_def)
  have len: "length (takeWhile (\<lambda>b. \<not> ?x < b) ?bs) < 256" using length_takeWhile_le [of _ ?bs] bs(3) by (rule order.strict_trans1)
  then have tier: "?tier = length (takeWhile (\<lambda>b. \<not> ?x < b) ?bs)" by (simp add: tier_of_def)
  have low: "?bs ! (?tier - 1) * (1 - ?h) \<le> ?x" if "?tier \<noteq> 0"
  proof -
    have "0 < ?bs ! (?tier - 1)" using that tier_of_le [of ?bs ?x] by (intro bs(2) nth_mem) auto
    then have "?bs ! (?tier - 1) * (1 - ?h) \<le> ?bs ! (?tier - 1) * 1" using h by (intro mult_left_mono) auto
    then show ?thesis using sorted_takeWhile_nth(1) [OF bs(1) tier] that by simp
  qed
  have high: "?x < ?bs ! ?tier * (1 + ?h)" if "?tier < length ?bs"
  proof -
    have "0 < ?bs ! ?tier" using that by (intro bs(2) nth_mem)
    then have "?bs ! ?tier * 1 \<le> ?bs ! ?tier * (1 + ?h)" using h by (intro mult_left_mono) auto
    then show ?thesis using sorted_takeWhile_nth(2) [OF bs(1) tier that] by simp
  qed
  show ?thesis
  proof (rule evaluate_cases [of c e snap])
    fix st assume "st \<in> {ColdKey, Censored, HighSpread}" "evaluate c e snap = Some (fallback c st (h_observations (e_histogram e)), e)"
    then show ?thesis using assms(4,5) by (auto simp: fallback_def)
  next
    assume ev: "evaluate c e snap =
      (let estimate = ?x; bounds = ?bs; tier = int (tier_of bounds estimate) in
       case (if 0 \<le> e_tier e \<and> e_tier e \<noteq> tier \<and> 0 < ?h then held_band (pc_hysteresis c) bounds (nat (e_tier e)) estimate else Some False) of
         None \<Rightarrow> None
       | Some keep \<Rightarrow> let t = (if keep then e_tier e else tier) in
           Some (\<lparr>dp_estimate_ms = Some estimate, dp_bucket = nat (t mod 256), dp_status = Predicted,
             dp_key_observations = h_observations (e_histogram e)\<rparr>, e\<lparr>e_tier := t\<rparr>))"
    have small: "e_tier e < 256" "-1 \<le> e_tier e" using assms(2) config_okD(2) [OF assms(1)] by (auto simp: entry_ok_def)
    obtain keep where band: "(if 0 \<le> e_tier e \<and> e_tier e \<noteq> int ?tier \<and> 0 < ?h
        then held_band (pc_hysteresis c) ?bs (nat (e_tier e)) ?x else Some False) = Some keep"
      using ev assms(4) by (auto simp: Let_def split: option.splits)
    define t where "t = (if keep then e_tier e else int ?tier)"
    have d: "d = \<lparr>dp_estimate_ms = Some ?x, dp_bucket = nat (t mod 256), dp_status = Predicted,
        dp_key_observations = h_observations (e_histogram e)\<rparr>" "e' = e\<lparr>e_tier := t\<rparr>"
      using ev assms(4) unfolding Let_def band option.case t_def [symmetric] by simp_all
    show ?thesis
    proof (cases keep)
      case True
      then have held: "0 \<le> e_tier e" "held_band (pc_hysteresis c) ?bs (nat (e_tier e)) ?x = Some True"
        using band by (auto split: if_splits)
      then have "t = e_tier e" "t mod 256 = t" using True small by (auto simp: t_def)
      then show ?thesis using held d by (auto simp: held_band_def Let_def split: if_splits)
    next
      case False
      then have "t = int ?tier" "t mod 256 = t" using len tier by (auto simp: t_def)
      then show ?thesis using low high d not_le [of "length ?bs" ?tier] by (auto simp: Let_def)
    qed
  qed
qed

text \<open>A key whose two observations have faded away: its estimate is zero, so it leaves the tier it held.\<close>

definition ex_entry :: Entry where
  "ex_entry = (new_entry ex_config 0)\<lparr>e_histogram := (make_histogram ex_config (pc_decay ex_config))\<lparr>h_observations := 2\<rparr>, e_tier := 2\<rparr>"

lemma hist_for_observations: "hist_for c (h\<lparr>h_observations := n\<rparr>) = hist_for c h"
  by (simp add: hist_for_def hist_inv_def layout_ok_def)

theorem predicted_tier_in_band_witness:
  "\<exists>d e'. evaluate ex_config ex_entry \<lparr>bs_sequence = 3, bs_boundaries_ms = [4, 16]\<rparr> = Some (d, e') \<and>
     dp_bucket d = 0 \<and> dp_estimate_ms d = Some 0 \<and> e_tier e' = 0"
proof -
  let ?snap = "\<lparr>bs_sequence = 3, bs_boundaries_ms = [4, 16]\<rparr> :: BoundarySnapshot"
  have h: "h_observations (e_histogram ex_entry) = 2" "h_total (e_histogram ex_entry) = 0" "h_censored (e_histogram ex_entry) = 0"
    by (simp_all add: ex_entry_def make_histogram_def make_DecayingHistogram_def Let_def)
  then have q: "quantile (e_histogram ex_entry) x = 0" for x by (simp add: quantile_def)
  have "hist_for ex_config (e_histogram ex_entry)"
    using make_histogram_ok [OF ex_config_ok, of "pc_decay ex_config"] by (simp add: ex_entry_def hist_for_observations)
  then have e: "entry_ok ex_config ex_entry" by (simp add: entry_ok_def) (simp add: ex_entry_def ex_config_def)
  have b: "boundaries_ok ex_config (bs_boundaries_ms ?snap)" by (simp add: boundaries_ok_def ex_config_def)
  obtain d e' where ev: "evaluate ex_config ex_entry ?snap = Some (d, e')" using evaluate_ok [OF ex_config_ok e b] by blast
  have "dp_status d = Predicted \<and> dp_bucket d = 0 \<and> dp_estimate_ms d = Some 0"
    using ev h q by (auto simp: evaluate_def Let_def censored_fraction_def entry_estimate_def ex_config_def dval_def held_band_def
        tier_of_def ex_entry_def [THEN arg_cong, of e_tier])
  then show ?thesis using ev predicted_tier_in_band [OF ex_config_ok e b ev] by simp
qed

end
