(* ===== verification/Predictor_Keys.thy ===== *)
theory Predictor_Keys
  imports Predictor
begin

text \<open>
  How a message maps to a predictor key, \<^verbatim>\<open>src/ml/duration_predictor.cpp\<close>
  (\<^verbatim>\<open>derive_predictor_key\<close>, \<^verbatim>\<open>derive_predictor_keys\<close>, \<^verbatim>\<open>bin_predictor_key\<close>): the producer and job labels,
  and an optional size bin. Every derived key is usable by the predictor, and under producer
  scoping messages of different producers never share a key.
\<close>

section \<open>Definitions\<close>

datatype SizeSource = SizeNone | SizePayload | SizeHeader

record PredictorKeyPolicy =
  kp_job_header :: string
  kp_scope_by_producer :: bool
  kp_producer_header :: string
  kp_size_source :: SizeSource
  kp_size_header :: string

record PredictorKeys =
  k_key :: string
  k_parent :: "string option"

text \<open>The lambda \<^verbatim>\<open>text\<close>: a header that is named, present and not empty.\<close>

definition header_text :: "header_map \<Rightarrow> string \<Rightarrow> string option" where
  "header_text headers name =
     (if name = [] then None
      else case headers name of None \<Rightarrow> None | Some v \<Rightarrow> if v = [] then None else Some v)"

definition job_label :: "header_map \<Rightarrow> PredictorKeyPolicy \<Rightarrow> string option" where
  "job_label headers policy =
     (case header_text headers (kp_job_header policy) of
        None \<Rightarrow> None
      | Some job \<Rightarrow>
          if kMaxJobKeyBytes < length job \<or> list_ex (\<lambda>c. byte_of c < 0x20 \<or> byte_of c = 0x7f) job then None else Some job)"

definition derive_predictor_key :: "header_map \<Rightarrow> PredictorKeyPolicy \<Rightarrow> string option" where
  "derive_predictor_key headers policy =
     (let job = job_label headers policy;
          producer = header_text headers (kp_producer_header policy);
          key = (if kp_scope_by_producer policy
                 then (case producer of
                     None \<Rightarrow> None
                   | Some pr \<Rightarrow> Some (case job of None \<Rightarrow> pr | Some j \<Rightarrow> pr @ [CHR 0x1F] @ j))
                 else (case job of Some j \<Rightarrow> Some j | None \<Rightarrow> producer))
      in case key of
          None \<Rightarrow> None
        | Some k \<Rightarrow> if kMaxPredictorKeyBytes < length k then None else Some k)"

definition size_policy_label :: "PredictorKeyPolicy \<Rightarrow> string" where
  "size_policy_label policy =
     (case kp_size_source policy of
        SizeNone \<Rightarrow> []
      | SizePayload \<Rightarrow> ''|size=payload''
      | SizeHeader \<Rightarrow> ''|size=header:'' @ kp_size_header policy)"

definition size_bin_label :: "real \<Rightarrow> string" where
  "size_bin_label sz =
     (let clamped = max sz 1; bin = min 63 \<lfloor>log 2 clamped\<rfloor> in CHR ''s'' # int_to_string bin)"

definition parse_size_hint :: "string \<Rightarrow> real option" where
  "parse_size_hint txt =
     (if txt = [] \<or> 32 < length txt then None
      else case from_chars_double txt of
          FcValue v rest \<Rightarrow> if rest \<noteq> [] \<or> \<not> isfinite v \<or> dval v < 0 then None else Some (dval v)
        | _ \<Rightarrow> None)"

definition bin_predictor_key :: "string \<Rightarrow> real option \<Rightarrow> PredictorKeys" where
  "bin_predictor_key key sz =
     (case sz of
        None \<Rightarrow> \<lparr>k_key = key, k_parent = None\<rparr>
      | Some s \<Rightarrow>
          let binned = key @ [CHR 0x1F] @ size_bin_label s in
          if kMaxPredictorKeyBytes < length binned then \<lparr>k_key = key, k_parent = None\<rparr>
          else \<lparr>k_key = binned, k_parent = Some key\<rparr>)"

definition derive_predictor_keys :: "header_map \<Rightarrow> PredictorKeyPolicy \<Rightarrow> nat \<Rightarrow> PredictorKeys option" where
  "derive_predictor_keys headers policy payload_size_bytes =
     (case derive_predictor_key headers policy of
        None \<Rightarrow> None
      | Some key \<Rightarrow>
          let sz = (if kp_size_source policy = SizePayload then Some (real payload_size_bytes)
                    else if kp_size_source policy = SizeHeader \<and> kp_size_header policy \<noteq> []
                      then (case headers (kp_size_header policy) of None \<Rightarrow> None | Some v \<Rightarrow> parse_size_hint v)
                    else None)
          in Some (bin_predictor_key key sz))"

section \<open>Lemmas\<close>

lemma header_text_nonempty: "header_text headers name = Some v \<Longrightarrow> v \<noteq> [] \<and> headers name = Some v"
  by (auto simp: header_text_def split: if_splits option.splits)

lemma job_label_clean:
  "job_label headers policy = Some j \<Longrightarrow> j \<noteq> [] \<and> length j \<le> kMaxJobKeyBytes \<and> CHR 0x1F \<notin> set j"
  by (force simp: job_label_def list_ex_iff dest: header_text_nonempty split: option.splits if_splits)

lemma derive_predictor_key_usable: "derive_predictor_key headers policy = Some k \<Longrightarrow> usable_key k"
  by (auto simp: derive_predictor_key_def usable_key_def Let_def dest: header_text_nonempty job_label_clean
      split: if_splits option.splits)

lemma size_bin_label_form: "\<exists>n < 64. size_bin_label s = CHR ''s'' # nat_to_string n"
proof -
  define b where "b = min 63 \<lfloor>log 2 (max s 1)\<rfloor>"
  have "0 \<le> \<lfloor>log 2 (max s 1)\<rfloor>" by simp
  then have "0 \<le> b" "b < 64" by (simp_all add: b_def del: zero_le_floor)
  then show ?thesis unfolding size_bin_label_def Let_def b_def [symmetric]
    by (intro exI [of _ "nat b"]) (simp add: int_to_string_def)
qed

lemma bin_predictor_key_cases:
  "bin_predictor_key key sz = \<lparr>k_key = key, k_parent = None\<rparr> \<or>
   (\<exists>n < 64. bin_predictor_key key sz = \<lparr>k_key = key @ [CHR 0x1F] @ CHR ''s'' # nat_to_string n, k_parent = Some key\<rparr> \<and>
      length (key @ [CHR 0x1F] @ CHR ''s'' # nat_to_string n) \<le> kMaxPredictorKeyBytes)"
proof (cases sz)
  case (Some s)
  obtain n where "n < 64" "size_bin_label s = CHR ''s'' # nat_to_string n" using size_bin_label_form by blast
  then show ?thesis using Some by (auto simp: bin_predictor_key_def Let_def)
qed (simp add: bin_predictor_key_def)

lemma derive_predictor_keys_cases:
  assumes "derive_predictor_keys headers policy bytes = Some ks"
  obtains k where "derive_predictor_key headers policy = Some k" and
    "ks = \<lparr>k_key = k, k_parent = None\<rparr> \<or>
     (\<exists>n < 64. ks = \<lparr>k_key = k @ [CHR 0x1F] @ CHR ''s'' # nat_to_string n, k_parent = Some k\<rparr> \<and>
        length (k_key ks) \<le> kMaxPredictorKeyBytes)"
proof -
  obtain k sz where k: "derive_predictor_key headers policy = Some k" and ks: "ks = bin_predictor_key k sz"
    using assms by (auto simp: derive_predictor_keys_def Let_def split: option.splits)
  show thesis using that [OF k] bin_predictor_key_cases [of k sz] ks by auto
qed

text \<open>Under scoping the part of a key before the first separator is the producer.\<close>

lemma scoped_key_producer:
  assumes "kp_scope_by_producer policy" "derive_predictor_key headers policy = Some k"
    "headers (kp_producer_header policy) = Some pr" "CHR 0x1F \<notin> set pr"
  shows "takeWhile (\<lambda>c. c \<noteq> CHR 0x1F) k = pr" and "takeWhile (\<lambda>c. c \<noteq> CHR 0x1F) (k @ CHR 0x1F # rest) = pr"
proof -
  have "header_text headers (kp_producer_header policy) = Some pr"
    using assms by (auto simp: derive_predictor_key_def Let_def header_text_def split: if_splits option.splits)
  then have k: "k = pr \<or> (\<exists>j. k = pr @ CHR 0x1F # j)"
    using assms(1,2) by (auto simp: derive_predictor_key_def Let_def split: if_splits option.splits)
  have sep: "takeWhile (\<lambda>c. c \<noteq> CHR 0x1F) (pr @ CHR 0x1F # x) = pr" for x
    using assms(4) by (subst takeWhile_append2) auto
  have "takeWhile (\<lambda>c. c \<noteq> CHR 0x1F) pr = pr" using assms(4) by (auto simp: takeWhile_eq_all_conv)
  with k show "takeWhile (\<lambda>c. c \<noteq> CHR 0x1F) k = pr" by (elim disjE exE) (simp_all only: sep)
  from k obtain j where "k @ CHR 0x1F # rest = pr @ CHR 0x1F # j" by fastforce
  then show "takeWhile (\<lambda>c. c \<noteq> CHR 0x1F) (k @ CHR 0x1F # rest) = pr" by (simp only: sep)
qed

lemma scoped_keys_producer:
  assumes "kp_scope_by_producer policy" "headers (kp_producer_header policy) = Some pr" "CHR 0x1F \<notin> set pr"
    "derive_predictor_keys headers policy bytes = Some ks" "k \<in> {k_key ks} \<union> set_option (k_parent ks)"
  shows "takeWhile (\<lambda>c. c \<noteq> CHR 0x1F) k = pr"
proof -
  obtain k0 where k0: "derive_predictor_key headers policy = Some k0"
    and "ks = \<lparr>k_key = k0, k_parent = None\<rparr> \<or> (\<exists>n < 64. ks = \<lparr>k_key = k0 @ [CHR 0x1F] @ CHR ''s'' # nat_to_string n, k_parent = Some k0\<rparr> \<and>
      length (k_key ks) \<le> kMaxPredictorKeyBytes)"
    by (rule derive_predictor_keys_cases [OF assms(4)])
  then have "k = k0 \<or> (\<exists>rest. k = k0 @ CHR 0x1F # rest)" using assms(5) by auto
  then show ?thesis by (elim disjE exE) (simp_all only: scoped_key_producer [OF assms(1) k0 assms(2,3)])
qed

section \<open>Properties\<close>

definition ex_policy :: PredictorKeyPolicy where
  "ex_policy = \<lparr>kp_job_header = ''job_type'', kp_scope_by_producer = True, kp_producer_header = ''__producer_id'',
     kp_size_source = SizePayload, kp_size_header = []\<rparr>"

lemma ex_derive:
  "pr \<noteq> [] \<Longrightarrow> length pr \<le> 256 \<Longrightarrow>
   derive_predictor_keys [''__producer_id'' \<mapsto> pr] ex_policy n = Some (bin_predictor_key pr (Some (real n)))"
  by (simp add: derive_predictor_keys_def derive_predictor_key_def ex_policy_def job_label_def header_text_def kMaxPredictorKeyBytes_def)

text \<open>
  C27. Every key derived for a message can be looked up and learned: it is not empty and has
  at most 256 bytes. When a size bin was appended the un-binned parent is recorded, is
  usable itself, and the key is the parent, a separator and one of the 64 bin labels.
\<close>

theorem derived_keys_usable:
  assumes "derive_predictor_keys headers policy bytes = Some ks"
  shows "usable_key (k_key ks) \<and>
    (case k_parent ks of
       None \<Rightarrow> derive_predictor_key headers policy = Some (k_key ks)
     | Some parent \<Rightarrow> usable_key parent \<and> derive_predictor_key headers policy = Some parent \<and>
         (\<exists>n < 64. k_key ks = parent @ [CHR 0x1F] @ CHR ''s'' # nat_to_string n))"
  using assms by (rule derive_predictor_keys_cases)
    (auto dest: derive_predictor_key_usable [unfolded usable_key_def] simp: usable_key_def)

theorem derived_keys_usable_witness:
  "usable_key (k_key (the (derive_predictor_keys [''__producer_id'' \<mapsto> ''producer-3''] ex_policy 1)))"
  using derived_keys_usable [OF ex_derive [of "''producer-3''" 1]] by (simp add: ex_derive)

text \<open>
  C26. Producer scoping isolates histories: when the policy scopes keys by producer, two
  messages whose keys or parent keys coincide carry the same producer id, as long as
  producer ids do not contain the separator byte, which the ids the broker assigns never do.
\<close>

theorem scoped_keys_isolate:
  assumes "kp_scope_by_producer policy"
    and "headers (kp_producer_header policy) = Some pr" "headers' (kp_producer_header policy) = Some pr'"
    and "CHR 0x1F \<notin> set pr" "CHR 0x1F \<notin> set pr'"
    and "derive_predictor_keys headers policy bytes = Some ks" "derive_predictor_keys headers' policy bytes' = Some ks'"
    and "k \<in> {k_key ks} \<union> set_option (k_parent ks)" "k \<in> {k_key ks'} \<union> set_option (k_parent ks')"
  shows "pr = pr'"
  using scoped_keys_producer [OF assms(1,2,4,6,8)] scoped_keys_producer [OF assms(1,3,5,7,9)] by simp

theorem scoped_keys_isolate_witness:
  "k_key (the (derive_predictor_keys [''__producer_id'' \<mapsto> ''producer-3''] ex_policy 1)) \<noteq>
   k_key (the (derive_predictor_keys [''__producer_id'' \<mapsto> ''producer-4''] ex_policy 1))"
  using scoped_keys_isolate [of ex_policy "[''__producer_id'' \<mapsto> ''producer-3'']" "''producer-3''"
      "[''__producer_id'' \<mapsto> ''producer-4'']" "''producer-4''" 1 "bin_predictor_key ''producer-3'' (Some 1)"
      1 "bin_predictor_key ''producer-4'' (Some 1)"]
  by (auto simp: ex_derive ex_policy_def [THEN arg_cong, of kp_scope_by_producer] ex_policy_def [THEN arg_cong, of kp_producer_header])

end
