(* ===== verification/Broker_Config.thy ===== *)
theory Broker_Config
  imports Feature_Extractor Predictor_Invariant Predictor_Keys Queue_Invariant
begin

text \<open>
  The configuration of the broker, \<^verbatim>\<open>include/harbinger_service.hpp\<close> (\<^verbatim>\<open>HarbingerConfig\<close>) with the parts it
  is made of, and its validation in \<^verbatim>\<open>src/harbinger_service.cpp\<close> (\<^verbatim>\<open>validate_config\<close>). A
  configuration that validation accepts can always be used to construct the queue, and
  its predictor settings agree with the broker's levels.
\<close>

section \<open>Data\<close>

record IngressFeatureConfig =
  ic_schema :: FeatureSchema
  ic_routing_policy_version :: string

text \<open>Paths are strings.\<close>

record FeedbackConfig =
  fc_path :: string
  fc_buffer_records :: nat
  fc_buffer_bytes :: nat
  fc_max_event_bytes :: nat
  fc_segment_bytes :: nat
  fc_retention_bytes :: nat
  fc_retention_age :: millis
  fc_sync_interval :: millis
  fc_shutdown_drain :: millis
  fc_max_segments :: nat

record PredictiveRoutingConfig =
  pr_mode :: RoutingMode
  pr_key :: PredictorKeyPolicy
  pr_predictor :: PerKeyPredictorConfig
  pr_routing_policy_version :: string
  pr_snapshot_path :: "string option"
  pr_snapshot_interval :: millis

record HarbingerConfig =
  hc_num_levels :: nat
  hc_aging :: "AgingConfig option"
  hc_default_max_retries :: nat
  hc_default_ttl :: millis
  hc_default_priority :: nat
  hc_max_pull_wait :: millis
  hc_ttl_sweep_interval :: millis
  hc_delivery_lease :: millis
  hc_lease_sweep_interval :: millis
  hc_completion_retention :: millis
  hc_completion_cache_max_entries :: nat
  hc_maintenance_batch_size :: nat
  hc_ingress_features :: "IngressFeatureConfig option"
  hc_feedback :: "FeedbackConfig option"
  hc_predictive_routing :: "PredictiveRoutingConfig option"
  hc_level_weights :: "nat list option"

section \<open>Validation\<close>

text \<open>
  The block on \<^verbatim>\<open>predictive_routing\<close>: the levels and the default priority of the predictor are
  overwritten with the broker's.
\<close>

definition check_routing :: "HarbingerConfig \<Rightarrow> PredictiveRoutingConfig \<Rightarrow> MlError + PredictiveRoutingConfig" where
  "check_routing config routing =
     (if pr_mode routing = Disabled
        then Inl (MlError.InvalidArgument ''predictive_routing mode must be shadow or predictive; omit it to disable'')
      else case validate_version (pr_routing_policy_version routing) of
          Inl e \<Rightarrow> Inl e
        | Inr _ \<Rightarrow>
            if (case pr_snapshot_path routing of None \<Rightarrow> False | Some path \<Rightarrow> path = [] \<or> pr_snapshot_interval routing \<le> 0)
              then Inl (MlError.InvalidArgument ''predictor snapshot needs a path and a positive interval'')
            else if starts_reserved (kp_job_header (pr_key routing))
              then Inl (MlError.InvalidArgument ''predictor job header must not be a reserved __ header'')
            else if (kp_size_source (pr_key routing) = SizeHeader) \<noteq> (kp_size_header (pr_key routing) \<noteq> [])
              then Inl (MlError.InvalidArgument ''predictor size_header is required with, and only with, size_source header'')
            else if starts_reserved (kp_size_header (pr_key routing)) \<or> kMaxKeyBytes < length (kp_size_header (pr_key routing))
              then Inl (MlError.InvalidArgument ''predictor size header must be a short, non-reserved header name'')
            else Inr (routing\<lparr>pr_predictor := (pr_predictor routing)\<lparr>pc_num_levels := hc_num_levels config,
                pc_default_priority := hc_default_priority config\<rparr>\<rparr>))"

text \<open>\<^verbatim>\<open>duration_cast<milliseconds>(steady_clock::duration::max() / 2)\<close>.\<close>

definition max_duration :: millis where
  "max_duration = clock_max div 2 div ns_per_ms"

definition check_delivery :: "HarbingerConfig \<Rightarrow> MlError + unit" where
  "check_delivery c =
     (if hc_feedback c \<noteq> None \<and> hc_ingress_features c = None then Inl (MlError.InvalidArgument ''feedback requires ingress_features'')
      else case (case hc_ingress_features c of None \<Rightarrow> Inr () | Some f \<Rightarrow> validate_version (ic_routing_policy_version f)) of
          Inl e \<Rightarrow> Inl e
        | Inr _ \<Rightarrow>
            if hc_num_levels c = 0 then Inl (MlError.InvalidArgument ''HarbingerConfig: num_levels must be >= 1'')
            else if hc_num_levels c \<le> hc_default_priority c
              then Inl (MlError.InvalidArgument ''HarbingerConfig: default_priority must be < num_levels'')
            else if hc_default_max_retries c = 0 then Inl (MlError.InvalidArgument ''HarbingerConfig: default_max_retries must be >= 1'')
            else if hc_default_ttl c < 0 then Inl (MlError.InvalidArgument ''HarbingerConfig: default_ttl must be >= 0'')
            else if hc_max_pull_wait c \<le> 0 then Inl (MlError.InvalidArgument ''HarbingerConfig: max_pull_wait must be positive'')
            else if hc_ttl_sweep_interval c < 0 then Inl (MlError.InvalidArgument ''HarbingerConfig: ttl_sweep_interval must be >= 0'')
            else if hc_delivery_lease c \<le> 0 \<or> hc_lease_sweep_interval c \<le> 0 \<or> hc_completion_retention c \<le> 0 \<or>
                hc_completion_cache_max_entries c = 0 \<or> hc_maintenance_batch_size c = 0
              then Inl (MlError.InvalidArgument ''delivery maintenance settings must be positive'')
            else if max_duration < hc_delivery_lease c \<or> max_duration < hc_lease_sweep_interval c \<or>
                max_duration < hc_completion_retention c \<or> max_duration < hc_ttl_sweep_interval c
              then Inl (MlError.InvalidArgument ''maintenance duration too large'')
            else Inr ())"

definition check_weights :: "HarbingerConfig \<Rightarrow> MlError + unit" where
  "check_weights c =
     (case hc_level_weights c of
        None \<Rightarrow> Inr ()
      | Some weights \<Rightarrow>
          if length weights \<noteq> hc_num_levels c then Inl (MlError.InvalidArgument ''level_weights needs exactly one weight per level'')
          else if list_ex (\<lambda>w. w < 1 \<or> 1000 < w) weights then Inl (MlError.InvalidArgument ''level weights must be in [1, 1000]'')
          else Inr ())"

text \<open>Pausing aging defaults to whether weights are set.\<close>

definition default_pause :: "HarbingerConfig \<Rightarrow> HarbingerConfig" where
  "default_pause c =
     (case hc_aging c of
        None \<Rightarrow> c
      | Some a \<Rightarrow>
          if ag_pause_when_behind a = None
          then c\<lparr>hc_aging := Some (a\<lparr>ag_pause_when_behind := Some (hc_level_weights c \<noteq> None)\<rparr>)\<rparr> else c)"

definition validate_config :: "HarbingerConfig \<Rightarrow> MlError + HarbingerConfig" where
  "validate_config config =
     (case (case hc_predictive_routing config of
              None \<Rightarrow> Inr config
            | Some routing \<Rightarrow>
                (case check_routing config routing of Inl e \<Rightarrow> Inl e | Inr r \<Rightarrow> Inr (config\<lparr>hc_predictive_routing := Some r\<rparr>))) of
        Inl e \<Rightarrow> Inl e
      | Inr c \<Rightarrow>
          (case check_delivery c of
             Inl e \<Rightarrow> Inl e
           | Inr _ \<Rightarrow>
               (case check_weights c of
                  Inl e \<Rightarrow> Inl e
                | Inr _ \<Rightarrow>
                    let c' = default_pause c in
                    if (case hc_aging c' of None \<Rightarrow> False | Some a \<Rightarrow> ag_threshold a \<le> 0 \<or> ag_interval a \<le> 0)
                    then Inl (MlError.InvalidArgument ''HarbingerConfig: aging threshold and interval must be positive'')
                    else Inr c')))"

text \<open>How the constructor of the service builds its queue; \<open>True\<close> stands for the cost function it supplies.\<close>

definition make_level_share :: "HarbingerConfig \<Rightarrow> (nat list \<times> bool) option" where
  "make_level_share c = (case hc_level_weights c of None \<Rightarrow> None | Some w \<Rightarrow> Some (w, True))"

definition make_queue :: "HarbingerConfig \<Rightarrow> QueueError + MultiLevelQueue" where
  "make_queue c = make_MultiLevelQueue (hc_num_levels c) (hc_aging c)
     (if hc_level_weights c \<noteq> None then WeightedTime else StrictPriority) (make_level_share c)"

section \<open>What validation guarantees\<close>

lemma check_routing_ok:
  assumes "check_routing c r = Inr r'"
  shows "pr_mode r' \<noteq> Disabled" "pc_num_levels (pr_predictor r') = hc_num_levels c"
    "pc_default_priority (pr_predictor r') = hc_default_priority c"
    "kp_size_source (pr_key r') = SizeHeader \<longleftrightarrow> kp_size_header (pr_key r') \<noteq> []"
  using assms by (auto simp: check_routing_def split: if_splits sum.splits)

lemma check_delivery_ok:
  assumes "check_delivery c = Inr u"
  shows "1 \<le> hc_num_levels c" "hc_default_priority c < hc_num_levels c" "1 \<le> hc_default_max_retries c" "0 \<le> hc_default_ttl c"
    "0 < hc_delivery_lease c" "0 < hc_completion_retention c" "1 \<le> hc_completion_cache_max_entries c" "1 \<le> hc_maintenance_batch_size c"
    "hc_delivery_lease c \<le> max_duration" "0 < hc_max_pull_wait c"
  using assms by (auto simp: check_delivery_def split: if_splits sum.splits option.splits)

text \<open>The facts about a validated configuration that the rest of the broker relies on.\<close>

definition config_valid :: "HarbingerConfig \<Rightarrow> bool" where
  "config_valid c \<longleftrightarrow>
     1 \<le> hc_num_levels c \<and> hc_default_priority c < hc_num_levels c \<and> 1 \<le> hc_default_max_retries c \<and> 0 \<le> hc_default_ttl c \<and>
     0 < hc_delivery_lease c \<and> hc_delivery_lease c \<le> max_duration \<and> 0 < hc_completion_retention c \<and>
     1 \<le> hc_completion_cache_max_entries c \<and> 1 \<le> hc_maintenance_batch_size c \<and> 0 < hc_max_pull_wait c \<and>
     (case hc_level_weights c of None \<Rightarrow> True | Some w \<Rightarrow> length w = hc_num_levels c \<and> (\<forall>x \<in> set w. 1 \<le> x \<and> x \<le> 1000)) \<and>
     (case hc_aging c of None \<Rightarrow> True | Some a \<Rightarrow> 0 < ag_threshold a \<and> 0 < ag_interval a \<and> ag_pause_when_behind a \<noteq> None) \<and>
     (case hc_predictive_routing c of None \<Rightarrow> True
      | Some r \<Rightarrow> pr_mode r \<noteq> Disabled \<and> pc_num_levels (pr_predictor r) = hc_num_levels c \<and>
          pc_default_priority (pr_predictor r) = hc_default_priority c)"

lemma default_pause_frame [simp]:
  "hc_num_levels (default_pause c) = hc_num_levels c" "hc_default_priority (default_pause c) = hc_default_priority c"
  "hc_default_max_retries (default_pause c) = hc_default_max_retries c" "hc_default_ttl (default_pause c) = hc_default_ttl c"
  "hc_delivery_lease (default_pause c) = hc_delivery_lease c" "hc_completion_retention (default_pause c) = hc_completion_retention c"
  "hc_completion_cache_max_entries (default_pause c) = hc_completion_cache_max_entries c"
  "hc_maintenance_batch_size (default_pause c) = hc_maintenance_batch_size c" "hc_max_pull_wait (default_pause c) = hc_max_pull_wait c"
  "hc_level_weights (default_pause c) = hc_level_weights c" "hc_predictive_routing (default_pause c) = hc_predictive_routing c"
  by (simp_all add: default_pause_def split: option.split)

lemma validate_config_ok:
  assumes "validate_config config = Inr c'"
  shows "config_valid c'"
proof -
  let ?pre = "case hc_predictive_routing config of None \<Rightarrow> Inr config
    | Some routing \<Rightarrow> (case check_routing config routing of Inl e \<Rightarrow> Inl e | Inr r \<Rightarrow> Inr (config\<lparr>hc_predictive_routing := Some r\<rparr>))"
  obtain c where pre: "?pre = Inr c" using assms by (cases ?pre) (auto simp: validate_config_def)
  have c: "check_delivery c = Inr ()" "check_weights c = Inr ()" "c' = default_pause c"
    and age: "case hc_aging c' of None \<Rightarrow> True | Some a \<Rightarrow> 0 < ag_threshold a \<and> 0 < ag_interval a"
    using assms unfolding validate_config_def pre by (auto simp: Let_def not_le split: sum.splits if_splits option.splits)
  have r: "case hc_predictive_routing c of None \<Rightarrow> True
      | Some r \<Rightarrow> pr_mode r \<noteq> Disabled \<and> pc_num_levels (pr_predictor r) = hc_num_levels c \<and>
          pc_default_priority (pr_predictor r) = hc_default_priority c"
    using pre by (auto dest: check_routing_ok split: option.splits sum.splits)
  have "case hc_level_weights c of None \<Rightarrow> True | Some w \<Rightarrow> length w = hc_num_levels c \<and> (\<forall>x \<in> set w. 1 \<le> x \<and> x \<le> 1000)"
    using c(2) by (auto simp: check_weights_def list_ex_iff not_le not_less split: option.splits if_splits)
  moreover have "case hc_aging c' of None \<Rightarrow> True | Some a \<Rightarrow> ag_pause_when_behind a \<noteq> None"
    by (auto simp: c(3) default_pause_def split: option.split)
  ultimately show ?thesis using c age r check_delivery_ok [OF c(1)] by (auto simp: config_valid_def split: option.splits)
qed

section \<open>Properties\<close>


definition ex_harbinger :: HarbingerConfig where
  "ex_harbinger = \<lparr>hc_num_levels = 3, hc_aging = Some default_aging, hc_default_max_retries = 3, hc_default_ttl = 0,
     hc_default_priority = 1, hc_max_pull_wait = 5000, hc_ttl_sweep_interval = 100, hc_delivery_lease = 30000,
     hc_lease_sweep_interval = 100, hc_completion_retention = 60000, hc_completion_cache_max_entries = 10000,
     hc_maintenance_batch_size = 256, hc_ingress_features = None, hc_feedback = None, hc_predictive_routing = None,
     hc_level_weights = Some [8, 4, 2]\<rparr>"

lemma ex_harbinger_valid: "validate_config ex_harbinger = Inr (default_pause ex_harbinger)"
  by (simp add: validate_config_def ex_harbinger_def check_delivery_def check_weights_def default_pause_def default_aging_def
      max_duration_def clock_max_def ns_per_ms_def)


end
