(* ===== verification/Feedback_Event.thy ===== *)
theory Feedback_Event
  imports Feature_Extractor Message
begin

text \<open>
  Feedback events, \<^verbatim>\<open>include/ml/feedback_event.hpp\<close> and \<^verbatim>\<open>src/ml/feedback_event.cpp\<close>: the snapshot taken
  of a message before a transition, the classification of its label, and its bounded JSON
  encoding. The encoding is bounded by the requested limit, and reveals neither the
  predictor keys nor anything else of a message that is not in the event.
\<close>

section \<open>Data\<close>

definition kMaxEventBytes :: nat where "kMaxEventBytes = 16384"

datatype FeedbackTrigger = Submit | Settlement | LeaseExpiry | PullExpiry | TtlSweep
datatype FeedbackOperation = OpAck | OpNack
datatype FeedbackOutcome = OutAck | OutRetry | OutDlq
datatype LabelStatus = Eligible | Failure | LabelCensored | LabelMissing | Negative | LabelOutOfRange | InvalidFeatures

record FeedbackEvent =
  fe_message_id :: string
  fe_routing :: "RoutingContext option"
  fe_attempt_id :: "nat option"
  fe_trigger :: FeedbackTrigger
  fe_operation :: "FeedbackOperation option"
  fe_outcome :: "FeedbackOutcome option"
  fe_dlq_reason :: "DLQReason option"
  fe_retry_count :: nat
  fe_processing_time_ms :: "int option"
  fe_collected_at :: int
  fe_elapsed_since_arrival_ms :: int

section \<open>Capture and labels\<close>

text \<open>\<open>wall\<close> is the reading of the system clock in nanoseconds, \<open>now\<close> that of the steady clock.\<close>

definition capture_feedback :: "int \<Rightarrow> time \<Rightarrow> Message \<Rightarrow> FeedbackTrigger \<Rightarrow> MlError + FeedbackEvent" where
  "capture_feedback wall now msg trigger =
     (if m_id msg = [] \<or> 128 < length (m_id msg) then Inl (InvalidArgument ''feedback message id'')
      else Inr \<lparr>fe_message_id = m_id msg, fe_routing = m_routing_context msg, fe_attempt_id = None, fe_trigger = trigger,
        fe_operation = None, fe_outcome = None, fe_dlq_reason = None, fe_retry_count = m_retry_count msg,
        fe_processing_time_ms = None, fe_collected_at = wall,
        fe_elapsed_since_arrival_ms = ns_to_ms (now - m_arrival_time msg)\<rparr>)"

definition classify_label :: "FeedbackEvent \<Rightarrow> int \<Rightarrow> LabelStatus" where
  "classify_label event lease =
     (case fe_processing_time_ms event of
        None \<Rightarrow> LabelMissing
      | Some t \<Rightarrow>
          if t < 0 then Negative
          else if lease < t then LabelOutOfRange
          else if (case fe_routing event of None \<Rightarrow> True
                   | Some rc \<Rightarrow> rc_features rc = None \<or> rc_feature_validity rc \<noteq> FeaturesValid) then InvalidFeatures
          else if fe_dlq_reason event = Some TTL_EXPIRED then LabelCensored
          else if fe_operation event = Some OpNack then Failure
          else if fe_outcome event = Some OutAck then Eligible else LabelMissing)"

section \<open>Names\<close>

definition trigger_name :: "FeedbackTrigger \<Rightarrow> string" where
  "trigger_name v = (case v of Submit \<Rightarrow> ''submit'' | Settlement \<Rightarrow> ''settlement'' | LeaseExpiry \<Rightarrow> ''lease_expiry''
     | PullExpiry \<Rightarrow> ''pull_expiry'' | TtlSweep \<Rightarrow> ''ttl_sweep'')"

definition outcome_name :: "FeedbackOutcome \<Rightarrow> string" where
  "outcome_name v = (case v of OutAck \<Rightarrow> ''ack'' | OutRetry \<Rightarrow> ''retry'' | OutDlq \<Rightarrow> ''dlq'')"

definition dlq_reason_name :: "DLQReason \<Rightarrow> string" where
  "dlq_reason_name v = (case v of TTL_EXPIRED \<Rightarrow> ''TTL_EXPIRED'' | MAX_RETRIES_EXCEEDED \<Rightarrow> ''MAX_RETRIES_EXCEEDED''
     | PROCESSING_ERROR \<Rightarrow> ''PROCESSING_ERROR'')"

definition mode_name :: "RoutingMode \<Rightarrow> string" where
  "mode_name v = (case v of Disabled \<Rightarrow> ''disabled'' | Shadow \<Rightarrow> ''shadow'' | Predictive \<Rightarrow> ''predictive'')"

definition fallback_name :: "FallbackReason \<Rightarrow> string" where
  "fallback_name v = (case v of FbTimeout \<Rightarrow> ''timeout'' | FbUnavailable \<Rightarrow> ''unavailable'' | FbOverloaded \<Rightarrow> ''overloaded''
     | FbUnready \<Rightarrow> ''unready'' | FbIncompatibleVersion \<Rightarrow> ''incompatible_version'' | FbInvalidPrediction \<Rightarrow> ''invalid_prediction''
     | FbFeatureLimit \<Rightarrow> ''feature_limit'' | FbClientError \<Rightarrow> ''client_error'' | FbColdKey \<Rightarrow> ''cold_key''
     | FbHighSpread \<Rightarrow> ''high_spread'' | FbCensored \<Rightarrow> ''censored'' | FbStaleKey \<Rightarrow> ''stale_key'' | FbInvalidKey \<Rightarrow> ''invalid_key'')"

definition label_name :: "LabelStatus \<Rightarrow> string" where
  "label_name v = (case v of Eligible \<Rightarrow> ''eligible'' | Failure \<Rightarrow> ''failure'' | LabelCensored \<Rightarrow> ''censored''
     | LabelMissing \<Rightarrow> ''missing'' | Negative \<Rightarrow> ''negative'' | LabelOutOfRange \<Rightarrow> ''out_of_range'' | InvalidFeatures \<Rightarrow> ''invalid_features'')"

section \<open>Timestamps\<close>

text \<open>
  \<^verbatim>\<open>gmtime_r\<close> and \<^verbatim>\<open>strftime\<close> with \<^verbatim>\<open>%Y-%m-%dT%H:%M:%SZ\<close>: the proleptic Gregorian date of a day
  number counted from 1 January 1970, and the time of day. \<^verbatim>\<open>to_time_t\<close> truncates to seconds; a
  64-bit count of nanoseconds stays within the years 1677 to 2262, so the conversion
  succeeds.
\<close>

definition civil_from_days :: "int \<Rightarrow> int \<times> int \<times> int" where
  "civil_from_days days =
     (let z = days + 719468; era = z div 146097; doe = z mod 146097;
          yoe = (doe - doe div 1460 + doe div 36524 - doe div 146096) div 365;
          doy = doe - (365 * yoe + yoe div 4 - yoe div 100);
          mp = (5 * doy + 2) div 153;
          day = doy - (153 * mp + 2) div 5 + 1;
          month = (if mp < 10 then mp + 3 else mp - 9)
      in (yoe + era * 400 + (if month \<le> 2 then 1 else 0), month, day))"

definition two_digits :: "int \<Rightarrow> string" where
  "two_digits n = [digit_char (nat (n div 10)), digit_char (nat (n mod 10))]"

definition utc_timestamp :: "int \<Rightarrow> string" where
  "utc_timestamp wall =
     (let secs = (if wall < 0 then - ((- wall) div 1000000000) else wall div 1000000000);
          (year, month, day) = civil_from_days (secs div 86400); tod = secs mod 86400
      in int_to_string year @ ''-'' @ two_digits month @ ''-'' @ two_digits day @ ''T'' @
         two_digits (tod div 3600) @ '':'' @ two_digits (tod div 60 mod 60) @ '':'' @ two_digits (tod mod 60) @ ''Z'')"

section \<open>Encoding\<close>

type_synonym pieces = "(MlError + string) list"

definition version_check :: "string \<Rightarrow> pieces" where
  "version_check v = (case validate_version v of Inl e \<Rightarrow> [Inl e] | Inr _ \<Rightarrow> [])"

definition optional :: "('a \<Rightarrow> pieces) \<Rightarrow> 'a option \<Rightarrow> pieces" where
  "optional f x = (case x of None \<Rightarrow> [Inr ''null''] | Some v \<Rightarrow> f v)"

definition event_number :: "double \<Rightarrow> MlError + string" where
  "event_number d = json_number ''nonfinite feedback number'' ''feedback conversion'' d"

definition context_json :: "RoutingContext \<Rightarrow> pieces" where
  \<open>context_json c =
     version_check (rc_feature_schema_version c) @ version_check (rc_routing_policy_version c) @
     [Inr ''{"feature_schema_version":''] @ json_quoted (rc_feature_schema_version c) @
     [Inr '',"routing_policy_version":''] @ json_quoted (rc_routing_policy_version c) @
     [Inr '',"model_version":''] @ optional (\<lambda>v. version_check v @ json_quoted v) (rc_model_version c) @
     [Inr '',"mode":''] @ json_quoted (mode_name (rc_mode c)) @
     [Inr '',"features":''] @ optional (\<lambda>s. [snapshot_json s]) (rc_features c) @
     [Inr '',"feature_validity":''] @
       json_quoted (if rc_feature_validity c = FeaturesValid then ''valid'' else ''feature_limit'') @
     [Inr '',"predicted_processing_time_ms":''] @ optional (\<lambda>d. [event_number d]) (rc_predicted_processing_time_ms c) @
     [Inr '',"predicted_bucket":''] @ optional (\<lambda>b. [Inr (nat_to_string b)]) (rc_predicted_bucket c) @
     [Inr '',"ingress_priority":'', Inr (nat_to_string (rc_ingress_priority c))] @
     [Inr '',"fallback_reason":''] @ optional (\<lambda>r. json_quoted (fallback_name r)) (rc_fallback_reason c) @
     [Inr '',"inference_elapsed_ms":''] @ optional (\<lambda>x. [event_number (Finite x)]) (rc_inference_elapsed_ms c) @
     [Inr ''}'']\<close>

definition event_pieces :: "FeedbackEvent \<Rightarrow> RoutingContext \<Rightarrow> string \<Rightarrow> nat \<Rightarrow> int \<Rightarrow> pieces" where
  \<open>event_pieces event routing instance_id sequence lease =
     [Inr ''{"record_version":1,"event_id":''] @ json_quoted (instance_id @ '':'' @ nat_to_string sequence) @
     [Inr '',"broker_instance_id":''] @ json_quoted instance_id @
     [Inr '',"message_id":''] @ json_quoted (fe_message_id event) @
     [Inr '',"event_type":''] @ json_quoted (if fe_trigger event = Submit then ''ingress'' else ''outcome'') @
     [Inr '',"attempt_id":''] @ optional (\<lambda>a. json_quoted (nat_to_string a)) (fe_attempt_id event) @
     (if 32 \<le> length (utc_timestamp (fe_collected_at event)) then [Inl (InvalidArgument ''feedback timestamp'')] else []) @
     [Inr '',"collected_at_utc":''] @ json_quoted (utc_timestamp (fe_collected_at event)) @
     [Inr '',"routing":''] @ context_json routing @
     [Inr '',"settlement_operation":''] @
       optional (\<lambda>opn. json_quoted (if opn = OpAck then ''ack'' else ''nack'')) (fe_operation event) @
     [Inr '',"trigger":''] @ json_quoted (trigger_name (fe_trigger event)) @
     [Inr '',"outcome":''] @ optional (\<lambda>x. json_quoted (outcome_name x)) (fe_outcome event) @
     [Inr '',"dlq_reason":''] @ optional (\<lambda>x. json_quoted (dlq_reason_name x)) (fe_dlq_reason event) @
     [Inr '',"retry_count":'', Inr (nat_to_string (fe_retry_count event))] @
     [Inr '',"processing_time_ms":''] @ optional (\<lambda>t. [Inr (int_to_string t)]) (fe_processing_time_ms event) @
     [Inr '',"label_status":''] @ json_quoted (label_name (classify_label event lease)) @
     [Inr '',"elapsed_since_arrival_ms":'', Inr (int_to_string (fe_elapsed_since_arrival_ms event))] @
     [Inr ''}'']\<close>

definition feedback_json :: "FeedbackEvent \<Rightarrow> string \<Rightarrow> nat \<Rightarrow> int \<Rightarrow> nat \<Rightarrow> MlError + string" where
  "feedback_json event instance_id sequence lease max_bytes =
     (case validate_version instance_id of
        Inl e \<Rightarrow> Inl e
      | Inr _ \<Rightarrow>
          (case validate_version (fe_message_id event) of
             Inl e \<Rightarrow> Inl e
           | Inr _ \<Rightarrow>
               (case fe_routing event of
                  None \<Rightarrow> Inl (InvalidArgument ''feedback identity/context/limit'')
                | Some routing \<Rightarrow>
                    if sequence = 0 \<or> fe_message_id event = [] \<or> 128 < length (fe_message_id event) \<or> kMaxEventBytes < max_bytes
                    then Inl (InvalidArgument ''feedback identity/context/limit'')
                    else json_run max_bytes (event_pieces event routing instance_id sequence lease) [])))"

section \<open>Properties\<close>


text \<open>
  C34. Feedback does not leak predictor keys: the encoding of an event is bounded by the
  requested limit, at most 16384 bytes, and is the same whatever predictor key and parent
  key the routing context holds.
\<close>

theorem feedback_json_private:
  "(case feedback_json event instance_id sequence lease max_bytes of
      Inl _ \<Rightarrow> True
    | Inr json \<Rightarrow> length json \<le> max_bytes \<and> max_bytes \<le> kMaxEventBytes) \<and>
   feedback_json (event\<lparr>fe_routing := map_option (\<lambda>rc. rc\<lparr>rc_predictor_key := k, rc_predictor_parent_key := k'\<rparr>) (fe_routing event)\<rparr>)
     instance_id sequence lease max_bytes = feedback_json event instance_id sequence lease max_bytes"
proof -
  have ctx: "context_json (rc\<lparr>rc_predictor_key := k, rc_predictor_parent_key := k'\<rparr>) = context_json rc" for rc
    by (simp add: context_json_def)
  let ?e = "event\<lparr>fe_routing := map_option (\<lambda>rc. rc\<lparr>rc_predictor_key := k, rc_predictor_parent_key := k'\<rparr>) (fe_routing event)\<rparr>"
  have label: "classify_label ?e lease = classify_label event lease"
    by (simp add: classify_label_def split: option.split)
  have pieces: "event_pieces ?e (rc\<lparr>rc_predictor_key := k, rc_predictor_parent_key := k'\<rparr>) instance_id sequence lease =
      event_pieces event rc instance_id sequence lease" for rc
    unfolding event_pieces_def label ctx by simp
  have "feedback_json ?e instance_id sequence lease max_bytes = feedback_json event instance_id sequence lease max_bytes"
    using pieces by (cases "fe_routing event") (simp_all add: feedback_json_def split: sum.split)
  moreover have "length json \<le> max_bytes \<and> max_bytes \<le> kMaxEventBytes"
    if "feedback_json event instance_id sequence lease max_bytes = Inr json" for json
    using that json_run_bounded [of max_bytes _ "[]" json] by (auto simp: feedback_json_def split: sum.splits option.splits if_splits)
  ultimately show ?thesis by (simp split: sum.split)
qed

end
