(* ===== verification/Proxy.thy ===== *)
theory Proxy
  imports Message Charconv
begin

text \<open>
  The ingress proxy, \<^verbatim>\<open>include/proxy/proxy.hpp\<close> and \<^verbatim>\<open>src/proxy/proxy.cpp\<close>: it stamps a payload with a
  message id, an arrival time and its producer and hands it to the routing sink. Ids
  are a clock reading and a process-wide 64-bit counter; they differ even when the clock does
  not move.
\<close>

section \<open>Definitions\<close>

text \<open>The counter of \<^verbatim>\<open>generate_id\<close> is static: the proxy and the broker's attempt tokens share it.\<close>

record Proxy =
  px_counter :: "64 word"
  px_accepted :: "64 word"

text \<open>\<open>sink\<close> says whether a routing callback was supplied.\<close>

definition make_Proxy :: "bool \<Rightarrow> MlError + Proxy" where
  "make_Proxy sink = (if \<not> sink then Inl (InvalidArgument ''Proxy: sink must not be null'') else Inr \<lparr>px_counter = 0, px_accepted = 0\<rparr>)"

definition generate_id :: "time \<Rightarrow> Proxy \<Rightarrow> string \<times> Proxy" where
  "generate_id ts px =
     (int_to_string ts @ ''-'' @ nat_to_string (unat (px_counter px)), px\<lparr>px_counter := px_counter px + 1\<rparr>)"

text \<open>
  \<^verbatim>\<open>accept\<close>: the message handed to the sink and the id returned to the producer. \<open>clk 0\<close> is the
  clock reading of the id, \<open>clk 1\<close> the arrival time. A fresh \<^verbatim>\<open>Message\<close> has the default values.
\<close>

definition proxy_accept ::
  "(nat \<Rightarrow> time) \<Rightarrow> byte list \<Rightarrow> header_map \<Rightarrow> string \<Rightarrow> millis option \<Rightarrow> Proxy \<Rightarrow> string \<times> Message \<times> Proxy" where
  "proxy_accept clk payload headers producer_id ttl px =
     (let (mid, px1) = generate_id (clk 0) px;
          msg = default_message\<lparr>m_id := mid, m_arrival_time := clk 1, m_ttl := (case ttl of Some t \<Rightarrow> t | None \<Rightarrow> kTtlUnset),
            m_payload := payload, m_headers := headers(''__producer_id'' \<mapsto> producer_id)\<rparr>
      in (mid, msg, px1\<lparr>px_accepted := px_accepted px1 + 1\<rparr>))"

definition messages_accepted :: "Proxy \<Rightarrow> 64 word" where
  "messages_accepted px = px_accepted px"

section \<open>Ids\<close>

text \<open>The number at the end of an id or of an attempt token: its digits up to the last dash.\<close>

definition id_number :: "string \<Rightarrow> string" where
  "id_number s = rev (takeWhile (\<lambda>c. c \<noteq> CHR ''-'') (rev s))"

lemma dash_not_digit: "\<not> is_digit (CHR ''-'')"
  by (simp add: is_digit_def)

lemma id_number_nat [simp]: "id_number (s @ CHR ''-'' # nat_to_string n) = nat_to_string n"
proof -
  have "CHR ''-'' \<notin> set (nat_to_string n)" using nat_to_string_digits dash_not_digit by blast
  then have "takeWhile (\<lambda>c. c \<noteq> CHR ''-'') (rev (nat_to_string n) @ CHR ''-'' # rev s) = rev (nat_to_string n)"
    by (subst takeWhile_append2) auto
  then show ?thesis by (simp add: id_number_def)
qed

lemma id_number_generate [simp]: "id_number (s @ fst (generate_id ts px)) = nat_to_string (unat (px_counter px))"
  using id_number_nat [of "s @ int_to_string ts" "unat (px_counter px)"] by (simp add: generate_id_def)

lemma id_number_generate0 [simp]: "id_number (fst (generate_id ts px)) = nat_to_string (unat (px_counter px))"
  using id_number_generate [of "[]" ts px] by simp

text \<open>The ids given out by a sequence of calls at the given clock readings.\<close>

fun generate_ids :: "time list \<Rightarrow> Proxy \<Rightarrow> string list" where
  "generate_ids [] px = []"
| "generate_ids (ts # tss) px = (case generate_id ts px of (mid, px') \<Rightarrow> mid # generate_ids tss px')"

lemma generate_ids_numbers:
  "map id_number (generate_ids tss px) = map (\<lambda>i. nat_to_string (unat (px_counter px + of_nat i))) [0 ..< length tss]"
proof (induction tss arbitrary: px)
  case (Cons ts tss)
  let ?px = "px\<lparr>px_counter := px_counter px + 1\<rparr>"
  have "generate_id ts px = (fst (generate_id ts px), ?px)" by (simp add: generate_id_def)
  then have "generate_ids (ts # tss) px = fst (generate_id ts px) # generate_ids tss ?px"
    by (metis (no_types, lifting) case_prod_conv generate_ids.simps(2))
  then have "map id_number (generate_ids (ts # tss) px) =
      nat_to_string (unat (px_counter px)) # map (\<lambda>i. nat_to_string (unat (px_counter px + 1 + of_nat i))) [0 ..< length tss]"
    using Cons [of ?px] by simp
  also have "\<dots> = map (\<lambda>i. nat_to_string (unat (px_counter px + of_nat i))) (0 # map Suc [0 ..< length tss])"
    by (simp add: comp_def add.assoc)
  also have "0 # map Suc [0 ..< length tss] = [0 ..< length (ts # tss)]"
    by (simp only: map_Suc_upt list.size upt_conv_Cons) simp
  finally show ?case .
qed simp

section \<open>Properties\<close>

text \<open>
  C35. Message ids are unique: any sequence of at most \<open>2 ^ 64\<close> calls gives pairwise
  different ids, whatever the clock reads, repeated or decreasing readings included.
\<close>

theorem generated_ids_distinct:
  assumes "length tss \<le> 2 ^ 64"
  shows "distinct (generate_ids tss px)"
proof -
  have "inj_on (\<lambda>i. unat (px_counter px + of_nat i)) {0 ..< length tss}"
  proof (rule inj_onI)
    fix i j assume ij: "i \<in> {0 ..< length tss}" "j \<in> {0 ..< length tss}"
      and "unat (px_counter px + of_nat i) = unat (px_counter px + of_nat j)"
    then have "(of_nat i :: 64 word) = of_nat j" by (simp add: unsigned_word_eqI word_unat_eq_iff [symmetric])
    moreover have "i < 2 ^ LENGTH(64)" "j < 2 ^ LENGTH(64)" using ij assms by auto
    ultimately show "i = j" using of_nat_inverse by metis
  qed
  then have "distinct (map id_number (generate_ids tss px))"
    by (simp add: generate_ids_numbers distinct_map inj_on_def)
  then show ?thesis by (simp add: distinct_map)
qed

theorem generated_ids_distinct_witness: "distinct (generate_ids [5, 5, 3] \<lparr>px_counter = - 1, px_accepted = 0\<rparr>)"
  by (rule generated_ids_distinct) simp

end
