(* ===== verification/Broker.thy ===== *)
theory Broker
  imports Broker_Config Feedback_Event Proxy Dead_Letter_Queue
begin

text \<open>
  The broker service, \<^verbatim>\<open>include/harbinger_service.hpp\<close> and \<^verbatim>\<open>src/harbinger_service.cpp\<close>: its state, and the
  ingress side (registration, submission, prediction and learning). Delivery and settlement
  are in the next theory. Operations take the readings of the clocks they make as functions
  \<open>clk\<close> and \<open>wall\<close> from the number of the reading; \<open>hash\<close> is \<^verbatim>\<open>std::hash\<close>. The result \<open>None\<close> of an
  operation stands for a fault: a reference to something that is not there, or an exception that
  leaves the handler. The feedback writer is the list of events handed to it.
\<close>

section \<open>State\<close>

datatype Settlement = SAck | SNack | SExpired

record Completion =
  c_message_id :: string
  c_token :: string
  c_owner :: string
  c_kind :: Settlement
  c_time :: time

record PredictorUpdate =
  u_key :: string
  u_parent :: "string option"
  u_duration_ms :: "real option"
  u_censored :: bool
  u_predicted_ms :: "double option"
  u_predicted_bucket :: "nat option"

record RoutingCounters =
  rt_lookups :: nat
  rt_routed :: nat
  rt_parent_fallbacks :: nat
  rt_latency_total :: nat
  rt_latency_max :: nat
  rt_outcomes :: "nat list"
  rt_latency :: "nat list"
  rt_learned :: nat
  rt_learn_rejected :: nat
  rt_censored :: nat
  rt_snapshot_saves :: nat
  rt_snapshot_failures :: nat
  rt_scored :: nat
  rt_matches :: nat
  rt_drift_alerts :: nat
  rt_error_ewma :: real
  rt_window :: "bool list"
  rt_window_next :: nat
  rt_window_size :: nat
  rt_window_hits :: nat
  rt_drift_latched :: bool
  rt_snapshot_loaded :: bool
  rt_snapshot_status :: string

text \<open>\<^verbatim>\<open>deadline\<close>: the key of the lease index entry the iterator points at; the entry's value is the message id.\<close>

record InFlightEntry =
  f_message :: Message
  f_consumer_id :: string
  f_pull_time :: time
  f_attempt_token :: string
  f_deadline :: time
  f_attempt_id :: nat

text \<open>
  List elements keep their identity, so the iterators of \<^verbatim>\<open>completed_\<close> are serial numbers of
  the elements of \<^verbatim>\<open>completions_\<close>.
\<close>

record Broker =
  b_config :: HarbingerConfig
  b_feature_extractor :: "FeatureSchema option"
  b_predictor :: "PerKeyPredictor option"
  b_snapshot_context :: string
  b_routing :: RoutingCounters
  b_level_cost_ms :: "real list"
  b_published :: "FeedbackEvent list"
  b_capture_drops :: nat
  b_queue :: MultiLevelQueue
  b_dlq :: DeadLetterQueue
  b_proxy :: Proxy
  b_in_flight :: "(string \<times> InFlightEntry) list"
  b_deadlines :: "(time \<times> string) list"
  b_instance_token :: string
  b_completions :: "(nat \<times> Completion) list"
  b_completed :: "(string \<times> nat) list"
  b_next_completion :: nat
  b_registered_producers :: "string list"
  b_producer_counter :: "64 word"
  b_registered_consumers :: "string list"
  b_consumer_counter :: "64 word"

datatype StatusCode =
    OK | CANCELLED | INVALID_ARGUMENT | NOT_FOUND | PERMISSION_DENIED | RESOURCE_EXHAUSTED | FAILED_PRECONDITION | INTERNAL

type_synonym Status = "StatusCode \<times> string"

section \<open>Construction\<close>

definition no_routing :: RoutingCounters where
  "no_routing = \<lparr>rt_lookups = 0, rt_routed = 0, rt_parent_fallbacks = 0, rt_latency_total = 0, rt_latency_max = 0,
     rt_outcomes = replicate 7 0, rt_latency = replicate 6 0, rt_learned = 0, rt_learn_rejected = 0, rt_censored = 0,
     rt_snapshot_saves = 0, rt_snapshot_failures = 0, rt_scored = 0, rt_matches = 0, rt_drift_alerts = 0, rt_error_ewma = 0,
     rt_window = replicate 512 False, rt_window_next = 0, rt_window_size = 0, rt_window_hits = 0, rt_drift_latched = False,
     rt_snapshot_loaded = False, rt_snapshot_status = ''none''\<rparr>"

definition snapshot_context :: "PredictiveRoutingConfig \<Rightarrow> string" where
  "snapshot_context r =
     pr_routing_policy_version r @ ''|key='' @ kp_job_header (pr_key r) @
     (if kp_scope_by_producer (pr_key r) then ''|scoped'' else ''|unscoped'') @ size_policy_label (pr_key r)"

text \<open>
  Restoring a snapshot at start-up. \<open>present\<close> says whether the file exists, \<open>load\<close> is the
  outcome of reading it into the given predictor: an error text, or the number of keys and
  the restored predictor.
\<close>

definition start_predictor ::
  "(string \<Rightarrow> bool) \<Rightarrow> (string \<Rightarrow> string \<Rightarrow> PerKeyPredictor \<Rightarrow> string + nat \<times> PerKeyPredictor) \<Rightarrow> PredictiveRoutingConfig \<Rightarrow>
   MlError + PerKeyPredictor \<times> RoutingCounters" where
  "start_predictor present load r =
     (case make_PerKeyPredictor (pr_predictor r) of
        Inl e \<Rightarrow> Inl e
      | Inr p \<Rightarrow>
          Inr (case pr_snapshot_path r of
             None \<Rightarrow> (p, no_routing)
           | Some path \<Rightarrow>
               if \<not> present path then (p, no_routing\<lparr>rt_snapshot_status := ''absent; starting cold''\<rparr>)
               else (case load path (snapshot_context r) p of
                   Inr (restored, p') \<Rightarrow>
                     (p', no_routing\<lparr>rt_snapshot_loaded := True, rt_snapshot_status := ''restored '' @ nat_to_string restored @ '' keys''\<rparr>)
                 | Inl what \<Rightarrow> (p, no_routing\<lparr>rt_snapshot_status := ''rejected; starting cold: '' @ what\<rparr>))))"

text \<open>
  The constructor. \<open>seed\<close> is the value drawn from \<^verbatim>\<open>std::random_device\<close>, \<open>ts\<close> the clock reading of the
  instance token, \<open>px\<close> the proxy, whose static counter may have been used before. A rejected
  configuration, schema or predictor setting is an exception: \<open>None\<close>.
\<close>

definition HarbingerService ::
  "(string \<Rightarrow> bool) \<Rightarrow> (string \<Rightarrow> string \<Rightarrow> PerKeyPredictor \<Rightarrow> string + nat \<times> PerKeyPredictor) \<Rightarrow> 32 word \<Rightarrow> time \<Rightarrow> Proxy \<Rightarrow>
   HarbingerConfig \<Rightarrow> Broker option" where
  "HarbingerService present load seed ts px config =
     (case validate_config config of
        Inl _ \<Rightarrow> None
      | Inr c \<Rightarrow>
          (case (case hc_ingress_features c of None \<Rightarrow> Inr None | Some f \<Rightarrow> map_sum id Some (FeatureExtractor (ic_schema f))) of
             Inl _ \<Rightarrow> None
           | Inr extractor \<Rightarrow>
               (case make_queue c of
                  Inl _ \<Rightarrow> None
                | Inr q \<Rightarrow>
                    (case (case hc_predictive_routing c of
                             None \<Rightarrow> Inr (None, no_routing)
                           | Some r \<Rightarrow> map_sum id (map_prod Some id) (start_predictor present load r)) of
                       Inl _ \<Rightarrow> None
                     | Inr (predictor, counters) \<Rightarrow>
                         let (gid, px1) = generate_id ts px in
                         Some \<lparr>b_config = c, b_feature_extractor = extractor, b_predictor = predictor,
                           b_snapshot_context = (case hc_predictive_routing c of None \<Rightarrow> [] | Some r \<Rightarrow> snapshot_context r),
                           b_routing = counters, b_level_cost_ms = replicate 256 0, b_published = [], b_capture_drops = 0,
                           b_queue = q, b_dlq = [], b_proxy = px1, b_in_flight = [], b_deadlines = [],
                           b_instance_token = nat_to_string (unat seed) @ ''-'' @ gid, b_completions = [], b_completed = [],
                           b_next_completion = 0, b_registered_producers = [], b_producer_counter = 0,
                           b_registered_consumers = [], b_consumer_counter = 0\<rparr>))))"

section \<open>Small operations\<close>

definition is_registered_producer :: "string \<Rightarrow> Broker \<Rightarrow> bool" where
  "is_registered_producer pid b = (pid \<in> set (b_registered_producers b))"

definition is_registered_consumer :: "string \<Rightarrow> Broker \<Rightarrow> bool" where
  "is_registered_consumer cid b = (cid \<in> set (b_registered_consumers b))"

definition in_flight_count :: "Broker \<Rightarrow> nat" where
  "in_flight_count b = length (b_in_flight b)"

definition has_writer :: "Broker \<Rightarrow> bool" where
  "has_writer b = (hc_feedback (b_config b) \<noteq> None)"

text \<open>A failed capture is counted and forgotten.\<close>

definition capture_event :: "int \<Rightarrow> time \<Rightarrow> Message \<Rightarrow> FeedbackTrigger \<Rightarrow> Broker \<Rightarrow> FeedbackEvent option \<times> Broker" where
  "capture_event wall now msg trigger b =
     (if \<not> has_writer b then (None, b)
      else case capture_feedback wall now msg trigger of
          Inr event \<Rightarrow> (Some event, b)
        | Inl _ \<Rightarrow> (None, b\<lparr>b_capture_drops := Suc (b_capture_drops b)\<rparr>))"

definition publish_event :: "FeedbackEvent option \<Rightarrow> Broker \<Rightarrow> Broker" where
  "publish_event event b =
     (case event of None \<Rightarrow> b | Some e \<Rightarrow> if has_writer b then b\<lparr>b_published := b_published b @ [e]\<rparr> else b)"

text \<open>The cost function the queue calls: the predicted duration, else the learned average of the level.\<close>

definition broker_cost :: "Broker \<Rightarrow> CostFn" where
  "broker_cost b msg =
     Some (case Option.bind (m_routing_context msg) rc_predicted_processing_time_ms of
        Some d \<Rightarrow> d
      | None \<Rightarrow> let average = b_level_cost_ms b ! m_priority msg in Finite (if 0 < average then average else kMinCostMs))"

record LevelShareReport =
  ls_weights :: "nat list"
  ls_pulls :: "nat list"
  ls_charged_ms :: "real list"
  ls_average_cost_ms :: "real list"

definition level_share :: "Broker \<Rightarrow> LevelShareReport option" where
  "level_share b =
     (case hc_level_weights (b_config b) of
        None \<Rightarrow> None
      | Some weights \<Rightarrow>
          let (pulls, charged) = share_stats (b_queue b) in
          Some \<lparr>ls_weights = weights, ls_pulls = pulls, ls_charged_ms = charged,
            ls_average_cost_ms = map (\<lambda>l. b_level_cost_ms b ! l) [0 ..< hc_num_levels (b_config b)]\<rparr>)"

section \<open>Prediction at ingress\<close>

text \<open>
  The lookup of a message's key; a cold size bin borrows a prediction from its parent key.
  The Boolean says that it did.
\<close>

definition lookup_prediction ::
  "(string \<Rightarrow> nat) \<Rightarrow> (nat \<Rightarrow> time) \<Rightarrow> nat \<Rightarrow> RoutingContext \<Rightarrow> PerKeyPredictor \<Rightarrow> (DurationPrediction \<times> bool \<times> PerKeyPredictor) option" where
  "lookup_prediction hash clk default_priority context p =
     (case rc_predictor_key context of
        None \<Rightarrow>
          Some (\<lparr>dp_estimate_ms = None, dp_bucket = default_priority, dp_status = InvalidKey, dp_key_observations = 0\<rparr>, False, p)
      | Some key \<Rightarrow>
          (case predict hash (clk 1) key p of
             None \<Rightarrow> None
           | Some (d, p1) \<Rightarrow>
               if dp_status d = ColdKey
               then (case rc_predictor_parent_key context of
                   None \<Rightarrow> Some (d, False, p1)
                 | Some parent \<Rightarrow>
                     (case predict hash (clk 2) parent p1 of
                        None \<Rightarrow> None
                      | Some (d', p2) \<Rightarrow> if dp_status d' = Predicted then Some (d', True, p2) else Some (d, False, p2)))
               else Some (d, False, p1)))"

text \<open>The loop that finds the latency bucket: limits 1000 ns, 10000 ns, ..., six buckets.\<close>

function latency_bucket :: "nat \<Rightarrow> nat \<Rightarrow> nat \<Rightarrow> nat" where
  "latency_bucket elapsed limit bucket =
     (if bucket + 1 < 6 \<and> limit \<le> elapsed then latency_bucket elapsed (limit * 10) (bucket + 1) else bucket)"
  by pat_completeness auto
termination
  by (relation "measure (\<lambda>(elapsed, limit, bucket). 6 - bucket)") auto

declare latency_bucket.simps [simp del]

definition status_index :: "PredictionStatus \<Rightarrow> nat" where
  "status_index s = (case s of Predicted \<Rightarrow> 0 | Unready \<Rightarrow> 1 | ColdKey \<Rightarrow> 2 | HighSpread \<Rightarrow> 3 | Censored \<Rightarrow> 4 | StaleKey \<Rightarrow> 5
     | InvalidKey \<Rightarrow> 6)"

definition bump :: "nat \<Rightarrow> nat list \<Rightarrow> nat list" where
  "bump i xs = xs[i := Suc (xs ! i)]"

definition count_lookup :: "nat \<Rightarrow> DurationPrediction \<Rightarrow> bool \<Rightarrow> RoutingCounters \<Rightarrow> RoutingCounters" where
  "count_lookup elapsed d borrowed rt =
     rt\<lparr>rt_parent_fallbacks := (if borrowed then Suc (rt_parent_fallbacks rt) else rt_parent_fallbacks rt),
        rt_lookups := Suc (rt_lookups rt), rt_latency_total := rt_latency_total rt + elapsed,
        rt_latency_max := max (rt_latency_max rt) elapsed,
        rt_latency := bump (latency_bucket elapsed 1000 0) (rt_latency rt),
        rt_outcomes := bump (status_index (dp_status d)) (rt_outcomes rt)\<rparr>"

text \<open>What the prediction leaves in the context; a bucket that is no level counts as an invalid key.\<close>

definition apply_prediction :: "nat \<Rightarrow> DurationPrediction \<Rightarrow> RoutingContext \<Rightarrow> RoutingContext" where
  "apply_prediction num_levels d context =
     (let bad = (dp_status d = Predicted \<and> num_levels \<le> dp_bucket d);
          c = (if bad then context\<lparr>rc_fallback_reason := Some FbInvalidPrediction\<rparr> else context)
      in case (if bad then InvalidKey else dp_status d) of
          Predicted \<Rightarrow> c\<lparr>rc_predicted_processing_time_ms := map_option Finite (dp_estimate_ms d), rc_predicted_bucket := Some (dp_bucket d)\<rparr>
        | Unready \<Rightarrow> c\<lparr>rc_fallback_reason := Some FbUnready\<rparr>
        | ColdKey \<Rightarrow> c\<lparr>rc_fallback_reason := Some FbColdKey\<rparr>
        | HighSpread \<Rightarrow> c\<lparr>rc_fallback_reason := Some FbHighSpread\<rparr>
        | Censored \<Rightarrow> c\<lparr>rc_fallback_reason := Some FbCensored\<rparr>
        | StaleKey \<Rightarrow> c\<lparr>rc_fallback_reason := Some FbStaleKey\<rparr>
        | InvalidKey \<Rightarrow> if rc_fallback_reason c = None then c\<lparr>rc_fallback_reason := Some FbInvalidKey\<rparr> else c)"

definition predict_route ::
  "(string \<Rightarrow> nat) \<Rightarrow> (nat \<Rightarrow> time) \<Rightarrow> Message \<Rightarrow> RoutingContext \<Rightarrow> PredictiveRoutingConfig \<Rightarrow> PerKeyPredictor \<Rightarrow> Broker \<Rightarrow>
   (nat \<times> RoutingContext \<times> Broker) option" where
  "predict_route hash clk msg context routing p b =
     (let c1 = context\<lparr>rc_mode := pr_mode routing, rc_routing_policy_version := pr_routing_policy_version routing\<rparr>;
          c2 = (case derive_predictor_keys (m_headers msg) (pr_key routing) (length (m_payload msg)) of
                  None \<Rightarrow> c1
                | Some ks \<Rightarrow> c1\<lparr>rc_predictor_key := Some (k_key ks), rc_predictor_parent_key := k_parent ks\<rparr>);
          c3 = c2\<lparr>rc_model_version := Some (model_version p)\<rparr>
      in case lookup_prediction hash clk (hc_default_priority (b_config b)) c3 p of
          None \<Rightarrow> None
        | Some (d, borrowed, p') \<Rightarrow>
            let elapsed = nat ((clk 3 - clk 0) mod 2 ^ 64);
                c4 = apply_prediction (hc_num_levels (b_config b)) d (c3\<lparr>rc_inference_elapsed_ms := Some (real elapsed / 1000000)\<rparr>);
                rt = count_lookup elapsed d borrowed (b_routing b);
                b1 = b\<lparr>b_predictor := Some p', b_routing := rt\<rparr>
            in Some (case (if pr_mode routing = Predictive then rc_predicted_bucket c4 else None) of
                 Some bucket \<Rightarrow> (bucket, c4, b1\<lparr>b_routing := rt\<lparr>rt_routed := Suc (rt_routed rt)\<rparr>\<rparr>)
               | None \<Rightarrow> (m_priority msg, c4, b1)))"

section \<open>Submission\<close>

definition default_context :: RoutingContext where
  "default_context = \<lparr>rc_feature_schema_version = [], rc_routing_policy_version = [], rc_model_version = None, rc_features = None,
     rc_feature_validity = FeaturesValid, rc_mode = Disabled, rc_predicted_processing_time_ms = None, rc_predicted_bucket = None,
     rc_ingress_priority = 0, rc_fallback_reason = None, rc_inference_elapsed_ms = None, rc_predictor_key = None,
     rc_predictor_parent_key = None\<rparr>"

text \<open>The part of the context that comes from the feature extractor.\<close>

definition extract_context :: "Message \<Rightarrow> Broker \<Rightarrow> RoutingContext option" where
  "extract_context msg b =
     (case b_feature_extractor b of
        None \<Rightarrow> Some (default_context\<lparr>rc_feature_schema_version := ''none''\<rparr>)
      | Some schema \<Rightarrow>
          (case (FeatureExtractor_extract schema (length (m_payload msg)) (m_headers msg), hc_ingress_features (b_config b)) of
             (Inr ef, Some ic) \<Rightarrow>
               Some (default_context\<lparr>rc_feature_schema_version := fs_version schema,
                 rc_routing_policy_version := ic_routing_policy_version ic, rc_features := ef_features ef,
                 rc_feature_validity := ef_validity ef\<rparr>)
           | _ \<Rightarrow> None))"

text \<open>\<^verbatim>\<open>route_message\<close> up to the enqueue: the routed message. \<open>clk 0\<close> to \<open>clk 3\<close> are read by the prediction.\<close>

definition assign_route :: "(string \<Rightarrow> nat) \<Rightarrow> (nat \<Rightarrow> time) \<Rightarrow> Message \<Rightarrow> Broker \<Rightarrow> (Message \<times> Broker) option" where
  "assign_route hash clk msg b =
     (let c = b_config b;
          m = msg\<lparr>m_priority := hc_default_priority c, m_original_priority := hc_default_priority c,
                  m_max_retries := hc_default_max_retries c, m_ttl := (if m_ttl msg = kTtlUnset then hc_default_ttl c else m_ttl msg)\<rparr>
      in if b_feature_extractor b = None \<and> b_predictor b = None then Some (m, b)
      else case extract_context m b of
          None \<Rightarrow> None
        | Some context \<Rightarrow>
            (case (case (b_predictor b, hc_predictive_routing c) of
                     (None, _) \<Rightarrow> Some (m_priority m, context, b)
                   | (Some p, Some routing) \<Rightarrow> predict_route hash clk m context routing p b
                   | (Some p, None) \<Rightarrow> None) of
               None \<Rightarrow> None
             | Some (priority, context', b') \<Rightarrow>
                 Some (m\<lparr>m_priority := priority, m_original_priority := priority,
                         m_routing_context := Some (context'\<lparr>rc_ingress_priority := priority\<rparr>)\<rparr>, b')))"

definition route_message :: "(string \<Rightarrow> nat) \<Rightarrow> (nat \<Rightarrow> time) \<Rightarrow> int \<Rightarrow> Message \<Rightarrow> Broker \<Rightarrow> Broker option" where
  "route_message hash clk wall msg b =
     (case assign_route hash clk msg b of
        None \<Rightarrow> None
      | Some (m, b1) \<Rightarrow>
          let (event, b2) = capture_event wall (clk 4) m Submit b1 in
          (case enqueue (broker_cost b2) (clk 5) m (b_queue b2) of
             Inl _ \<Rightarrow> None
           | Inr q \<Rightarrow> Some (publish_event event (b2\<lparr>b_queue := q\<rparr>))))"

definition RegisterProducer :: "Broker \<Rightarrow> (Status \<times> string) \<times> Broker" where
  "RegisterProducer b =
     (let pid = ''producer-'' @ nat_to_string (unat (b_producer_counter b)) in
      (((OK, []), pid), b\<lparr>b_producer_counter := b_producer_counter b + 1,
         b_registered_producers := List.insert pid (b_registered_producers b)\<rparr>))"

definition RegisterConsumer :: "Broker \<Rightarrow> (Status \<times> string) \<times> Broker" where
  "RegisterConsumer b =
     (let cid = ''consumer-'' @ nat_to_string (unat (b_consumer_counter b)) in
      (((OK, []), cid), b\<lparr>b_consumer_counter := b_consumer_counter b + 1,
         b_registered_consumers := List.insert cid (b_registered_consumers b)\<rparr>))"

record SubmitRequest =
  sr_producer_id :: string
  sr_payload :: "byte list"
  sr_headers :: header_map
  sr_ttl_ms :: "int option"

text \<open>\<open>clk 0\<close> and \<open>clk 1\<close> are read by the proxy. The response carries the message id.\<close>

definition rpc_Submit ::
  "(string \<Rightarrow> nat) \<Rightarrow> (nat \<Rightarrow> time) \<Rightarrow> int \<Rightarrow> SubmitRequest \<Rightarrow> Broker \<Rightarrow> ((Status \<times> string) \<times> Broker) option" where
  "rpc_Submit hash clk wall req b =
     (if \<not> is_registered_producer (sr_producer_id req) b
        then Some (((PERMISSION_DENIED, ''Unknown producer: '' @ sr_producer_id req), []), b)
      else if (case sr_ttl_ms req of None \<Rightarrow> False | Some t \<Rightarrow> t < 0)
        then Some (((INVALID_ARGUMENT, ''ttl_ms must be >= 0''), []), b)
      else
        let (mid, msg, px) = proxy_accept clk (sr_payload req) (sr_headers req) (sr_producer_id req) (sr_ttl_ms req) (b_proxy b) in
        (case route_message hash (\<lambda>i. clk (i + 2)) wall msg (b\<lparr>b_proxy := px\<rparr>) of
           None \<Rightarrow> None
         | Some b' \<Rightarrow> Some (((OK, []), mid), b')))"

section \<open>Learning\<close>

text \<open>One scored label: the running error, and the rolling window of tier agreement behind the drift alert.\<close>

definition score_prediction :: "bool \<Rightarrow> real \<Rightarrow> RoutingCounters \<Rightarrow> RoutingCounters" where
  "score_prediction agree error rt =
     (let scored = Suc (rt_scored rt);
          full = (rt_window_size rt = length (rt_window rt));
          slot = rt_window rt ! rt_window_next rt;
          hits0 = (if full then (if slot then size_dec (rt_window_hits rt) else rt_window_hits rt) else rt_window_hits rt);
          hits = (if agree then Suc hits0 else hits0);
          wsize = (if full then rt_window_size rt else Suc (rt_window_size rt));
          rt1 = rt\<lparr>rt_scored := scored, rt_matches := (if agree then Suc (rt_matches rt) else rt_matches rt),
            rt_error_ewma := (if scored = 1 then error else rt_error_ewma rt + (1 / 100) * (error - rt_error_ewma rt)),
            rt_window := (rt_window rt)[rt_window_next rt := agree], rt_window_size := wsize, rt_window_hits := hits,
            rt_window_next := (rt_window_next rt + 1) mod length (rt_window rt)\<rparr>
      in if wsize = length (rt_window rt)
         then let agreement = real hits / real wsize in
           if \<not> rt_drift_latched rt \<and> agreement < 1 / 2
             then rt1\<lparr>rt_drift_latched := True, rt_drift_alerts := Suc (rt_drift_alerts rt)\<rparr>
           else if rt_drift_latched rt \<and> 6 / 10 < agreement then rt1\<lparr>rt_drift_latched := False\<rparr>
           else rt1
         else rt1)"

definition learn_censored :: "(string \<Rightarrow> nat) \<Rightarrow> (nat \<Rightarrow> time) \<Rightarrow> PredictorUpdate \<Rightarrow> PerKeyPredictor \<Rightarrow> (bool \<times> PerKeyPredictor) option" where
  "learn_censored hash clk u p =
     (case observe_censored hash (clk 0) (u_key u) p of
        None \<Rightarrow> None
      | Some (recorded, p1) \<Rightarrow>
          (case u_parent u of
             None \<Rightarrow> Some (recorded, p1)
           | Some parent \<Rightarrow>
               (case observe_censored hash (clk 1) parent p1 of
                  None \<Rightarrow> None
                | Some (recorded', p2) \<Rightarrow> Some (recorded' \<or> recorded, p2))))"

definition learn :: "(string \<Rightarrow> nat) \<Rightarrow> (nat \<Rightarrow> time) \<Rightarrow> PredictorUpdate \<Rightarrow> Broker \<Rightarrow> Broker option" where
  "learn hash clk u b =
     (case b_predictor b of
        None \<Rightarrow> None
      | Some p \<Rightarrow>
          let rt = b_routing b; rejected = (\<lambda>p'. b\<lparr>b_predictor := Some p', b_routing := rt\<lparr>rt_learn_rejected := Suc (rt_learn_rejected rt)\<rparr>\<rparr>) in
          if u_censored u
          then (case learn_censored hash clk u p of
              None \<Rightarrow> None
            | Some (recorded, p') \<Rightarrow>
                Some (b\<lparr>b_predictor := Some p', b_routing := (if recorded then rt\<lparr>rt_censored := Suc (rt_censored rt)\<rparr> else rt)\<rparr>))
          else (case u_duration_ms u of
              None \<Rightarrow> Some (rejected p)
            | Some d \<Rightarrow>
                (case observe hash (clk 0) (u_key u) (case u_parent u of None \<Rightarrow> [] | Some parent \<Rightarrow> parent) (Finite d) p of
                   None \<Rightarrow> None
                 | Some (False, p') \<Rightarrow> Some (rejected p')
                 | Some (True, p') \<Rightarrow>
                     let rt1 = rt\<lparr>rt_learned := Suc (rt_learned rt)\<rparr> in
                     Some (b\<lparr>b_predictor := Some p', b_routing :=
                       (case (u_predicted_ms u, u_predicted_bucket u) of
                          (Some pm, Some bucket) \<Rightarrow>
                            let agree = (case pp_snapshot p' of None \<Rightarrow> False | Some s \<Rightarrow> tier_of (bs_boundaries_ms s) d = bucket);
                                error = \<bar>log 2 (max (dval pm) 1 / max d 1)\<bar>
                            in score_prediction agree error rt1
                        | _ \<Rightarrow> rt1)\<rparr>))))"

section \<open>Statistics\<close>

record RoutingStats =
  rs_enabled :: bool
  rs_mode :: RoutingMode
  rs_lookups :: nat
  rs_outcomes :: "nat list"
  rs_routed_by_prediction :: nat
  rs_parent_fallbacks :: nat
  rs_latency_buckets :: "nat list"
  rs_latency_ns_total :: nat
  rs_latency_ns_max :: nat
  rs_learned :: nat
  rs_learn_rejected :: nat
  rs_censored_observed :: nat
  rs_scored :: nat
  rs_tier_matches :: nat
  rs_abs_log2_error_ewma :: real
  rs_drift_alerts :: nat
  rs_snapshot_saves :: nat
  rs_snapshot_failures :: nat
  rs_snapshot_loaded :: bool
  rs_snapshot_status :: string
  rs_predictor :: PredictorStats

definition no_predictor_stats :: PredictorStats where
  "no_predictor_stats = \<lparr>ps_keys = 0, ps_observations = 0, ps_rejected = 0, ps_evictions = 0, ps_overflow_observations = 0,
     ps_saturated = 0, ps_censored = 0, ps_snapshots = 0, ps_degenerate_refreshes = 0\<rparr>"

definition routing_stats :: "Broker \<Rightarrow> RoutingStats" where
  "routing_stats b =
     (case (b_predictor b, hc_predictive_routing (b_config b)) of
        (Some p, Some routing) \<Rightarrow>
          let rt = b_routing b in
          \<lparr>rs_enabled = True, rs_mode = pr_mode routing, rs_lookups = rt_lookups rt, rs_outcomes = rt_outcomes rt,
           rs_routed_by_prediction = rt_routed rt, rs_parent_fallbacks = rt_parent_fallbacks rt, rs_latency_buckets = rt_latency rt,
           rs_latency_ns_total = rt_latency_total rt, rs_latency_ns_max = rt_latency_max rt, rs_learned = rt_learned rt,
           rs_learn_rejected = rt_learn_rejected rt, rs_censored_observed = rt_censored rt, rs_scored = rt_scored rt,
           rs_tier_matches = rt_matches rt, rs_abs_log2_error_ewma = rt_error_ewma rt, rs_drift_alerts = rt_drift_alerts rt,
           rs_snapshot_saves = rt_snapshot_saves rt, rs_snapshot_failures = rt_snapshot_failures rt,
           rs_snapshot_loaded = rt_snapshot_loaded rt, rs_snapshot_status = rt_snapshot_status rt, rs_predictor = predictor_stats p\<rparr>
      | _ \<Rightarrow>
          \<lparr>rs_enabled = False, rs_mode = Disabled, rs_lookups = 0, rs_outcomes = replicate 7 0, rs_routed_by_prediction = 0,
           rs_parent_fallbacks = 0, rs_latency_buckets = replicate 6 0, rs_latency_ns_total = 0, rs_latency_ns_max = 0,
           rs_learned = 0, rs_learn_rejected = 0, rs_censored_observed = 0, rs_scored = 0, rs_tier_matches = 0,
           rs_abs_log2_error_ewma = 0, rs_drift_alerts = 0, rs_snapshot_saves = 0, rs_snapshot_failures = 0,
           rs_snapshot_loaded = False, rs_snapshot_status = [], rs_predictor = no_predictor_stats\<rparr>)"

text \<open>\<open>saved\<close> is whether writing the snapshot file succeeded.\<close>

definition save_predictor_snapshot :: "bool \<Rightarrow> Broker \<Rightarrow> bool \<times> Broker" where
  "save_predictor_snapshot saved b =
     (if b_predictor b = None \<or> Option.bind (hc_predictive_routing (b_config b)) pr_snapshot_path = None then (False, b)
      else let rt = b_routing b in
        if saved then (True, b\<lparr>b_routing := rt\<lparr>rt_snapshot_saves := Suc (rt_snapshot_saves rt)\<rparr>\<rparr>)
        else (False, b\<lparr>b_routing := rt\<lparr>rt_snapshot_failures := Suc (rt_snapshot_failures rt)\<rparr>\<rparr>))"

end
