(* ===== verification/Broker_Delivery.thy ===== *)
theory Broker_Delivery
  imports Broker
begin

text \<open>
  Delivery and settlement in \<^verbatim>\<open>src/harbinger_service.cpp\<close>: pulling a message under a lease and an
  attempt token, settling it with an Ack or a Nack, reclaiming expired leases, keeping the
  history of settled attempts, sweeping expired messages into the dead-letter queue, and
  inspecting it. A pull takes a message out of the queue under the queue's lock and installs it
  under the settlement lock later; in between the calling thread holds it. These steps
  are separate definitions, composed by the handler here and interleaved in the theory of
  the broker's runs.
\<close>

section \<open>Dead-lettering expired messages\<close>

definition expired_event :: "FeedbackEvent option \<Rightarrow> FeedbackEvent option" where
  "expired_event event = map_option (\<lambda>e. e\<lparr>fe_outcome := Some OutDlq, fe_dlq_reason := Some TTL_EXPIRED\<rparr>) event"

text \<open>One message, on the trigger of a sweep or of a pull. \<open>clk 0\<close> is read by the capture, \<open>clk 1\<close> by the push.\<close>

definition dlq_expired :: "(nat \<Rightarrow> time) \<Rightarrow> int \<Rightarrow> FeedbackTrigger \<Rightarrow> string \<Rightarrow> Message \<Rightarrow> Broker \<Rightarrow> Broker" where
  "dlq_expired clk wall trigger details msg b =
     (let (event, b1) = capture_event wall (clk 0) msg trigger b in
      publish_event (expired_event event) (b1\<lparr>b_dlq := dlq_push (clk 1) msg TTL_EXPIRED details (b_dlq b1)\<rparr>))"

fun dlq_swept :: "(nat \<Rightarrow> time) \<Rightarrow> (nat \<Rightarrow> int) \<Rightarrow> string \<Rightarrow> Message list \<Rightarrow> Broker \<Rightarrow> Broker" where
  "dlq_swept clk wall details [] b = b"
| "dlq_swept clk wall details (msg # expired) b =
     dlq_swept (\<lambda>i. clk (i + 2)) (\<lambda>i. wall (i + 1)) details expired (dlq_expired clk (wall 0) TtlSweep details msg b)"

text \<open>A batch of the sweep: \<open>clk 0\<close> is the reading of the queue.\<close>

definition sweep_queue :: "(nat \<Rightarrow> time) \<Rightarrow> (nat \<Rightarrow> int) \<Rightarrow> string \<Rightarrow> Broker \<Rightarrow> Broker option" where
  "sweep_queue clk wall details b =
     (case sweep_expired_batch (hc_maintenance_batch_size (b_config b)) (clk 0) (b_queue b) of
        None \<Rightarrow> None
      | Some (expired, q) \<Rightarrow> Some (dlq_swept (\<lambda>i. clk (i + 1)) wall details expired (b\<lparr>b_queue := q\<rparr>)))"

section \<open>Pull\<close>

record PulledMessage =
  pm_message_id :: string
  pm_attempt_token :: string
  pm_lease_duration_ms :: int
  pm_payload :: "byte list"
  pm_headers :: header_map

definition restore_message :: "Message \<Rightarrow> Broker \<Rightarrow> Broker option" where
  "restore_message msg b =
     (case requeue_front (broker_cost b) msg (b_queue b) of Inl _ \<Rightarrow> None | Inr q \<Rightarrow> Some (b\<lparr>b_queue := q\<rparr>))"

text \<open>
  The section under the settlement lock. \<open>clk 0\<close> starts the lease, \<open>clk 1\<close> is the pull time. A
  message that is already in flight makes \<^verbatim>\<open>try_emplace\<close> report failure; the handler throws, catches and puts the
  message back.
\<close>

definition install_delivery :: "(nat \<Rightarrow> time) \<Rightarrow> bool \<Rightarrow> string \<Rightarrow> string \<Rightarrow> Message \<Rightarrow> Broker \<Rightarrow> (Status \<times> Broker) option" where
  "install_delivery clk cancelled owner token msg b =
     (if cancelled then map_option (Pair (CANCELLED, [])) (restore_message msg b)
      else if m_delivery_count msg = 2 ^ 64 - 1
        then map_option (Pair (RESOURCE_EXHAUSTED, ''Delivery ordinal exhausted'')) (restore_message msg b)
      else if map_of (b_in_flight b) (m_id msg) \<noteq> None
        then map_option (Pair (INTERNAL, ''Delivery installation failed'')) (restore_message msg b)
      else
        let deadline = clk 0 + ms_to_ns (hc_delivery_lease (b_config b));
            m = msg\<lparr>m_delivery_count := Suc (m_delivery_count msg)\<rparr>
        in Some ((OK, []), b\<lparr>b_deadlines := index_insert deadline (m_id msg) (b_deadlines b),
             b_in_flight := AList.update (m_id msg)
               \<lparr>f_message = m, f_consumer_id = owner, f_pull_time = clk 1, f_attempt_token = token, f_deadline = deadline,
                f_attempt_id = m_delivery_count m\<rparr> (b_in_flight b)\<rparr>))"

text \<open>\<^verbatim>\<open>instance_token_ + "-" + Proxy::generate_id()\<close>.\<close>

definition new_token :: "time \<Rightarrow> Broker \<Rightarrow> string \<times> Broker" where
  "new_token ts b =
     (let (gid, px) = generate_id ts (b_proxy b) in (b_instance_token b @ ''-'' @ gid, b\<lparr>b_proxy := px\<rparr>))"

text \<open>A delivery of a message that was taken from the queue: \<open>clk 0\<close> is read by the token, the rest by the installation.\<close>

definition deliver :: "(nat \<Rightarrow> time) \<Rightarrow> bool \<Rightarrow> string \<Rightarrow> Message \<Rightarrow> Broker \<Rightarrow> ((Status \<times> PulledMessage option) \<times> Broker) option" where
  "deliver clk cancelled owner msg b =
     (let (token, b1) = new_token (clk 0) b in
      case install_delivery (\<lambda>i. clk (i + 1)) cancelled owner token msg b1 of
        None \<Rightarrow> None
      | Some (status, b2) \<Rightarrow>
          Some ((status,
            if fst status = OK
            then Some \<lparr>pm_message_id = m_id msg, pm_attempt_token = token, pm_lease_duration_ms = hc_delivery_lease (b_config b),
              pm_payload = m_payload msg, pm_headers = m_headers msg\<rparr>
            else None), b2))"

text \<open>\<^verbatim>\<open>std::min(requested, max_pull_wait)\<close> after the start of the call.\<close>

definition pull_wait :: "int \<Rightarrow> HarbingerConfig \<Rightarrow> millis" where
  "pull_wait timeout_ms c = min (if 0 < timeout_ms then timeout_ms else hc_max_pull_wait c) (hc_max_pull_wait c)"

text \<open>
  What one round of the loop reads: the clock of the loop test and of the second test, the three
  cancellation tests, the clocks of the sweep, the clock that decides expiry and those of the
  delivery. The wait of \<^verbatim>\<open>dequeue\<close> ends with a message or without one.
\<close>

record PullRound =
  pu_test :: time
  pu_cancel :: bool
  pu_sweep :: "nat \<Rightarrow> time"
  pu_wall :: "nat \<Rightarrow> int"
  pu_cancel_swept :: bool
  pu_retest :: time
  pu_expiry :: time
  pu_expired :: "nat \<Rightarrow> time"
  pu_deliver :: "nat \<Rightarrow> time"
  pu_cancel_install :: bool

text \<open>The loop of \<^verbatim>\<open>Pull\<close>; \<open>None\<close> also when the listed rounds end before it returns.\<close>

fun pull_loop :: "PullRound list \<Rightarrow> time \<Rightarrow> string \<Rightarrow> Broker \<Rightarrow> ((Status \<times> PulledMessage option) \<times> Broker) option" where
  "pull_loop [] deadline owner b = None"
| "pull_loop (r # rounds) deadline owner b =
     (if deadline \<le> pu_test r then Some (((OK, []), None), b)
      else if pu_cancel r then Some (((CANCELLED, []), None), b)
      else case sweep_queue (pu_sweep r) (pu_wall r) ''TTL expired in queue'' b of
          None \<Rightarrow> None
        | Some b1 \<Rightarrow>
            if pu_cancel_swept r then Some (((CANCELLED, []), None), b1)
            else if deadline \<le> pu_retest r then Some (((OK, []), None), b1)
            else (case dequeue (broker_cost b1) (b_queue b1) of
                (None, q) \<Rightarrow> pull_loop rounds deadline owner (b1\<lparr>b_queue := q\<rparr>)
              | (Some msg, q) \<Rightarrow>
                  let b2 = b1\<lparr>b_queue := q\<rparr> in
                  if is_expired (pu_expiry r) msg
                  then pull_loop rounds deadline owner
                    (dlq_expired (pu_expired r) (pu_wall r 0) PullExpiry ''TTL expired at Pull time'' msg b2)
                  else deliver (pu_deliver r) (pu_cancel_install r) owner msg b2))"

text \<open>A response without a message is a timeout exactly when the status is \<^const>\<open>OK\<close>.\<close>

definition rpc_Pull ::
  "time \<Rightarrow> PullRound list \<Rightarrow> string \<Rightarrow> int \<Rightarrow> Broker \<Rightarrow> ((Status \<times> PulledMessage option) \<times> Broker) option" where
  "rpc_Pull start rounds consumer_id timeout_ms b =
     (if \<not> is_registered_consumer consumer_id b
      then Some (((PERMISSION_DENIED, ''Unknown consumer: '' @ consumer_id), None), b)
      else pull_loop rounds (start + ms_to_ns (pull_wait timeout_ms (b_config b))) consumer_id b)"

section \<open>The history of settled attempts\<close>

fun prune_completions_locked :: "nat \<Rightarrow> time \<Rightarrow> Broker \<Rightarrow> Broker" where
  "prune_completions_locked 0 now b = b"
| "prune_completions_locked (Suc budget) now b =
     (case b_completions b of
        [] \<Rightarrow> b
      | (i, c) # rest \<Rightarrow>
          if hc_completion_cache_max_entries (b_config b) < length (b_completions b) \<or>
             ms_to_ns (hc_completion_retention (b_config b)) \<le> now - c_time c
          then prune_completions_locked budget now
            (b\<lparr>b_completed := AList.delete (c_token c) (b_completed b), b_completions := rest\<rparr>)
          else b)"

text \<open>\<^verbatim>\<open>emplace\<close> leaves an existing entry alone.\<close>

definition record_completion :: "Completion \<Rightarrow> Broker \<Rightarrow> Broker" where
  "record_completion c b =
     b\<lparr>b_completions := b_completions b @ [(b_next_completion b, c)],
       b_completed := (if map_of (b_completed b) (c_token c) = None
         then AList.update (c_token c) (b_next_completion b) (b_completed b) else b_completed b),
       b_next_completion := Suc (b_next_completion b)\<rparr>"

section \<open>Settlement\<close>

text \<open>Whether a measurement may teach: an Ack in time, within the lease.\<close>

definition measured :: "HarbingerConfig \<Rightarrow> Settlement \<Rightarrow> bool \<Rightarrow> int option \<Rightarrow> bool" where
  "measured c kind ttl_expired measurement =
     (kind = SAck \<and> \<not> ttl_expired \<and> (case measurement of None \<Rightarrow> False | Some t \<Rightarrow> 0 \<le> t \<and> t \<le> hc_delivery_lease c))"

text \<open>The running average of the level a message was pulled from.\<close>

definition learn_level_cost :: "Settlement \<Rightarrow> bool \<Rightarrow> int option \<Rightarrow> Message \<Rightarrow> Broker \<Rightarrow> Broker" where
  "learn_level_cost kind ttl_expired measurement msg b =
     (if hc_level_weights (b_config b) \<noteq> None \<and> measured (b_config b) kind ttl_expired measurement
      then let sample = real_of_int (the measurement); seen = b_level_cost_ms b ! m_priority msg in
        b\<lparr>b_level_cost_ms := (b_level_cost_ms b)[m_priority msg := (if 0 < seen then seen + (5 / 100) * (sample - seen) else sample)]\<rparr>
      else b)"

definition settlement_update :: "Settlement \<Rightarrow> bool \<Rightarrow> int option \<Rightarrow> Message \<Rightarrow> Broker \<Rightarrow> PredictorUpdate option" where
  "settlement_update kind ttl_expired measurement msg b =
     (case (b_predictor b, m_routing_context msg) of
        (Some _, Some rc) \<Rightarrow>
          (case rc_predictor_key rc of
             None \<Rightarrow> None
           | Some key \<Rightarrow>
               let features_ok = (b_feature_extractor b = None \<or> rc_feature_validity rc = FeaturesValid) in
               if measured (b_config b) kind ttl_expired measurement \<and> features_ok
               then Some \<lparr>u_key = key, u_parent = rc_predictor_parent_key rc, u_duration_ms = map_option real_of_int measurement,
                 u_censored = False, u_predicted_ms = rc_predicted_processing_time_ms rc, u_predicted_bucket = rc_predicted_bucket rc\<rparr>
               else if kind = SExpired
               then Some \<lparr>u_key = key, u_parent = rc_predictor_parent_key rc, u_duration_ms = None, u_censored = True,
                 u_predicted_ms = None, u_predicted_bucket = None\<rparr>
               else None)
      | _ \<Rightarrow> None)"

text \<open>
  Where a settled message goes: the dead-letter queue when its TTL has expired or its retries are
  used up, back into the queue otherwise, nowhere after an Ack. The event records it.
\<close>

definition dispose ::
  "time \<Rightarrow> Settlement \<Rightarrow> string \<Rightarrow> bool \<Rightarrow> Message \<Rightarrow> FeedbackEvent option \<Rightarrow> Broker \<Rightarrow> (FeedbackEvent option \<times> Broker) option" where
  "dispose now kind reason ttl_expired msg event b =
     (if ttl_expired
        then Some (expired_event event, b\<lparr>b_dlq := dlq_push now msg TTL_EXPIRED (''TTL expired; '' @ reason) (b_dlq b)\<rparr>)
      else if kind = SAck then Some (event, b)
      else
        let m = msg\<lparr>m_retry_count := Suc (m_retry_count msg)\<rparr>;
            event1 = map_option (\<lambda>e. e\<lparr>fe_retry_count := m_retry_count m\<rparr>) event
        in if m_max_retries m \<le> m_retry_count m
           then Some (map_option (\<lambda>e. e\<lparr>fe_outcome := Some OutDlq, fe_dlq_reason := Some MAX_RETRIES_EXCEEDED\<rparr>) event1,
             b\<lparr>b_dlq := dlq_push now m MAX_RETRIES_EXCEEDED
               (''Exceeded max_retries='' @ nat_to_string (m_max_retries m) @ ''; last reason: '' @ reason) (b_dlq b)\<rparr>)
           else (case enqueue (broker_cost b) now (m\<lparr>m_priority := m_original_priority m\<rparr>) (b_queue b) of
               Inl _ \<Rightarrow> None
             | Inr q \<Rightarrow> Some (map_option (\<lambda>e. e\<lparr>fe_outcome := Some OutRetry\<rparr>) event1, b\<lparr>b_queue := q\<rparr>)))"

text \<open>What the settlement adds to the captured event before the outcome is known.\<close>

definition settlement_event :: "Settlement \<Rightarrow> int option \<Rightarrow> InFlightEntry \<Rightarrow> FeedbackEvent \<Rightarrow> FeedbackEvent" where
  "settlement_event kind measurement entry e =
     e\<lparr>fe_attempt_id := Some (f_attempt_id entry), fe_processing_time_ms := measurement,
       fe_operation := (if kind = SExpired then fe_operation e else Some (if kind = SAck then OpAck else OpNack)),
       fe_outcome := Some OutAck\<rparr>"

text \<open>
  \<^verbatim>\<open>finish_locked\<close>: \<open>clk 0\<close> decides expiry, \<open>clk 1\<close> is read by the capture, \<open>clk 2\<close> by the queue, \<open>clk 3\<close> stamps the
  completion, \<open>clk 4\<close> is read by the pruning.
\<close>

definition finish_locked ::
  "(nat \<Rightarrow> time) \<Rightarrow> int \<Rightarrow> string \<Rightarrow> Settlement \<Rightarrow> string \<Rightarrow> int option \<Rightarrow> Broker \<Rightarrow>
   (FeedbackEvent option \<times> PredictorUpdate option \<times> Broker) option" where
  "finish_locked clk wall mid kind reason measurement b =
     (case map_of (b_in_flight b) mid of
        None \<Rightarrow> None
      | Some entry \<Rightarrow>
          let msg = f_message entry; ttl_expired = is_expired (clk 0) msg;
              b1 = learn_level_cost kind ttl_expired measurement msg b;
              update = settlement_update kind ttl_expired measurement msg b1;
              (event, b2) = capture_event wall (clk 1) msg (if kind = SExpired then LeaseExpiry else Settlement) b1;
              event1 = map_option (settlement_event kind measurement entry) event
          in case dispose (clk 2) kind reason ttl_expired msg event1 b2 of
              None \<Rightarrow> None
            | Some (event2, b3) \<Rightarrow>
                if (f_deadline entry, mid) \<notin> set (b_deadlines b3) then None
                else
                  let b4 = record_completion \<lparr>c_message_id = mid, c_token = f_attempt_token entry, c_owner = f_consumer_id entry,
                        c_kind = kind, c_time = clk 3\<rparr> b3;
                      b5 = b4\<lparr>b_deadlines := remove1 (f_deadline entry, mid) (b_deadlines b4),
                        b_in_flight := AList.delete mid (b_in_flight b4)\<rparr>
                  in Some (event2, update, prune_completions_locked 1 (clk 4) b5))"

definition valid_token :: "string \<Rightarrow> bool" where
  "valid_token token =
     (token \<noteq> [] \<and> length token \<le> 128 \<and> list_all (\<lambda>c. is_alnum c \<or> c = CHR ''-'') token)"

text \<open>Publishing and learning after the lock is released.\<close>

definition settle_after :: "(string \<Rightarrow> nat) \<Rightarrow> (nat \<Rightarrow> time) \<Rightarrow> FeedbackEvent option \<times> PredictorUpdate option \<times> Broker \<Rightarrow> Broker option" where
  "settle_after hash clk r =
     (case r of (event, update, b) \<Rightarrow>
        let b1 = publish_event event b in (case update of None \<Rightarrow> Some b1 | Some u \<Rightarrow> learn hash clk u b1))"

text \<open>An attempt that is still in flight: \<open>clk 1\<close> is compared with the lease, the rest is read by the settlement.\<close>

definition settle_live ::
  "(string \<Rightarrow> nat) \<Rightarrow> (nat \<Rightarrow> time) \<Rightarrow> int \<Rightarrow> string \<Rightarrow> string \<Rightarrow> string \<Rightarrow> Settlement \<Rightarrow> string \<Rightarrow> int \<Rightarrow> Broker \<Rightarrow> (Status \<times> Broker) option" where
  "settle_live hash clk wall owner mid token kind reason processing_time_ms b =
     (case map_of (b_in_flight b) mid of
        None \<Rightarrow> Some ((NOT_FOUND, ''Unknown delivery''), b)
      | Some live \<Rightarrow>
          if f_consumer_id live \<noteq> owner then Some ((PERMISSION_DENIED, ''Different delivery owner''), b)
          else if f_attempt_token live \<noteq> token then Some ((FAILED_PRECONDITION, ''Stale attempt token''), b)
          else
            let late = (f_deadline live \<le> clk 1) in
            (case (if late then finish_locked (\<lambda>i. clk (i + 2)) wall mid SExpired ''Delivery lease expired'' None b
                   else finish_locked (\<lambda>i. clk (i + 2)) wall mid kind reason (Some processing_time_ms) b) of
               None \<Rightarrow> None
             | Some r \<Rightarrow>
                 map_option (Pair (if late then (FAILED_PRECONDITION, ''Delivery lease expired'') else (OK, [])))
                   (settle_after hash (\<lambda>i. clk (i + 7)) r)))"

text \<open>\<open>clk 0\<close> is compared with the retention of a recorded outcome.\<close>

definition settle ::
  "(string \<Rightarrow> nat) \<Rightarrow> (nat \<Rightarrow> time) \<Rightarrow> int \<Rightarrow> string \<Rightarrow> string \<Rightarrow> string \<Rightarrow> Settlement \<Rightarrow> string \<Rightarrow> int \<Rightarrow> Broker \<Rightarrow> (Status \<times> Broker) option" where
  "settle hash clk wall owner mid token kind reason processing_time_ms b =
     (if \<not> is_registered_consumer owner b then Some ((PERMISSION_DENIED, ''Unknown consumer''), b)
      else if \<not> valid_token token then Some ((INVALID_ARGUMENT, ''Invalid attempt token''), b)
      else
        let live = settle_live hash clk wall owner mid token kind reason processing_time_ms in
        (case map_of (b_completed b) token of
           None \<Rightarrow> live b
         | Some i \<Rightarrow>
             (case map_of (b_completions b) i of
                None \<Rightarrow> None
              | Some prior \<Rightarrow>
                  if ms_to_ns (hc_completion_retention (b_config b)) \<le> clk 0 - c_time prior
                    then live (b\<lparr>b_completions := AList.delete i (b_completions b), b_completed := AList.delete token (b_completed b)\<rparr>)
                  else if c_message_id prior = mid
                    then Some (if c_owner prior \<noteq> owner then (PERMISSION_DENIED, ''Different delivery owner'')
                      else if c_kind prior = kind then (OK, [])
                      else (FAILED_PRECONDITION, ''Attempt already settled or expired''), b)
                  else live b)))"

definition rpc_Ack :: "(string \<Rightarrow> nat) \<Rightarrow> (nat \<Rightarrow> time) \<Rightarrow> int \<Rightarrow> string \<Rightarrow> string \<Rightarrow> string \<Rightarrow> int \<Rightarrow> Broker \<Rightarrow> (Status \<times> Broker) option" where
  "rpc_Ack hash clk wall consumer_id message_id attempt_token processing_time_ms b =
     settle hash clk wall consumer_id message_id attempt_token SAck ''Ack'' processing_time_ms b"

definition rpc_Nack ::
  "(string \<Rightarrow> nat) \<Rightarrow> (nat \<Rightarrow> time) \<Rightarrow> int \<Rightarrow> string \<Rightarrow> string \<Rightarrow> string \<Rightarrow> string \<Rightarrow> int \<Rightarrow> Broker \<Rightarrow> (Status \<times> Broker) option" where
  "rpc_Nack hash clk wall consumer_id message_id attempt_token reason processing_time_ms b =
     settle hash clk wall consumer_id message_id attempt_token SNack reason processing_time_ms b"

section \<open>Maintenance\<close>

text \<open>
  The loop that reclaims expired leases, earliest deadline first, within a budget. \<open>clk i\<close> are the
  clocks of the \<open>i\<close>-th settlement.
\<close>

fun reclaim ::
  "nat \<Rightarrow> time \<Rightarrow> (nat \<Rightarrow> nat \<Rightarrow> time) \<Rightarrow> (nat \<Rightarrow> int) \<Rightarrow> Broker \<Rightarrow> (FeedbackEvent list \<times> PredictorUpdate list \<times> Broker) option" where
  "reclaim 0 now clk wall b = Some ([], [], b)"
| "reclaim (Suc budget) now clk wall b =
     (case b_deadlines b of
        [] \<Rightarrow> Some ([], [], b)
      | (t, mid) # _ \<Rightarrow>
          if now < t then Some ([], [], b)
          else (case finish_locked (clk 0) (wall 0) mid SExpired ''Delivery lease expired'' None b of
              None \<Rightarrow> None
            | Some (event, update, b1) \<Rightarrow>
                (case reclaim budget now (\<lambda>i. clk (Suc i)) (\<lambda>i. wall (Suc i)) b1 of
                   None \<Rightarrow> None
                 | Some (events, updates, b2) \<Rightarrow>
                     Some (case_option [] (\<lambda>e. [e]) event @ events, case_option [] (\<lambda>u. [u]) update @ updates, b2))))"

fun publish_all :: "FeedbackEvent list \<Rightarrow> Broker \<Rightarrow> Broker" where
  "publish_all [] b = b"
| "publish_all (e # events) b = publish_all events (publish_event (Some e) b)"

fun learn_all :: "(string \<Rightarrow> nat) \<Rightarrow> (nat \<Rightarrow> nat \<Rightarrow> time) \<Rightarrow> PredictorUpdate list \<Rightarrow> Broker \<Rightarrow> Broker option" where
  "learn_all hash clk [] b = Some b"
| "learn_all hash clk (u # updates) b =
     (case learn hash (clk 0) u b of None \<Rightarrow> None | Some b' \<Rightarrow> learn_all hash (\<lambda>i. clk (Suc i)) updates b')"

text \<open>\<open>now\<close> is the reading before the loop, \<open>later\<close> the one of the pruning.\<close>

definition maintain_deliveries ::
  "(string \<Rightarrow> nat) \<Rightarrow> time \<Rightarrow> (nat \<Rightarrow> nat \<Rightarrow> time) \<Rightarrow> time \<Rightarrow> (nat \<Rightarrow> nat \<Rightarrow> time) \<Rightarrow> (nat \<Rightarrow> int) \<Rightarrow> Broker \<Rightarrow> Broker option" where
  "maintain_deliveries hash now clk later learn_clk wall b =
     (let batch = hc_maintenance_batch_size (b_config b) in
      case reclaim batch now clk wall b of
        None \<Rightarrow> None
      | Some (events, updates, b1) \<Rightarrow>
          learn_all hash learn_clk updates (publish_all events (prune_completions_locked batch later b1)))"

text \<open>The timers of the maintenance thread.\<close>

record Timers =
  next_lease :: time
  next_ttl :: time
  next_snapshot :: time

definition takes_snapshots :: "Broker \<Rightarrow> bool" where
  "takes_snapshots b =
     (b_predictor b \<noteq> None \<and> Option.bind (hc_predictive_routing (b_config b)) pr_snapshot_path \<noteq> None)"

definition snapshot_wait :: "Broker \<Rightarrow> time" where
  "snapshot_wait b = (case hc_predictive_routing (b_config b) of None \<Rightarrow> 0 | Some r \<Rightarrow> ms_to_ns (pr_snapshot_interval r))"

definition start_timers :: "(nat \<Rightarrow> time) \<Rightarrow> Broker \<Rightarrow> Timers" where
  "start_timers clk b =
     \<lparr>next_lease = clk 0 + ms_to_ns (hc_lease_sweep_interval (b_config b)),
      next_ttl = (if 0 < hc_ttl_sweep_interval (b_config b) then clk 1 + ms_to_ns (hc_ttl_sweep_interval (b_config b)) else clock_max),
      next_snapshot = (if takes_snapshots b then clk 2 + snapshot_wait b else clock_max)\<rparr>"

text \<open>
  What a wake-up of the maintenance thread reads: the clock after the wait, the clocks of the
  three tasks, the clocks that reset the timers, and whether the snapshot file could be
  written.
\<close>

record Wakeup =
  wk_now :: time
  wk_reclaim_now :: time
  wk_reclaim :: "nat \<Rightarrow> nat \<Rightarrow> time"
  wk_prune :: time
  wk_learn :: "nat \<Rightarrow> nat \<Rightarrow> time"
  wk_wall :: "nat \<Rightarrow> int"
  wk_sweep :: "nat \<Rightarrow> time"
  wk_sweep_wall :: "nat \<Rightarrow> int"
  wk_saved :: bool
  wk_reset :: "nat \<Rightarrow> time"

definition maintenance_round :: "(string \<Rightarrow> nat) \<Rightarrow> Wakeup \<Rightarrow> Timers \<Rightarrow> Broker \<Rightarrow> (Timers \<times> Broker) option" where
  "maintenance_round hash w ts b =
     (let c = b_config b; lease_due = (next_lease ts \<le> wk_now w); ttl_due = (next_ttl ts \<le> wk_now w);
          snapshot_due = (next_snapshot ts \<le> wk_now w);
          ts' = \<lparr>next_lease = (if lease_due then wk_reset w 0 + ms_to_ns (hc_lease_sweep_interval c) else next_lease ts),
                 next_ttl = (if ttl_due then wk_reset w 1 + ms_to_ns (hc_ttl_sweep_interval c) else next_ttl ts),
                 next_snapshot = (if snapshot_due then wk_reset w 2 + snapshot_wait b else next_snapshot ts)\<rparr>
      in case (if lease_due then maintain_deliveries hash (wk_reclaim_now w) (wk_reclaim w) (wk_prune w) (wk_learn w) (wk_wall w) b
               else Some b) of
          None \<Rightarrow> None
        | Some b1 \<Rightarrow>
            (case (if ttl_due then sweep_queue (wk_sweep w) (wk_sweep_wall w) ''TTL expired in queue (sweeper)'' b1 else Some b1) of
               None \<Rightarrow> None
             | Some b2 \<Rightarrow> Some (ts', if snapshot_due then snd (save_predictor_snapshot (wk_saved w) b2) else b2)))"

text \<open>The wake-ups of \<^verbatim>\<open>run_maintenance\<close> until the service is stopped.\<close>

fun run_maintenance :: "(string \<Rightarrow> nat) \<Rightarrow> Wakeup list \<Rightarrow> Timers \<Rightarrow> Broker \<Rightarrow> Broker option" where
  "run_maintenance hash [] ts b = Some b"
| "run_maintenance hash (w # ws) ts b =
     (case maintenance_round hash w ts b of None \<Rightarrow> None | Some (ts', b') \<Rightarrow> run_maintenance hash ws ts' b')"

section \<open>Inspecting the dead-letter queue\<close>

datatype ProtoDlqReason = DLQ_UNKNOWN | DLQ_MAX_RETRIES_EXCEEDED | DLQ_TTL_EXPIRED | DLQ_PROCESSING_ERROR

definition to_proto_reason :: "DLQReason \<Rightarrow> ProtoDlqReason" where
  "to_proto_reason r = (case r of MAX_RETRIES_EXCEEDED \<Rightarrow> DLQ_MAX_RETRIES_EXCEEDED | TTL_EXPIRED \<Rightarrow> DLQ_TTL_EXPIRED
     | PROCESSING_ERROR \<Rightarrow> DLQ_PROCESSING_ERROR)"

record InspectedEntry =
  ie_message_id :: string
  ie_payload :: "byte list"
  ie_headers :: header_map
  ie_reason :: ProtoDlqReason
  ie_details :: string
  ie_dlq_age_ms :: int
  ie_retry_count :: nat

definition inspect_entry :: "time \<Rightarrow> DLQEntry \<Rightarrow> InspectedEntry" where
  "inspect_entry now e =
     \<lparr>ie_message_id = m_id (d_message e), ie_payload = m_payload (d_message e), ie_headers = m_headers (d_message e),
      ie_reason = to_proto_reason (d_reason e), ie_details = d_details e, ie_dlq_age_ms = ns_to_ms (now - d_time e),
      ie_retry_count = m_retry_count (d_message e)\<rparr>"

text \<open>The response: the page and the size of the whole queue.\<close>

definition InspectDlq :: "time \<Rightarrow> int \<Rightarrow> int \<Rightarrow> Broker \<Rightarrow> Status \<times> InspectedEntry list \<times> nat" where
  "InspectDlq now limit offset b =
     (let page = max 1 (min (if limit \<le> 0 then 10 else limit) 100) in
      ((OK, []), map (inspect_entry now) (dlq_snapshot (nat (max offset 0)) (nat page) (b_dlq b)), dlq_size (b_dlq b)))"

end
