(* ===== verification/Queue_Store.thy ===== *)
theory Queue_Store
  imports Queue_Deadlines Queue_Expiry Queue_Selection
begin

text \<open>
  The queue as a bag of messages: what the broker relies on when it puts messages in, takes
  them out, sweeps the expired ones and lets them age. The locale states the contract and
  derives how a predicate on messages and the collection of message ids move through the
  operations; the multi-level queue is the interpretation.
\<close>

text \<open>Aging may move a message to a higher level and stamp it again.\<close>

definition ages_to :: "Message \<Rightarrow> Message \<Rightarrow> bool" where
  "ages_to m m' \<longleftrightarrow> (\<exists>p t. p \<le> m_priority m \<and> m' = m\<lparr>m_priority := p, m_enqueue_time := t\<rparr>)"

definition stable :: "(Message \<Rightarrow> bool) \<Rightarrow> bool" where
  "stable P \<longleftrightarrow> (\<forall>m m'. P m \<longrightarrow> ages_to m m' \<longrightarrow> P m')"

lemma ages_to_refl [simp]: "ages_to m m"
  unfolding ages_to_def by (intro exI [of _ "m_priority m"] exI [of _ "m_enqueue_time m"]) simp

lemma ages_to_stamp [simp]: "ages_to m (m\<lparr>m_enqueue_time := t\<rparr>)"
  unfolding ages_to_def by (intro exI [of _ "m_priority m"] exI [of _ t]) simp

lemma ages_to_id: "ages_to m m' \<Longrightarrow> m_id m' = m_id m"
  by (auto simp: ages_to_def)

locale message_store =
  fixes ok :: "'q \<Rightarrow> bool"
    and levels :: "'q \<Rightarrow> nat"
    and contents :: "'q \<Rightarrow> Message multiset"
    and put :: "time \<Rightarrow> bool \<Rightarrow> Message \<Rightarrow> 'q \<Rightarrow> 'e + 'q"
    and take_one :: "'q \<Rightarrow> Message option \<times> 'q"
    and sweep :: "nat \<Rightarrow> time \<Rightarrow> 'q \<Rightarrow> (Message list \<times> 'q) option"
    and age :: "(nat \<Rightarrow> time) \<Rightarrow> time \<Rightarrow> 'q \<Rightarrow> 'q"
  assumes put_law: "ok q \<Longrightarrow> m_priority m < levels q \<Longrightarrow> m_priority m \<le> m_original_priority m \<Longrightarrow>
      \<exists>q'. put now front m q = Inr q' \<and> ok q' \<and> levels q' = levels q \<and>
        contents q' = add_mset (if front then m else m\<lparr>m_enqueue_time := now\<rparr>) (contents q)"
    and take_law: "ok q \<Longrightarrow> take_one q = (r, q') \<Longrightarrow>
      ok q' \<and> levels q' = levels q \<and> (case r of None \<Rightarrow> contents q = {#} \<and> q' = q | Some m \<Rightarrow> contents q = add_mset m (contents q'))"
    and sweep_law: "ok q \<Longrightarrow> \<exists>ms q'. sweep limit now q = Some (ms, q') \<and> ok q' \<and> levels q' = levels q \<and>
        contents q = mset ms + contents q' \<and> length ms \<le> limit \<and> (\<forall>m \<in> set ms. is_expired now m)"
    and age_law: "ok q \<Longrightarrow> ok (age clk now q) \<and> levels (age clk now q) = levels q \<and>
        (\<exists>R. contents q = image_mset fst R \<and> contents (age clk now q) = image_mset snd R \<and> (\<forall>(m, m') \<in># R. ages_to m m'))"
    and placed_law: "ok q \<Longrightarrow> m \<in># contents q \<Longrightarrow> m_priority m < levels q \<and> m_priority m \<le> m_original_priority m"
begin

lemma put_holds:
  assumes "ok q" and "\<forall>m \<in># contents q. P m" and "stable P" and "P m"
    and "m_priority m < levels q" and "m_priority m \<le> m_original_priority m"
  obtains q' where "put now front m q = Inr q'" and "ok q'" and "levels q' = levels q" and "\<forall>m \<in># contents q'. P m"
    and "image_mset m_id (contents q') = add_mset (m_id m) (image_mset m_id (contents q))"
proof -
  obtain q' where q': "put now front m q = Inr q'" "ok q'" "levels q' = levels q"
      "contents q' = add_mset (if front then m else m\<lparr>m_enqueue_time := now\<rparr>) (contents q)"
    using put_law [OF assms(1,5,6)] by blast
  moreover have "P (m\<lparr>m_enqueue_time := now\<rparr>)" using assms(3,4) unfolding stable_def by (metis ages_to_stamp)
  ultimately show thesis using that assms(2,4) by auto
qed

lemma take_holds:
  assumes "ok q" and "take_one q = (Some m, q')" and "\<forall>m \<in># contents q. P m"
  shows "ok q'" and "levels q' = levels q" and "\<forall>m \<in># contents q'. P m" and "P m"
    and "image_mset m_id (contents q) = add_mset (m_id m) (image_mset m_id (contents q'))"
    and "m_priority m < levels q \<and> m_priority m \<le> m_original_priority m"
proof -
  note t = take_law [OF assms(1,2)]
  then have "m \<in># contents q" by simp
  then show "m_priority m < levels q \<and> m_priority m \<le> m_original_priority m" using placed_law [OF assms(1)] by blast
qed (use take_law [OF assms(1,2)] assms(3) in auto)

lemma take_nothing:
  assumes "ok q" and "take_one q = (None, q')"
  shows "q' = q" and "contents q = {#}"
  using take_law [OF assms] by auto

lemma sweep_holds:
  assumes "ok q" and "\<forall>m \<in># contents q. P m"
  obtains ms q' where "sweep limit now q = Some (ms, q')" and "ok q'" and "levels q' = levels q" and "\<forall>m \<in># contents q'. P m"
    and "\<forall>m \<in> set ms. P m \<and> is_expired now m" and "length ms \<le> limit"
    and "image_mset m_id (contents q) = mset (map m_id ms) + image_mset m_id (contents q')"
proof -
  obtain ms q' where "sweep limit now q = Some (ms, q')" "ok q'" "levels q' = levels q" "contents q = mset ms + contents q'"
      "length ms \<le> limit" "\<forall>m \<in> set ms. is_expired now m"
    using sweep_law [OF assms(1)] by blast
  then show thesis using that assms(2) by simp
qed

lemma age_holds:
  assumes "ok q" and "\<forall>m \<in># contents q. P m" and "stable P"
  shows "ok (age clk now q)" and "levels (age clk now q) = levels q" and "\<forall>m \<in># contents (age clk now q). P m"
    and "image_mset m_id (contents (age clk now q)) = image_mset m_id (contents q)"
proof -
  obtain R where R: "contents q = image_mset fst R" "contents (age clk now q) = image_mset snd R" "\<forall>(m, m') \<in># R. ages_to m m'"
    and o: "ok (age clk now q)" "levels (age clk now q) = levels q"
    using age_law [OF assms(1)] by blast
  show "ok (age clk now q)" "levels (age clk now q) = levels q" by fact+
  have "P (snd x)" if "x \<in># R" for x
    using that R(1,3) assms(2,3) unfolding stable_def by (metis case_prodE fst_conv image_eqI set_image_mset snd_conv)
  then show "\<forall>m \<in># contents (age clk now q). P m" using R(2) by auto
  have "image_mset (\<lambda>x. m_id (snd x)) R = image_mset (\<lambda>x. m_id (fst x)) R"
    using R(3) by (intro image_mset_cong) (auto simp: ages_to_id)
  then show "image_mset m_id (contents (age clk now q)) = image_mset m_id (contents q)"
    using R by (simp add: multiset.map_comp comp_def)
qed

end

section \<open>The multi-level queue as a message store\<close>

definition stored :: "MultiLevelQueue \<Rightarrow> Message multiset" where
  "stored q = image_mset n_message (mset (all_nodes q))"

lemma place_message_stored:
  assumes inv: "mlq_inv q" and p: "m_priority m < mq_num_levels q" "m_priority m \<le> m_original_priority m"
  shows "\<exists>q'. place_message cost now m front q = Inr q' \<and> mlq_inv q' \<and> mq_num_levels q' = mq_num_levels q \<and>
    stored q' = add_mset (if front then m else m\<lparr>m_enqueue_time := now\<rparr>) (stored q)"
proof -
  obtain q' where q': "place_message cost now m front q = Inr q'" using p by (auto simp: place_message_def Let_def)
  let ?m = "if front then m else m\<lparr>m_enqueue_time := now\<rparr>"
  have "mq_queues q' = mq_queues (link_message ?m front q)" "mq_num_levels q' = mq_num_levels q"
    using place_message_Inr(2) [OF q'] by (simp_all add: same_structure_def)
  moreover have "m_priority ?m < length (mq_queues q)" using p inv by (simp add: inv_length)
  from link_message_nodes [OF this, of front]
  have "mset (all_nodes (link_message ?m front q)) = add_mset (new_node ?m q) (mset (all_nodes q))" .
  ultimately have "stored q' = add_mset ?m (stored q)" unfolding stored_def by (simp only: image_mset_add_mset new_node_simps)
  with q' place_message_inv [OF q' inv p(2)] \<open>mq_num_levels q' = mq_num_levels q\<close> show ?thesis by blast
qed

lemma dequeue_stored:
  assumes inv: "mlq_inv q" and deq: "dequeue cost q = (r, q')"
  shows "mlq_inv q' \<and> mq_num_levels q' = mq_num_levels q \<and>
    (case r of None \<Rightarrow> stored q = {#} \<and> q' = q | Some m \<Rightarrow> stored q = add_mset m (stored q'))"
proof (cases "selected_level q")
  case None
  then have "all_nodes q = []" using selected_level_None [OF inv] by blast
  then have "stored q = {#}" unfolding stored_def by (simp only: mset.simps image_mset_empty)
  then show ?thesis using deq inv dequeue_locked_None [OF None] by (auto simp: dequeue_def)
next
  case (Some l)
  obtain n q1 where "dequeue_locked cost q = (Some (n_message n), q1)" "mlq_inv q1"
      "mset (all_nodes q) = add_mset n (mset (all_nodes q1))" "mq_num_levels q1 = mq_num_levels q"
    by (rule dequeue_locked_Some [OF inv Some, of cost])
  then show ?thesis using deq by (auto simp: dequeue_def stored_def)
qed

lemma sweep_expired_batch_levels:
  assumes "sweep_batch limit now acc q = Some (ms, q')"
  shows "mq_num_levels q' = mq_num_levels q"
  using assms
proof (induction limit arbitrary: acc q)
  case (Suc limit)
  show ?case
  proof (cases "\<exists>t a ix. mq_expiry q = (t, a) # ix \<and> t \<le> now")
    case True
    then obtain t a ix where e: "mq_expiry q = (t, a) # ix" "t \<le> now" by blast
    then obtain n where n: "find_node a q = Some n" using Suc.prems by (auto split: option.splits)
    have "sweep_batch limit now (acc @ [n_message n]) (snd (remove_locked (m_priority (n_message n)) n q)) = Some (ms, q')"
      using Suc.prems e n by (simp add: case_prod_unfold Let_def)
    then show ?thesis using Suc.IH by (metis remove_locked_frame(1))
  next
    case False
    then show ?thesis using Suc.prems by (auto split: list.splits if_splits)
  qed
qed simp

lemma sweep_stored:
  assumes inv: "mlq_inv q"
  shows "\<exists>ms q'. sweep_expired_batch limit now q = Some (ms, q') \<and> mlq_inv q' \<and> mq_num_levels q' = mq_num_levels q \<and>
    stored q = mset ms + stored q' \<and> length ms \<le> limit \<and> (\<forall>m \<in> set ms. is_expired now m)"
proof -
  obtain ns q' where s: "sweep_expired_batch limit now q = Some (map n_message ns, q')" "mlq_inv q'"
      "mset (all_nodes q) = mset ns + mset (all_nodes q')" "length ns \<le> limit" "\<forall>n \<in> set ns. is_expired now (n_message n)"
    by (rule sweep_expired_batch_spec [OF inv, of limit now])
  moreover have "mq_num_levels q' = mq_num_levels q"
    using s(1) unfolding sweep_expired_batch_def by (rule sweep_expired_batch_levels)
  moreover have "stored q = mset (map n_message ns) + stored q'"
    unfolding stored_def by (simp only: s(3) image_mset_union mset_map)
  ultimately show ?thesis by (intro exI [of _ "map n_message ns"] exI [of _ q']) simp
qed

lemma aged_ages_to: "ages_to (n_message n) (n_message (aged now n))"
  unfolding ages_to_def aged_def by (intro exI [of _ "m_priority (n_message n) - 1"] exI [of _ now]) simp

lemma age_stored:
  assumes inv: "mlq_inv q"
  shows "mlq_inv (snd (age_once_locked clk now q)) \<and> mq_num_levels (snd (age_once_locked clk now q)) = mq_num_levels q \<and>
    (\<exists>R. stored q = image_mset fst R \<and> stored (snd (age_once_locked clk now q)) = image_mset snd R \<and>
       (\<forall>(m, m') \<in># R. ages_to m m'))"
proof (cases "mq_aging_cfg q")
  case None
  then have "snd (age_once_locked clk now q) = q" by (simp add: age_once_locked_def)
  then show ?thesis using inv by (intro conjI exI [of _ "image_mset (\<lambda>m. (m, m)) (stored q)"]) (simp_all add: multiset.map_comp comp_def)
next
  case (Some a)
  obtain v q' S where run: "age_once_locked clk now q = (v, q')" and "pass_result clk a now (mq_num_levels q - 1) S q q'"
    by (rule age_once_result [OF inv Some, of clk now])
  then have a: "mlq_inv q'" "mq_num_levels q' = mq_num_levels q"
    and nodes: "mset (all_nodes q') = image_mset (\<lambda>n. if n \<in> S then aged now n else n) (mset (all_nodes q))"
    by (simp_all add: pass_result_def ages_by_def)
  let ?R = "image_mset (\<lambda>n. (n_message n, n_message (if n \<in> S then aged now n else n))) (mset (all_nodes q))"
  have "stored q = image_mset fst ?R" by (simp only: stored_def multiset.map_comp comp_def fst_conv)
  moreover have "stored q' = image_mset snd ?R"
    by (simp only: stored_def nodes multiset.map_comp comp_def snd_conv)
  moreover have "\<forall>(m, m') \<in># ?R. ages_to m m'" using aged_ages_to by auto
  ultimately show ?thesis unfolding run snd_conv using a by blast
qed

interpretation store: message_store mlq_inv mq_num_levels stored "\<lambda>now front m q. place_message cost now m front q" "dequeue cost"
  sweep_expired_batch "\<lambda>clk now q. snd (age_once_locked clk now q)" for cost
proof unfold_locales
  fix q and m :: Message assume inv: "mlq_inv q" and "m \<in># stored q"
  then obtain n where "n \<in> set (all_nodes q)" "m = n_message n" unfolding stored_def by auto
  then show "m_priority m < mq_num_levels q \<and> m_priority m \<le> m_original_priority m"
    using inv_node_level [OF inv] inv_level_node [OF inv] by metis
qed (use place_message_stored dequeue_stored sweep_stored age_stored in blast)+

end
