(* ===== verification/Broker_Ingress.thy ===== *)
theory Broker_Ingress
  imports Broker_Delivery Queue_Store
begin

text \<open>
  The ingress side of the broker never faults: extraction, prediction and learning always
  return, whatever the message, and the priority a message is routed to is a level of the queue. The
  lemmas separate the operations that only touch statistics, the predictor and the feedback
  stream (\<open>quiet\<close>) from those that move messages.
\<close>

section \<open>Invariants\<close>

text \<open>The extractor and the predictor agree with the configuration, and the predictor is consistent.\<close>

definition side_inv :: "(string \<Rightarrow> nat) \<Rightarrow> Broker \<Rightarrow> bool" where
  "side_inv hash b \<longleftrightarrow>
     config_valid (b_config b) \<and>
     (\<forall>s. b_feature_extractor b = Some s \<longrightarrow> FeatureExtractor s = Inr s \<and> hc_ingress_features (b_config b) \<noteq> None) \<and>
     (\<forall>p. b_predictor b = Some p \<longrightarrow> predictor_inv hash p \<and> hc_predictive_routing (b_config b) \<noteq> None \<and>
        pc_num_levels (pp_config p) = hc_num_levels (b_config b))"

text \<open>What holds of a message that waits in the queue, and of one that is delivered.\<close>

definition fits :: "HarbingerConfig \<Rightarrow> Message \<Rightarrow> bool" where
  "fits c m \<longleftrightarrow>
     m_priority m \<le> m_original_priority m \<and> m_original_priority m < hc_num_levels c \<and>
     m_max_retries m = hc_default_max_retries c \<and> m_retry_count m < m_max_retries m"

definition waiting :: "HarbingerConfig \<Rightarrow> Message \<Rightarrow> bool" where
  "waiting c m \<longleftrightarrow> fits c m \<and> m_delivery_count m = m_retry_count m"

definition delivered :: "HarbingerConfig \<Rightarrow> Message \<Rightarrow> bool" where
  "delivered c m \<longleftrightarrow> fits c m \<and> m_delivery_count m = Suc (m_retry_count m)"

lemma waiting_stable [simp]: "stable (waiting c)"
  by (auto simp: stable_def ages_to_def waiting_def fits_def)

text \<open>The queue holds waiting messages only.\<close>

definition queue_inv :: "Broker \<Rightarrow> bool" where
  "queue_inv b \<longleftrightarrow>
     mlq_inv (b_queue b) \<and> mq_num_levels (b_queue b) = hc_num_levels (b_config b) \<and>
     (\<forall>m \<in># stored (b_queue b). waiting (b_config b) m)"

section \<open>Operations that move no message\<close>

definition noise :: "Broker \<Rightarrow> Broker" where
  "noise b = b\<lparr>b_predictor := None, b_routing := no_routing, b_level_cost_ms := [], b_published := [], b_capture_drops := 0\<rparr>"

definition quiet :: "Broker \<Rightarrow> Broker \<Rightarrow> bool" where
  "quiet b b' \<longleftrightarrow> noise b' = noise b"

lemma quiet_refl [simp]: "quiet b b"
  by (simp add: quiet_def)

lemma quiet_trans [trans]: "quiet b b1 \<Longrightarrow> quiet b1 b2 \<Longrightarrow> quiet b b2"
  by (simp add: quiet_def)

lemma quiet_frame:
  assumes "quiet b b'"
  shows "b_config b' = b_config b" "b_feature_extractor b' = b_feature_extractor b" "b_queue b' = b_queue b" "b_dlq b' = b_dlq b"
    "b_proxy b' = b_proxy b" "b_in_flight b' = b_in_flight b" "b_deadlines b' = b_deadlines b"
    "b_instance_token b' = b_instance_token b" "b_completions b' = b_completions b" "b_completed b' = b_completed b"
    "b_next_completion b' = b_next_completion b" "b_registered_producers b' = b_registered_producers b"
    "b_registered_consumers b' = b_registered_consumers b"
  using assms unfolding quiet_def noise_def by (cases b; cases b'; simp)+

lemma quiet_updates [simp]:
  "quiet b (b'\<lparr>b_predictor := p\<rparr>) = quiet b b'" "quiet b (b'\<lparr>b_routing := rt\<rparr>) = quiet b b'"
  "quiet b (b'\<lparr>b_level_cost_ms := cost\<rparr>) = quiet b b'" "quiet b (b'\<lparr>b_published := pub\<rparr>) = quiet b b'"
  "quiet b (b'\<lparr>b_capture_drops := n\<rparr>) = quiet b b'"
  by (simp_all add: quiet_def noise_def)

lemma capture_event_ok:
  assumes "capture_event wall now m trigger b = (event, b')"
  shows "quiet b b'" and "b_predictor b' = b_predictor b"
  using assms by (auto simp: capture_event_def split: if_splits sum.splits)

lemma publish_event_ok: "quiet b (publish_event event b)" "b_predictor (publish_event event b) = b_predictor b"
  by (simp_all add: publish_event_def split: option.split)

lemma learn_level_cost_ok:
  "quiet b (learn_level_cost kind expired ms m b)" "b_predictor (learn_level_cost kind expired ms m b) = b_predictor b"
  by (simp_all add: learn_level_cost_def Let_def)

lemma side_inv_quiet: "side_inv hash b \<Longrightarrow> quiet b b' \<Longrightarrow> b_predictor b' = b_predictor b \<Longrightarrow> side_inv hash b'"
  using quiet_frame(1,2) [of b b'] by (simp add: side_inv_def)

lemma side_inv_predictor:
  "side_inv hash b \<Longrightarrow> b_predictor b = Some p \<Longrightarrow> quiet b b' \<Longrightarrow> b_predictor b' = Some p' \<Longrightarrow> predictor_inv hash p' \<Longrightarrow>
   pp_config p' = pp_config p \<Longrightarrow> side_inv hash b'"
  using quiet_frame(1,2) [of b b'] by (simp add: side_inv_def)

section \<open>Learning\<close>

lemma learn_censored_ok:
  assumes "predictor_inv hash p"
  shows "\<exists>r p'. learn_censored hash clk u p = Some (r, p') \<and> predictor_inv hash p' \<and> pp_config p' = pp_config p"
proof -
  obtain r p1 where 1: "observe_censored hash (clk 0) (u_key u) p = Some (r, p1)" "predictor_inv hash p1" "pp_config p1 = pp_config p"
    using observe_censored_ok [OF assms] by blast
  show ?thesis
  proof (cases "u_parent u")
    case (Some parent)
    obtain r' p2 where "observe_censored hash (clk 1) parent p1 = Some (r', p2)" "predictor_inv hash p2" "pp_config p2 = pp_config p1"
      using observe_censored_ok [OF 1(2)] by blast
    then show ?thesis using 1 Some by (auto simp: learn_censored_def)
  qed (use 1 in \<open>auto simp: learn_censored_def\<close>)
qed

lemma learn_ok:
  assumes side: "side_inv hash b" and "b_predictor b \<noteq> None"
  shows "\<exists>b'. learn hash clk u b = Some b' \<and> side_inv hash b' \<and> quiet b b' \<and> b_predictor b' \<noteq> None"
proof -
  obtain p where p: "b_predictor b = Some p" using assms(2) by blast
  then have inv: "predictor_inv hash p" using side by (simp add: side_inv_def)
  have "\<exists>b' p'. learn hash clk u b = Some b' \<and> quiet b b' \<and> b_predictor b' = Some p' \<and> predictor_inv hash p' \<and> pp_config p' = pp_config p"
  proof (cases "u_censored u")
    case True
    then show ?thesis using learn_censored_ok [OF inv, of clk u] p by (auto simp: learn_def Let_def)
  next
    case False
    show ?thesis
    proof (cases "u_duration_ms u")
      case None
      then show ?thesis using False p inv by (auto simp: learn_def Let_def)
    next
      case (Some d)
      let ?parent = "case u_parent u of None \<Rightarrow> [] | Some parent \<Rightarrow> parent"
      obtain r p' where "observe hash (clk 0) (u_key u) ?parent (Finite d) p = Some (r, p')" "predictor_inv hash p'" "pp_config p' = pp_config p"
        using observe_ok [OF inv] by blast
      then show ?thesis using Some False p by (cases r) (auto simp: learn_def Let_def)
    qed
  qed
  then show ?thesis using side_inv_predictor [OF side p] by fastforce
qed

section \<open>Routing\<close>

text \<open>A prediction, borrowed or not, names a level.\<close>

lemma lookup_prediction_ok:
  assumes inv: "predictor_inv hash p" and d: "dflt < pc_num_levels (pp_config p)"
  shows "\<exists>r borrowed p'. lookup_prediction hash clk dflt context p = Some (r, borrowed, p') \<and> predictor_inv hash p' \<and>
    pp_config p' = pp_config p \<and> dp_bucket r < pc_num_levels (pp_config p)"
proof (cases "rc_predictor_key context")
  case None
  then show ?thesis using inv d by (simp add: lookup_prediction_def ex_bool_eq)
next
  case (Some key)
  obtain r p1 where 1: "predict hash (clk 1) key p = Some (r, p1)" "predictor_inv hash p1" "pp_config p1 = pp_config p"
      "dp_bucket r < pc_num_levels (pp_config p)"
    using predict_ok [OF inv, of "clk 1" key] unfolding prediction_ok_def by blast
  show ?thesis
  proof (cases "dp_status r = ColdKey \<and> rc_predictor_parent_key context \<noteq> None")
    case True
    then obtain parent where parent: "rc_predictor_parent_key context = Some parent" by blast
    obtain r' p2 where "predict hash (clk 2) parent p1 = Some (r', p2)" "predictor_inv hash p2" "pp_config p2 = pp_config p1"
        "dp_bucket r' < pc_num_levels (pp_config p1)"
      using predict_ok [OF 1(2), of "clk 2" parent] unfolding prediction_ok_def by blast
    then show ?thesis using 1 Some True parent by (simp add: lookup_prediction_def ex_bool_eq)
  next
    case False
    then show ?thesis using 1 Some by (auto simp: lookup_prediction_def split: option.splits)
  qed
qed

lemma apply_prediction_bucket:
  "rc_predicted_bucket context = None \<Longrightarrow> rc_predicted_bucket (apply_prediction n d context) = Some k \<Longrightarrow> k < n"
  by (auto simp: apply_prediction_def Let_def split: if_splits PredictionStatus.splits)

lemma predict_route_ok:
  assumes side: "side_inv hash b" and p: "b_predictor b = Some p" and m: "m_priority m < hc_num_levels (b_config b)"
    and ctx: "rc_predicted_bucket context = None"
  shows "\<exists>l context' b'. predict_route hash clk m context routing p b = Some (l, context', b') \<and>
    l < hc_num_levels (b_config b) \<and> side_inv hash b' \<and> quiet b b'"
proof -
  define c1 where "c1 = context\<lparr>rc_mode := pr_mode routing, rc_routing_policy_version := pr_routing_policy_version routing\<rparr>"
  define c2 where "c2 = (case derive_predictor_keys (m_headers m) (pr_key routing) (length (m_payload m)) of None \<Rightarrow> c1
    | Some ks \<Rightarrow> c1\<lparr>rc_predictor_key := Some (k_key ks), rc_predictor_parent_key := k_parent ks\<rparr>)"
  define c3 where "c3 = c2\<lparr>rc_model_version := Some (model_version p)\<rparr>"
  let ?n = "hc_num_levels (b_config b)" and ?d = "hc_default_priority (b_config b)"
  have inv: "predictor_inv hash p" and n: "pc_num_levels (pp_config p) = ?n" and d: "?d < pc_num_levels (pp_config p)"
    using side p by (simp_all add: side_inv_def config_valid_def)
  obtain r borrowed p' where l: "lookup_prediction hash clk ?d c3 p = Some (r, borrowed, p')" "predictor_inv hash p'" "pp_config p' = pp_config p"
    using lookup_prediction_ok [OF inv d, of clk c3] by blast
  define c4 where "c4 = apply_prediction ?n r (c3\<lparr>rc_inference_elapsed_ms := Some (real (nat ((clk 3 - clk 0) mod 2 ^ 64)) / 1000000)\<rparr>)"
  define rt where "rt = count_lookup (nat ((clk 3 - clk 0) mod 2 ^ 64)) r borrowed (b_routing b)"
  have "rc_predicted_bucket c3 = None" using ctx by (simp add: c3_def c2_def c1_def split: option.split)
  then have bound: "k < ?n" if "rc_predicted_bucket c4 = Some k" for k
    using that unfolding c4_def by (intro apply_prediction_bucket [of "c3\<lparr>rc_inference_elapsed_ms := e\<rparr>" ?n r k for e]) simp_all
  have eq: "predict_route hash clk m context routing p b =
      Some (case (if pr_mode routing = Predictive then rc_predicted_bucket c4 else None) of
         Some bucket \<Rightarrow> (bucket, c4, b\<lparr>b_predictor := Some p', b_routing := rt\<lparr>rt_routed := Suc (rt_routed rt)\<rparr>\<rparr>)
       | None \<Rightarrow> (m_priority m, c4, b\<lparr>b_predictor := Some p', b_routing := rt\<rparr>))"
    unfolding predict_route_def Let_def c1_def [symmetric] c2_def [symmetric] c3_def [symmetric] l(1)
      option.case prod.case c4_def [symmetric] rt_def [symmetric]
    by (simp split: option.split)
  have "side_inv hash (b\<lparr>b_predictor := Some p', b_routing := rt'\<rparr>)" for rt'
    by (rule side_inv_predictor [OF side p _ _ l(2,3)]) simp_all
  then show ?thesis
    using m bound unfolding eq
    by (cases "if pr_mode routing = Predictive then rc_predicted_bucket c4 else None") (auto split: if_splits)
qed

lemma extract_context_ok:
  assumes "side_inv hash b"
  shows "\<exists>context. extract_context m b = Some context \<and> rc_predicted_bucket context = None"
proof (cases "b_feature_extractor b")
  case None
  then show ?thesis by (simp add: extract_context_def default_context_def)
next
  case (Some s)
  then obtain ic where "FeatureExtractor s = Inr s" "hc_ingress_features (b_config b) = Some ic"
    using assms by (auto simp: side_inv_def)
  then show ?thesis using Some by (simp add: extract_context_def FeatureExtractor_extract_eq default_context_def)
qed

text \<open>The message that leaves routing: its level exists and it has the configured number of retries.\<close>

definition routed :: "HarbingerConfig \<Rightarrow> Message \<Rightarrow> Message \<Rightarrow> bool" where
  "routed c m m' \<longleftrightarrow>
     m_priority m' = m_original_priority m' \<and> m_original_priority m' < hc_num_levels c \<and> m_max_retries m' = hc_default_max_retries c \<and>
     m_id m' = m_id m \<and> m_payload m' = m_payload m \<and> m_headers m' = m_headers m \<and> m_arrival_time m' = m_arrival_time m \<and>
     m_retry_count m' = m_retry_count m \<and> m_delivery_count m' = m_delivery_count m \<and>
     m_ttl m' = (if m_ttl m = kTtlUnset then hc_default_ttl c else m_ttl m)"

lemma assign_route_ok:
  assumes side: "side_inv hash b"
  shows "\<exists>m' b'. assign_route hash clk m b = Some (m', b') \<and> side_inv hash b' \<and> quiet b b' \<and> routed (b_config b) m m'"
proof -
  let ?c = "b_config b"
  let ?m = "m\<lparr>m_priority := hc_default_priority ?c, m_original_priority := hc_default_priority ?c,
    m_max_retries := hc_default_max_retries ?c, m_ttl := (if m_ttl m = kTtlUnset then hc_default_ttl ?c else m_ttl m)\<rparr>"
  have d: "hc_default_priority ?c < hc_num_levels ?c" using side by (simp add: side_inv_def config_valid_def)
  obtain ctx where x: "extract_context ?m b = Some ctx" "rc_predicted_bucket ctx = None"
    using extract_context_ok [OF side] by blast
  show ?thesis
  proof (cases "b_predictor b")
    case None
    then show ?thesis
      using side d x by (auto simp: assign_route_def Let_def routed_def)
  next
    case (Some p)
    then obtain routing where r: "hc_predictive_routing ?c = Some routing" using side by (auto simp: side_inv_def)
    obtain l ctx' b' where "predict_route hash clk ?m ctx routing p b = Some (l, ctx', b')"
        "l < hc_num_levels ?c" "side_inv hash b'" "quiet b b'"
      using predict_route_ok [OF side Some, of ?m ctx clk routing] d x by auto
    then show ?thesis using Some r x by (auto simp: assign_route_def Let_def routed_def)
  qed
qed

section \<open>Submission\<close>

text \<open>The ids of the queued messages.\<close>

definition queued_ids :: "Broker \<Rightarrow> string multiset" where
  "queued_ids b = image_mset m_id (stored (b_queue b))"

text \<open>Putting a waiting message into the queue, at the back or at the front.\<close>

lemma put_ok:
  assumes "queue_inv b" and "waiting (b_config b) m"
  obtains q where "place_message cost now m front (b_queue b) = Inr q" and "queue_inv (b\<lparr>b_queue := q\<rparr>)"
    and "queued_ids (b\<lparr>b_queue := q\<rparr>) = add_mset (m_id m) (queued_ids b)"
proof -
  have q: "mlq_inv (b_queue b)" "\<forall>m \<in># stored (b_queue b). waiting (b_config b) m"
    and m: "m_priority m < mq_num_levels (b_queue b)" "m_priority m \<le> m_original_priority m"
    using assms by (auto simp: queue_inv_def waiting_def fits_def)
  obtain q' where "place_message cost now m front (b_queue b) = Inr q'" "mlq_inv q'" "mq_num_levels q' = mq_num_levels (b_queue b)"
      "\<forall>m \<in># stored q'. waiting (b_config b) m"
      "image_mset m_id (stored q') = add_mset (m_id m) (image_mset m_id (stored (b_queue b)))"
    by (rule store.put_holds [OF q waiting_stable assms(2) m, of cost now front])
  then show thesis using that assms(1) by (simp add: queue_inv_def queued_ids_def)
qed

lemma queue_inv_quiet: "quiet b b' \<Longrightarrow> queue_inv b' = queue_inv b"
  using quiet_frame(1,3) [of b b'] by (simp add: queue_inv_def)

lemma queued_ids_quiet: "quiet b b' \<Longrightarrow> queued_ids b' = queued_ids b"
  using quiet_frame(3) [of b b'] by (simp add: queued_ids_def)

lemma quiet_queue: "quiet b b' \<Longrightarrow> quiet (b\<lparr>b_queue := q\<rparr>) (b'\<lparr>b_queue := q\<rparr>)"
  unfolding quiet_def noise_def by (cases b; cases b') simp

lemma routed_waiting:
  "routed c m m' \<Longrightarrow> m_retry_count m = 0 \<Longrightarrow> m_delivery_count m = 0 \<Longrightarrow> config_valid c \<Longrightarrow> waiting c m'"
  by (simp add: routed_def waiting_def fits_def config_valid_def)

lemma route_message_ok:
  assumes side: "side_inv hash b" and queue: "queue_inv b" and m: "m_retry_count m = 0" "m_delivery_count m = 0"
  shows "\<exists>b'. route_message hash clk wall m b = Some b' \<and> side_inv hash b' \<and> queue_inv b' \<and>
    quiet (b\<lparr>b_queue := b_queue b'\<rparr>) b' \<and> queued_ids b' = add_mset (m_id m) (queued_ids b)"
proof -
  obtain m' b1 where r: "assign_route hash clk m b = Some (m', b1)" "side_inv hash b1" "quiet b b1" "routed (b_config b) m m'"
    using assign_route_ok [OF side] by blast
  obtain event b2 where c: "capture_event wall (clk 4) m' Submit b1 = (event, b2)" by force
  note cap = capture_event_ok [OF c]
  have b2: "quiet b b2" using r(3) cap(1) quiet_trans by blast
  have queue2: "queue_inv b2" using queue queue_inv_quiet [OF b2] by blast
  have "waiting (b_config b) m'" using r(4) m side by (intro routed_waiting) (simp_all add: side_inv_def)
  then have w: "waiting (b_config b2) m'" using quiet_frame(1) [OF b2] by simp
  obtain q where q: "place_message (broker_cost b2) (clk 5) m' False (b_queue b2) = Inr q" "queue_inv (b2\<lparr>b_queue := q\<rparr>)"
      "queued_ids (b2\<lparr>b_queue := q\<rparr>) = add_mset (m_id m') (queued_ids b2)"
    by (rule put_ok [OF queue2 w])
  let ?b3 = "b2\<lparr>b_queue := q\<rparr>"
  let ?b' = "publish_event event ?b3"
  have eq: "route_message hash clk wall m b = Some ?b'"
    using r(1) c q(1) by (simp add: route_message_def enqueue_def)
  have side2: "side_inv hash b2" using side_inv_quiet [OF r(2) cap] .
  then have "side_inv hash ?b3" by (simp add: side_inv_def)
  then have "side_inv hash ?b'" using side_inv_quiet publish_event_ok by blast
  moreover have "queue_inv ?b'" "queued_ids ?b' = queued_ids ?b3" "b_queue ?b' = q"
    using q(2) queue_inv_quiet queued_ids_quiet quiet_frame(3) publish_event_ok(1) [of ?b3 event] by fastforce+
  moreover have "quiet (b\<lparr>b_queue := q\<rparr>) ?b'"
    using quiet_queue [OF b2] publish_event_ok(1) [of ?b3 event] quiet_trans by blast
  moreover have "m_id m' = m_id m" using r(4) by (simp add: routed_def)
  ultimately show ?thesis using eq q(3) queued_ids_quiet [OF b2] by simp
qed

lemma rpc_Submit_ok:
  assumes side: "side_inv hash b" and queue: "queue_inv b"
  obtains (rejected) st where "rpc_Submit hash clk wall req b = Some ((st, []), b)" and "fst st \<noteq> OK"
  | (accepted) b' where "rpc_Submit hash clk wall req b = Some (((OK, []), fst (generate_id (clk 0) (b_proxy b))), b')"
    and "side_inv hash b'" and "queue_inv b'" and "quiet (b\<lparr>b_proxy := b_proxy b', b_queue := b_queue b'\<rparr>) b'"
    and "px_counter (b_proxy b') = px_counter (b_proxy b) + 1"
    and "queued_ids b' = add_mset (fst (generate_id (clk 0) (b_proxy b))) (queued_ids b)"
proof (cases "is_registered_producer (sr_producer_id req) b \<and> \<not> (case sr_ttl_ms req of None \<Rightarrow> False | Some t \<Rightarrow> t < 0)")
  case False
  then have "\<exists>st. rpc_Submit hash clk wall req b = Some ((st, []), b) \<and> fst st \<noteq> OK" by (auto simp: rpc_Submit_def)
  then show thesis using rejected by blast
next
  case True
  obtain mid msg px where acc: "proxy_accept clk (sr_payload req) (sr_headers req) (sr_producer_id req) (sr_ttl_ms req) (b_proxy b) = (mid, msg, px)"
    by (metis prod_cases3)
  then have msg: "mid = fst (generate_id (clk 0) (b_proxy b))" "m_id msg = mid" "m_retry_count msg = 0" "m_delivery_count msg = 0"
      "px_counter px = px_counter (b_proxy b) + 1"
    by (auto simp: proxy_accept_def generate_id_def Let_def default_message_def)
  have "side_inv hash (b\<lparr>b_proxy := px\<rparr>)" "queue_inv (b\<lparr>b_proxy := px\<rparr>)" "queued_ids (b\<lparr>b_proxy := px\<rparr>) = queued_ids b"
    using side queue by (simp_all add: side_inv_def queue_inv_def queued_ids_def)
  then obtain b' where b': "route_message hash (\<lambda>i. clk (i + 2)) wall msg (b\<lparr>b_proxy := px\<rparr>) = Some b'" "side_inv hash b'" "queue_inv b'"
      "quiet (b\<lparr>b_proxy := px, b_queue := b_queue b'\<rparr>) b'" "queued_ids b' = add_mset (m_id msg) (queued_ids b)"
    using route_message_ok [of hash "b\<lparr>b_proxy := px\<rparr>" msg "\<lambda>i. clk (i + 2)" wall] msg by auto
  have "b_proxy b' = px" using quiet_frame(5) [OF b'(4)] by simp
  moreover have "rpc_Submit hash clk wall req b = Some (((OK, []), mid), b')" using True acc b'(1) by (simp add: rpc_Submit_def)
  ultimately show thesis using accepted [of b'] b' msg by simp
qed

end
