(* ===== verification/Broker_Settlement.thy ===== *)
theory Broker_Settlement
  imports Broker_Ingress
begin

text \<open>
  The delivery side of the broker: the in-flight table and its deadline index describe the same
  deliveries, the history of settled attempts and its token index describe the same
  attempts, and settling a delivery moves its message to exactly one place. Every section that runs
  under the settlement lock keeps these invariants and never faults.
\<close>

section \<open>Invariants\<close>

definition lease_of :: "string \<times> InFlightEntry \<Rightarrow> time \<times> string" where
  "lease_of x = (f_deadline (snd x), fst x)"

definition flight_inv :: "Broker \<Rightarrow> bool" where
  "flight_inv b \<longleftrightarrow>
     distinct (map fst (b_in_flight b)) \<and> distinct (map (f_attempt_token \<circ> snd) (b_in_flight b)) \<and>
     (\<forall>mid e. map_of (b_in_flight b) mid = Some e \<longrightarrow>
        m_id (f_message e) = mid \<and> delivered (b_config b) (f_message e) \<and> f_attempt_id e = m_delivery_count (f_message e)) \<and>
     sorted (map fst (b_deadlines b)) \<and> mset (b_deadlines b) = image_mset lease_of (mset (b_in_flight b))"

text \<open>The history: serial numbers ascend, tokens differ, and the index maps a token to its serial number.\<close>

definition hist_ok :: "nat \<Rightarrow> (nat \<times> Completion) list \<Rightarrow> (string \<times> nat) list \<Rightarrow> bool" where
  "hist_ok next_serial cs ix \<longleftrightarrow>
     sorted_wrt (<) (map fst cs) \<and> (\<forall>i \<in> fst ` set cs. i < next_serial) \<and> distinct (map (c_token \<circ> snd) cs) \<and>
     (\<forall>tok i. map_of ix tok = Some i \<longleftrightarrow> (\<exists>c. (i, c) \<in> set cs \<and> c_token c = tok))"

definition history_inv :: "Broker \<Rightarrow> bool" where
  "history_inv b \<longleftrightarrow>
     hist_ok (b_next_completion b) (b_completions b) (b_completed b) \<and>
     length (b_completions b) \<le> hc_completion_cache_max_entries (b_config b) \<and>
     (\<forall>mid e. map_of (b_in_flight b) mid = Some e \<longrightarrow> f_attempt_token e \<notin> c_token ` snd ` set (b_completions b))"

definition dlq_inv :: "Broker \<Rightarrow> bool" where
  "dlq_inv b \<longleftrightarrow>
     (\<forall>d \<in> set (b_dlq b). m_delivery_count (d_message d) \<le> hc_default_max_retries (b_config b) \<and>
        (d_reason d = TTL_EXPIRED \<or> d_reason d = MAX_RETRIES_EXCEEDED \<and> m_retry_count (d_message d) = hc_default_max_retries (b_config b)))"

definition broker_inv :: "(string \<Rightarrow> nat) \<Rightarrow> Broker \<Rightarrow> bool" where
  "broker_inv hash b \<longleftrightarrow> side_inv hash b \<and> queue_inv b \<and> flight_inv b \<and> history_inv b \<and> dlq_inv b"

definition dlq_ids :: "Broker \<Rightarrow> string multiset" where
  "dlq_ids b = image_mset (\<lambda>d. m_id (d_message d)) (mset (b_dlq b))"

definition flight_ids :: "Broker \<Rightarrow> string multiset" where
  "flight_ids b = mset (map fst (b_in_flight b))"

text \<open>All message ids the broker holds.\<close>

definition held_ids :: "Broker \<Rightarrow> string multiset" where
  "held_ids b = queued_ids b + dlq_ids b + flight_ids b"

lemma quiet_inv:
  assumes "quiet b b'"
  shows "flight_inv b' = flight_inv b" "history_inv b' = history_inv b" "dlq_inv b' = dlq_inv b"
    "dlq_ids b' = dlq_ids b" "flight_ids b' = flight_ids b"
  using quiet_frame [OF assms] by (simp_all add: flight_inv_def history_inv_def dlq_inv_def dlq_ids_def flight_ids_def)

lemma broker_inv_quiet:
  assumes "quiet b b'" and "side_inv hash b'" and "broker_inv hash b"
  shows "broker_inv hash b'" and "held_ids b' = held_ids b"
  using assms quiet_inv [OF assms(1)] queue_inv_quiet [OF assms(1)] queued_ids_quiet [OF assms(1)]
  by (simp_all add: broker_inv_def held_ids_def)

section \<open>The history\<close>

lemma hist_ok_serial: "hist_ok n cs ix \<Longrightarrow> (i, c) \<in> set cs \<Longrightarrow> map_of cs i = Some c"
  by (simp add: hist_ok_def strict_sorted_iff)

lemma hist_ok_lookup: "hist_ok n cs ix \<Longrightarrow> map_of ix tok = Some i \<Longrightarrow> \<exists>c. map_of cs i = Some c \<and> (i, c) \<in> set cs \<and> c_token c = tok"
  using hist_ok_serial unfolding hist_ok_def by blast

lemma hist_ok_remove:
  assumes h: "hist_ok n cs ix" and c: "(i, c) \<in> set cs"
  shows "hist_ok n (AList.delete i cs) (AList.delete (c_token c) ix)"
proof -
  have inj: "inj_on (c_token \<circ> snd) (set cs)" and d: "distinct (map fst cs)"
    using h by (simp_all add: hist_ok_def distinct_map strict_sorted_iff)
  have other: "j \<noteq> i \<longleftrightarrow> c_token x \<noteq> c_token c" if "(j, x) \<in> set cs" for j x
    using that c inj_onD [OF inj, of "(j, x)" "(i, c)"] d by (auto dest: eq_key_imp_eq_value)
  have set: "set (AList.delete i cs) = {x \<in> set cs. fst x \<noteq> i}" by (auto simp: AList.delete_eq)
  have "sorted_wrt (<) (map fst (AList.delete i cs))" "distinct (map (c_token \<circ> snd) (AList.delete i cs))"
    using h by (simp_all add: hist_ok_def AList.delete_eq sorted_wrt_map sorted_wrt_filter distinct_map_filter)
  moreover have "map_of (AList.delete (c_token c) ix) tok = Some j \<longleftrightarrow> (\<exists>x. (j, x) \<in> set (AList.delete i cs) \<and> c_token x = tok)" for tok j
    using h other unfolding hist_ok_def set by (auto simp: AList.delete_conv')
  ultimately show ?thesis using h unfolding hist_ok_def set by auto
qed

lemma hist_ok_record:
  assumes h: "hist_ok n cs ix" and c: "c_token c \<notin> c_token ` snd ` set cs"
  shows "hist_ok (Suc n) (cs @ [(n, c)]) (if map_of ix (c_token c) = None then AList.update (c_token c) n ix else ix)"
proof -
  have "map_of ix (c_token c) = None"
  proof (rule ccontr)
    assume "map_of ix (c_token c) \<noteq> None"
    then obtain i x where "(i, x) \<in> set cs" "c_token x = c_token c" using h unfolding hist_ok_def by blast
    then show False using c by (metis image_eqI snd_conv)
  qed
  then have ix: "map_of (if map_of ix (c_token c) = None then AList.update (c_token c) n ix else ix) = (map_of ix)(c_token c \<mapsto> n)"
    by (simp add: AList.update_conv')
  have "n \<notin> fst ` set cs" using h unfolding hist_ok_def by blast
  moreover have "map_of ix tok = Some i \<longleftrightarrow> (\<exists>x. (i, x) \<in> set cs \<and> c_token x = tok)" for tok i using h by (simp add: hist_ok_def)
  ultimately have "((map_of ix)(c_token c \<mapsto> n)) tok = Some i \<longleftrightarrow> (\<exists>x. (i, x) \<in> set (cs @ [(n, c)]) \<and> c_token x = tok)" for tok i
    using c by (auto simp: image_iff)
  moreover have "sorted_wrt (<) (map fst (cs @ [(n, c)]))" "distinct (map (c_token \<circ> snd) (cs @ [(n, c)]))"
    "\<forall>i \<in> fst ` set (cs @ [(n, c)]). i < Suc n"
    using h c by (auto simp: hist_ok_def sorted_wrt_append image_image comp_def less_Suc_eq)
  ultimately show ?thesis unfolding hist_ok_def ix by blast
qed

text \<open>Pruning removes a prefix of the history.\<close>

lemma prune_completions_ok:
  assumes "hist_ok n (b_completions b) (b_completed b)"
  obtains k ix where "k \<le> budget" and "k \<le> length (b_completions b)"
    and "prune_completions_locked budget now b = b\<lparr>b_completed := ix, b_completions := drop k (b_completions b)\<rparr>"
    and "hist_ok n (drop k (b_completions b)) ix"
    and "0 < budget \<longrightarrow> hc_completion_cache_max_entries (b_config b) < length (b_completions b) \<longrightarrow> 0 < k"
proof -
  have "\<exists>k ix. k \<le> budget \<and> k \<le> length (b_completions b) \<and>
    prune_completions_locked budget now b = b\<lparr>b_completed := ix, b_completions := drop k (b_completions b)\<rparr> \<and>
    hist_ok n (drop k (b_completions b)) ix \<and>
    (0 < budget \<longrightarrow> hc_completion_cache_max_entries (b_config b) < length (b_completions b) \<longrightarrow> 0 < k)"
    using assms
  proof (induction budget now b rule: prune_completions_locked.induct)
    case (1 now b)
    then show ?case by (intro exI [of _ 0] exI [of _ "b_completed b"]) simp
  next
    case (2 budget now b)
    show ?case
    proof (cases "\<exists>i c rest. b_completions b = (i, c) # rest \<and> (hc_completion_cache_max_entries (b_config b) < length (b_completions b) \<or>
             ms_to_ns (hc_completion_retention (b_config b)) \<le> now - c_time c)")
      case True
      then obtain i c rest where cs: "b_completions b = (i, c) # rest" and full: "hc_completion_cache_max_entries (b_config b) < length (b_completions b) \<or>
             ms_to_ns (hc_completion_retention (b_config b)) \<le> now - c_time c" by blast
      let ?b = "b\<lparr>b_completed := AList.delete (c_token c) (b_completed b), b_completions := rest\<rparr>"
      have eq: "prune_completions_locked (Suc budget) now b = prune_completions_locked budget now ?b"
        using cs full by simp
      have "i \<notin> fst ` set rest" using 2(2) cs by (auto simp: hist_ok_def)
      then have "AList.delete i (b_completions b) = rest" using cs by (simp add: AList.delete_idem)
      then have "hist_ok n (b_completions ?b) (b_completed ?b)" using hist_ok_remove [OF 2(2), of i c] cs by simp
      then obtain k ix where "k \<le> budget" "k \<le> length rest"
          "prune_completions_locked budget now ?b = ?b\<lparr>b_completed := ix, b_completions := drop k rest\<rparr>" "hist_ok n (drop k rest) ix"
        using "2.IH" [OF cs refl full] by auto
      then show ?thesis unfolding eq using cs by (intro exI [of _ "Suc k"] exI [of _ ix]) simp
    next
      case False
      then have "prune_completions_locked (Suc budget) now b = b" "\<not> hc_completion_cache_max_entries (b_config b) < length (b_completions b)"
        by (cases "b_completions b"; force)+
      then show ?thesis using 2(2) by (intro exI [of _ 0] exI [of _ "b_completed b"]) simp
    qed
  qed
  then show thesis using that by blast
qed

declare prune_completions_locked.simps [simp del]

section \<open>Where a settled message goes\<close>

text \<open>Where a settled message is afterwards: four cases.\<close>

definition disposed :: "time \<Rightarrow> Settlement \<Rightarrow> string \<Rightarrow> bool \<Rightarrow> Message \<Rightarrow> Broker \<Rightarrow> Broker \<Rightarrow> bool" where
  "disposed now kind reason ttl m b b' \<longleftrightarrow>
     (if ttl then stored (b_queue b') = stored (b_queue b) \<and> b_dlq b' = dlq_push now m TTL_EXPIRED (''TTL expired; '' @ reason) (b_dlq b)
      else if kind = SAck then stored (b_queue b') = stored (b_queue b) \<and> b_dlq b' = b_dlq b
      else if m_max_retries m \<le> Suc (m_retry_count m)
        then stored (b_queue b') = stored (b_queue b) \<and> b_dlq b' = dlq_push now (m\<lparr>m_retry_count := Suc (m_retry_count m)\<rparr>) MAX_RETRIES_EXCEEDED
          (''Exceeded max_retries='' @ nat_to_string (m_max_retries m) @ ''; last reason: '' @ reason) (b_dlq b)
      else b_dlq b' = b_dlq b \<and> stored (b_queue b') =
        add_mset (m\<lparr>m_retry_count := Suc (m_retry_count m), m_priority := m_original_priority m, m_enqueue_time := now\<rparr>) (stored (b_queue b)))"

lemma disposed_cong:
  "disposed now kind reason ttl m b b' \<Longrightarrow> b_queue a = b_queue b \<Longrightarrow> b_dlq a = b_dlq b \<Longrightarrow> b_queue a' = b_queue b' \<Longrightarrow> b_dlq a' = b_dlq b' \<Longrightarrow>
   disposed now kind reason ttl m a a'"
  by (simp add: disposed_def)

lemma dispose_ok:
  assumes queue: "queue_inv b" and dlq: "dlq_inv b" and m: "delivered (b_config b) m"
  obtains event' q d where "dispose now kind reason ttl m event b = Some (event', b\<lparr>b_queue := q, b_dlq := d\<rparr>)"
    and "disposed now kind reason ttl m b (b\<lparr>b_queue := q, b_dlq := d\<rparr>)"
    and "queue_inv (b\<lparr>b_queue := q, b_dlq := d\<rparr>)" and "dlq_inv (b\<lparr>b_queue := q, b_dlq := d\<rparr>)"
    and "queued_ids (b\<lparr>b_queue := q, b_dlq := d\<rparr>) + dlq_ids (b\<lparr>b_queue := q, b_dlq := d\<rparr>) =
      (if kind = SAck \<and> \<not> ttl then {#} else {#m_id m#}) + (queued_ids b + dlq_ids b)"
proof -
  let ?b = "\<lambda>q d. b\<lparr>b_queue := q, b_dlq := d\<rparr>"
  have same: "queue_inv (?b (b_queue b) d) = queue_inv b" "queued_ids (?b (b_queue b) d) = queued_ids b" for d
    by (simp_all add: queue_inv_def queued_ids_def)
  have max: "m_max_retries m = hc_default_max_retries (b_config b)" "m_retry_count m < m_max_retries m"
    "m_delivery_count m = Suc (m_retry_count m)" using m by (simp_all add: delivered_def fits_def)
  consider (ttl) ttl | (ack) "\<not> ttl" "kind = SAck"
    | (exceeded) "\<not> ttl" "kind \<noteq> SAck" "m_max_retries m \<le> Suc (m_retry_count m)"
    | (retry) "\<not> ttl" "kind \<noteq> SAck" "Suc (m_retry_count m) < m_max_retries m" by fastforce
  then show thesis
  proof cases
    case ttl
    let ?d = "dlq_push now m TTL_EXPIRED (''TTL expired; '' @ reason) (b_dlq b)"
    have "dispose now kind reason ttl m event b = Some (expired_event event, ?b (b_queue b) ?d)" using ttl by (simp add: dispose_def)
    then show thesis
      by (rule that) (use same queue dlq max ttl in \<open>auto simp: disposed_def dlq_inv_def dlq_ids_def dlq_push_def\<close>)
  next
    case ack
    have "dispose now kind reason ttl m event b = Some (event, ?b (b_queue b) (b_dlq b))" using ack by (simp add: dispose_def)
    then show thesis
      by (rule that) (use same queue dlq ack in \<open>auto simp: disposed_def dlq_inv_def dlq_ids_def\<close>)
  next
    case exceeded
    let ?m = "m\<lparr>m_retry_count := Suc (m_retry_count m)\<rparr>"
    let ?d = "dlq_push now ?m MAX_RETRIES_EXCEEDED
      (''Exceeded max_retries='' @ nat_to_string (m_max_retries m) @ ''; last reason: '' @ reason) (b_dlq b)"
    have "\<exists>event'. dispose now kind reason ttl m event b = Some (event', ?b (b_queue b) ?d)"
      using exceeded by (simp add: dispose_def Let_def)
    then obtain event' where "dispose now kind reason ttl m event b = Some (event', ?b (b_queue b) ?d)" by blast
    then show thesis
      by (rule that) (use same queue dlq max exceeded in \<open>auto simp: disposed_def dlq_inv_def dlq_ids_def dlq_push_def\<close>)
  next
    case retry
    let ?m = "m\<lparr>m_retry_count := Suc (m_retry_count m), m_priority := m_original_priority m\<rparr>"
    have "waiting (b_config b) ?m" using m retry by (simp add: waiting_def delivered_def fits_def)
    then obtain q where q: "place_message (broker_cost b) now ?m False (b_queue b) = Inr q" "queue_inv (b\<lparr>b_queue := q\<rparr>)"
        "queued_ids (b\<lparr>b_queue := q\<rparr>) = add_mset (m_id ?m) (queued_ids b)"
      using put_ok [OF queue] by blast
    have "mlq_inv (b_queue b)" "m_priority ?m < mq_num_levels (b_queue b)" "m_priority ?m \<le> m_original_priority ?m"
      using queue m by (simp_all add: queue_inv_def delivered_def fits_def)
    from place_message_stored [OF this, of "broker_cost b" now False]
    have "stored q = add_mset (?m\<lparr>m_enqueue_time := now\<rparr>) (stored (b_queue b))" using q(1) by auto
    then have disp: "disposed now kind reason ttl m b (?b q (b_dlq b))" using retry by (simp add: disposed_def)
    have "\<exists>event'. dispose now kind reason ttl m event b = Some (event', ?b q (b_dlq b))"
      using retry q(1) by (simp add: dispose_def Let_def enqueue_def)
    then obtain event' where "dispose now kind reason ttl m event b = Some (event', ?b q (b_dlq b))" by blast
    then show thesis
      by (rule that [OF _ disp]) (use q dlq retry in \<open>auto simp: dlq_inv_def dlq_ids_def queue_inv_def queued_ids_def\<close>)
  qed
qed

section \<open>Settling one delivery\<close>

text \<open>What the steps before the disposal leave: the same deliveries, the message and its token.\<close>

definition settled :: "(string \<Rightarrow> nat) \<Rightarrow> string \<Rightarrow> bool \<Rightarrow> Broker \<Rightarrow> Broker \<Rightarrow> bool" where
  "settled hash mid gone b b' \<longleftrightarrow>
     broker_inv hash b' \<and> b_config b' = b_config b \<and> b_proxy b' = b_proxy b \<and> b_instance_token b' = b_instance_token b \<and>
     b_registered_producers b' = b_registered_producers b \<and> b_registered_consumers b' = b_registered_consumers b \<and>
     b_in_flight b' = AList.delete mid (b_in_flight b) \<and> b_predictor b' = b_predictor b \<and>
     held_ids b = held_ids b' + (if gone then {#mid#} else {#}) \<and>
     c_token ` snd ` set (b_completions b') \<subseteq>
       insert (f_attempt_token (the (map_of (b_in_flight b) mid))) (c_token ` snd ` set (b_completions b))"

lemma mset_delete:
  assumes "distinct (map fst xs)" and "map_of xs k = Some v"
  shows "mset xs = add_mset (k, v) (mset (AList.delete k xs))"
proof -
  have "(k, v) \<in> set xs" using assms(2) by (rule map_of_SomeD)
  moreover have "AList.delete k xs = remove1 (k, v) xs"
    using filter_key_remove1 [OF assms(1) \<open>(k, v) \<in> set xs\<close>] by (simp add: AList.delete_eq case_prod_unfold eq_commute)
  ultimately show ?thesis by simp
qed

lemma flight_tokens:
  assumes "flight_inv b" and "map_of (b_in_flight b) mid = Some e" and "map_of (b_in_flight b) mid' = Some e'"
    and "f_attempt_token e = f_attempt_token e'"
  shows "mid = mid'"
proof -
  have "inj_on (f_attempt_token \<circ> snd) (set (b_in_flight b))" using assms(1) by (simp add: flight_inv_def distinct_map)
  from inj_onD [OF this, of "(mid, e)" "(mid', e')"] show ?thesis using assms map_of_SomeD by fastforce
qed

lemma flight_inv_delete:
  assumes f: "flight_inv b" and e: "map_of (b_in_flight b) mid = Some e"
  shows "(f_deadline e, mid) \<in> set (b_deadlines b)"
    and "flight_inv (b\<lparr>b_deadlines := remove1 (f_deadline e, mid) (b_deadlines b), b_in_flight := AList.delete mid (b_in_flight b)\<rparr>)"
    and "flight_ids b = add_mset mid (flight_ids (b\<lparr>b_deadlines := ds, b_in_flight := AList.delete mid (b_in_flight b)\<rparr>))"
proof -
  have d: "distinct (map fst (b_in_flight b))" using f by (simp add: flight_inv_def)
  note m = mset_delete [OF d e]
  have ds: "mset (b_deadlines b) = add_mset (f_deadline e, mid) (image_mset lease_of (mset (AList.delete mid (b_in_flight b))))"
    using f m by (simp add: flight_inv_def lease_of_def)
  then show "(f_deadline e, mid) \<in> set (b_deadlines b)" by (metis set_mset_mset union_single_eq_member)
  have rest: "mset (remove1 (f_deadline e, mid) (b_deadlines b)) = image_mset lease_of (mset (AList.delete mid (b_in_flight b)))"
    using ds by simp
  show "flight_inv (b\<lparr>b_deadlines := remove1 (f_deadline e, mid) (b_deadlines b), b_in_flight := AList.delete mid (b_in_flight b)\<rparr>)"
    using f rest
    by (auto simp: flight_inv_def AList.delete_conv' AList.distinct_delete sorted_map_remove1 AList.delete_eq distinct_map_filter split: if_splits)
  show "flight_ids b = add_mset mid (flight_ids (b\<lparr>b_deadlines := ds, b_in_flight := AList.delete mid (b_in_flight b)\<rparr>))"
    using m by (simp add: flight_ids_def)
qed

text \<open>The history after a settlement: the new attempt at the end, at most one old one pruned.\<close>

lemma record_and_prune:
  assumes h: "hist_ok (b_next_completion b) (b_completions b) (b_completed b)"
    and len: "length (b_completions b) \<le> hc_completion_cache_max_entries (b_config b)"
    and c: "c_token c \<notin> c_token ` snd ` set (b_completions b)"
  obtains k ix where "k \<le> 1"
    and "prune_completions_locked 1 now ((record_completion c b)\<lparr>b_deadlines := ds, b_in_flight := fl\<rparr>) =
      b\<lparr>b_deadlines := ds, b_in_flight := fl, b_completions := drop k (b_completions b @ [(b_next_completion b, c)]),
        b_completed := ix, b_next_completion := Suc (b_next_completion b)\<rparr>"
    and "hist_ok (Suc (b_next_completion b)) (drop k (b_completions b @ [(b_next_completion b, c)])) ix"
    and "length (drop k (b_completions b @ [(b_next_completion b, c)])) \<le> hc_completion_cache_max_entries (b_config b)"
    and "now - c_time c < ms_to_ns (hc_completion_retention (b_config b)) \<longrightarrow> 1 \<le> hc_completion_cache_max_entries (b_config b) \<longrightarrow>
      (b_next_completion b, c) \<in> set (drop k (b_completions b @ [(b_next_completion b, c)]))"
proof -
  let ?cs = "b_completions b @ [(b_next_completion b, c)]"
  let ?b = "(record_completion c b)\<lparr>b_deadlines := ds, b_in_flight := fl\<rparr>"
  have "hist_ok (Suc (b_next_completion b)) (b_completions ?b) (b_completed ?b)"
    using hist_ok_record [OF h c] by (simp add: record_completion_def)
  from prune_completions_ok [OF this, of 1 now]
  obtain k ix where k: "k \<le> 1" "k \<le> length (b_completions ?b)"
      "prune_completions_locked 1 now ?b = ?b\<lparr>b_completed := ix, b_completions := drop k (b_completions ?b)\<rparr>"
      "hist_ok (Suc (b_next_completion b)) (drop k (b_completions ?b)) ix"
      "0 < (1::nat) \<longrightarrow> hc_completion_cache_max_entries (b_config ?b) < length (b_completions ?b) \<longrightarrow> 0 < k" .
  have "b_completions ?b = ?cs" "b_config ?b = b_config b" by (simp_all add: record_completion_def)
  moreover have "length (drop k ?cs) \<le> hc_completion_cache_max_entries (b_config b)"
    using len k(1,5) calculation by (cases "length (b_completions b) = hc_completion_cache_max_entries (b_config b)") auto
  moreover have "(b_next_completion b, c) \<in> set (drop k ?cs)"
    if "now - c_time c < ms_to_ns (hc_completion_retention (b_config b))" "1 \<le> hc_completion_cache_max_entries (b_config b)"
  proof (cases "b_completions b")
    case Nil
    then have "prune_completions_locked 1 now ?b = ?b"
      using that prune_completions_locked.simps(2) [of 0 now ?b] by (simp add: record_completion_def)
    then have "b_completions ?b = b_completions (?b\<lparr>b_completed := ix, b_completions := drop k (b_completions ?b)\<rparr>)" using k(3) by metis
    then have "drop k ?cs = ?cs" by (simp add: record_completion_def del: drop_append)
    then show ?thesis by (metis in_set_conv_decomp)
  next
    case (Cons x xs)
    then show ?thesis using k(1) by (cases k) auto
  qed
  ultimately show thesis using k by (intro that [of k ix]) (simp_all add: record_completion_def)
qed

text \<open>The record of the attempt that ends.\<close>

definition completion_of :: "time \<Rightarrow> string \<Rightarrow> InFlightEntry \<Rightarrow> Settlement \<Rightarrow> Completion" where
  "completion_of t mid e kind =
     \<lparr>c_message_id = mid, c_token = f_attempt_token e, c_owner = f_consumer_id e, c_kind = kind, c_time = t\<rparr>"

lemma record_completion_frame [simp]:
  "b_deadlines (record_completion c b) = b_deadlines b" "b_in_flight (record_completion c b) = b_in_flight b"
  "b_config (record_completion c b) = b_config b" "b_completions (record_completion c b) = b_completions b @ [(b_next_completion b, c)]"
  by (simp_all add: record_completion_def)

lemma drop_tokens: "c_token ` snd ` set (drop k (cs @ [(n, c)])) \<subseteq> insert (c_token c) (c_token ` snd ` set cs)"
  using image_mono [OF image_mono [OF set_drop_subset [of k "cs @ [(n, c)]"], of snd], of c_token] by (simp del: drop_append)

lemma finish_locked_eq:
  assumes "map_of (b_in_flight b) mid = Some e"
    and "b1 = learn_level_cost kind (is_expired (clk 0) (f_message e)) meas (f_message e) b"
    and "capture_event wall (clk 1) (f_message e) (if kind = SExpired then LeaseExpiry else FeedbackTrigger.Settlement) b1 = (event, b2)"
    and "dispose (clk 2) kind reason (is_expired (clk 0) (f_message e)) (f_message e) (map_option (settlement_event kind meas e) event) b2 =
      Some (event2, b3)"
    and "(f_deadline e, mid) \<in> set (b_deadlines b3)"
  shows "finish_locked clk wall mid kind reason meas b =
    Some (event2, settlement_update kind (is_expired (clk 0) (f_message e)) meas (f_message e) b1,
      prune_completions_locked 1 (clk 4) ((record_completion (completion_of (clk 3) mid e kind) b3)
        \<lparr>b_deadlines := remove1 (f_deadline e, mid) (b_deadlines b3), b_in_flight := AList.delete mid (b_in_flight b3)\<rparr>))"
  using assms by (simp add: finish_locked_def Let_def completion_of_def)

text \<open>The end of a settlement: the attempt is recorded, its lease and its entry are erased.\<close>

lemma close_delivery:
  assumes inv: "broker_inv hash b" and e: "map_of (b_in_flight b) mid = Some e"
  obtains k ix where "k \<le> 1"
    and "prune_completions_locked 1 now ((record_completion (completion_of t mid e kind) b)
        \<lparr>b_deadlines := remove1 (f_deadline e, mid) (b_deadlines b), b_in_flight := AList.delete mid (b_in_flight b)\<rparr>) =
      b\<lparr>b_deadlines := remove1 (f_deadline e, mid) (b_deadlines b), b_in_flight := AList.delete mid (b_in_flight b),
        b_completions := drop k (b_completions b @ [(b_next_completion b, completion_of t mid e kind)]),
        b_completed := ix, b_next_completion := Suc (b_next_completion b)\<rparr>"
    and "broker_inv hash (b\<lparr>b_deadlines := remove1 (f_deadline e, mid) (b_deadlines b), b_in_flight := AList.delete mid (b_in_flight b),
        b_completions := drop k (b_completions b @ [(b_next_completion b, completion_of t mid e kind)]),
        b_completed := ix, b_next_completion := Suc (b_next_completion b)\<rparr>)"
    and "now - t < ms_to_ns (hc_completion_retention (b_config b)) \<longrightarrow>
      (b_next_completion b, completion_of t mid e kind) \<in> set (drop k (b_completions b @ [(b_next_completion b, completion_of t mid e kind)]))"
proof -
  let ?c = "completion_of t mid e kind" and ?ds = "remove1 (f_deadline e, mid) (b_deadlines b)" and ?fl = "AList.delete mid (b_in_flight b)"
  have parts: "side_inv hash b" "queue_inv b" "dlq_inv b" "flight_inv b" "history_inv b" using inv by (simp_all add: broker_inv_def)
  then have h: "hist_ok (b_next_completion b) (b_completions b) (b_completed b)"
      "length (b_completions b) \<le> hc_completion_cache_max_entries (b_config b)" "c_token ?c \<notin> c_token ` snd ` set (b_completions b)"
    using e by (auto simp: history_inv_def completion_of_def)
  obtain k ix where k: "k \<le> 1"
    and prune: "prune_completions_locked 1 now ((record_completion ?c b)\<lparr>b_deadlines := ?ds, b_in_flight := ?fl\<rparr>) =
      b\<lparr>b_deadlines := ?ds, b_in_flight := ?fl, b_completions := drop k (b_completions b @ [(b_next_completion b, ?c)]),
        b_completed := ix, b_next_completion := Suc (b_next_completion b)\<rparr>" (is "_ = ?b'")
    and h': "hist_ok (Suc (b_next_completion b)) (drop k (b_completions b @ [(b_next_completion b, ?c)])) ix"
      "length (drop k (b_completions b @ [(b_next_completion b, ?c)])) \<le> hc_completion_cache_max_entries (b_config b)"
    and kept: "now - c_time ?c < ms_to_ns (hc_completion_retention (b_config b)) \<longrightarrow> 1 \<le> hc_completion_cache_max_entries (b_config b) \<longrightarrow>
      (b_next_completion b, ?c) \<in> set (drop k (b_completions b @ [(b_next_completion b, ?c)]))"
    by (rule record_and_prune [OF h])
  let ?cs = "drop k (b_completions b @ [(b_next_completion b, ?c)])"
  have tokens: "c_token ` snd ` set ?cs \<subseteq> insert (f_attempt_token e) (c_token ` snd ` set (b_completions b))"
    using drop_tokens [of k "b_completions b" "b_next_completion b" ?c] by (simp add: completion_of_def del: drop_append)
  have "f_attempt_token e' \<notin> c_token ` snd ` set ?cs" if e': "map_of ?fl mid' = Some e'" for mid' e'
  proof -
    have "mid' \<noteq> mid" "map_of (b_in_flight b) mid' = Some e'" using e' by (auto simp: AList.delete_conv' split: if_splits)
    then have "f_attempt_token e' \<noteq> f_attempt_token e" "f_attempt_token e' \<notin> c_token ` snd ` set (b_completions b)"
      using flight_tokens [OF parts(4) e, of mid' e'] parts(5) by (auto simp: history_inv_def)
    then show ?thesis using tokens by blast
  qed
  then have "history_inv ?b'" using h' by (simp add: history_inv_def del: drop_append)
  moreover have "queue_inv ?b'" "dlq_inv ?b'" "side_inv hash ?b'"
    using parts(1-3) by (simp_all add: queue_inv_def dlq_inv_def side_inv_def del: drop_append)
  moreover have "flight_inv ?b'" using flight_inv_delete(2) [OF parts(4) e] by (simp add: flight_inv_def del: drop_append)
  ultimately have inv': "broker_inv hash ?b'" by (simp add: broker_inv_def)
  have "1 \<le> hc_completion_cache_max_entries (b_config b)" using parts(1) by (simp add: side_inv_def config_valid_def)
  with kept show thesis by (intro that [OF k prune inv']) (simp add: completion_of_def del: drop_append)
qed

lemma finish_locked_ok:
  assumes inv: "broker_inv hash b" and e: "map_of (b_in_flight b) mid = Some e"
  obtains event update b' k where "finish_locked clk wall mid kind reason meas b = Some (event, update, b')"
    and "settled hash mid (kind = SAck \<and> \<not> is_expired (clk 0) (f_message e)) b b'"
    and "update \<noteq> None \<longrightarrow> b_predictor b \<noteq> None" and "k \<le> 1"
    and "b_completions b' = drop k (b_completions b @ [(b_next_completion b, completion_of (clk 3) mid e kind)])"
    and "disposed (clk 2) kind reason (is_expired (clk 0) (f_message e)) (f_message e) b b'"
    and "clk 4 - clk 3 < ms_to_ns (hc_completion_retention (b_config b)) \<longrightarrow>
      (b_next_completion b, completion_of (clk 3) mid e kind) \<in> set (b_completions b')"
proof -
  let ?m = "f_message e" and ?ttl = "is_expired (clk 0) (f_message e)" and ?c = "completion_of (clk 3) mid e kind"
  define b1 where "b1 = learn_level_cost kind ?ttl meas ?m b"
  obtain event b2 where cap: "capture_event wall (clk 1) ?m (if kind = SExpired then LeaseExpiry else FeedbackTrigger.Settlement) b1 = (event, b2)"
    by force
  have q12: "quiet b b2" and p2: "b_predictor b2 = b_predictor b"
    using learn_level_cost_ok capture_event_ok [OF cap] quiet_trans unfolding b1_def by metis+
  have side2: "side_inv hash b2" using inv side_inv_quiet [OF _ q12 p2] by (simp add: broker_inv_def)
  have inv2: "broker_inv hash b2" and ids2: "held_ids b2 = held_ids b" using broker_inv_quiet [OF q12 side2 inv] by auto
  note fr = quiet_frame [OF q12]
  have e2: "map_of (b_in_flight b2) mid = Some e" using e fr by simp
  have m: "delivered (b_config b2) ?m" "m_id ?m = mid" using inv2 e2 by (auto simp: broker_inv_def flight_inv_def)
  have parts: "queue_inv b2" "dlq_inv b2" using inv2 by (simp_all add: broker_inv_def)
  obtain event2 q d where disp: "dispose (clk 2) kind reason ?ttl ?m (map_option (settlement_event kind meas e) event) b2 = Some (event2, b2\<lparr>b_queue := q, b_dlq := d\<rparr>)"
    and disp': "disposed (clk 2) kind reason ?ttl ?m b2 (b2\<lparr>b_queue := q, b_dlq := d\<rparr>)"
    and d: "queue_inv (b2\<lparr>b_queue := q, b_dlq := d\<rparr>)" "dlq_inv (b2\<lparr>b_queue := q, b_dlq := d\<rparr>)"
      "queued_ids (b2\<lparr>b_queue := q, b_dlq := d\<rparr>) + dlq_ids (b2\<lparr>b_queue := q, b_dlq := d\<rparr>) =
        (if kind = SAck \<and> \<not> ?ttl then {#} else {#m_id ?m#}) + (queued_ids b2 + dlq_ids b2)"
    by (rule dispose_ok [OF parts m(1)])
  define b3 where "b3 = b2\<lparr>b_queue := q, b_dlq := d\<rparr>"
  have inv3: "broker_inv hash b3" and e3: "map_of (b_in_flight b3) mid = Some e"
    using inv2 d(1,2) e2 by (simp_all add: b3_def broker_inv_def side_inv_def flight_inv_def history_inv_def)
  have f3: "flight_inv b3" using inv3 by (simp add: broker_inv_def)
  let ?after = "\<lambda>k ix. b3\<lparr>b_deadlines := remove1 (f_deadline e, mid) (b_deadlines b3), b_in_flight := AList.delete mid (b_in_flight b3),
        b_completions := drop k (b_completions b3 @ [(b_next_completion b3, ?c)]),
        b_completed := ix, b_next_completion := Suc (b_next_completion b3)\<rparr>"
  obtain k ix where k: "k \<le> 1"
    and close: "prune_completions_locked 1 (clk 4) ((record_completion ?c b3)
        \<lparr>b_deadlines := remove1 (f_deadline e, mid) (b_deadlines b3), b_in_flight := AList.delete mid (b_in_flight b3)\<rparr>) = ?after k ix"
    and inv': "broker_inv hash (?after k ix)"
    and kept: "clk 4 - clk 3 < ms_to_ns (hc_completion_retention (b_config b3)) \<longrightarrow>
      (b_next_completion b3, ?c) \<in> set (drop k (b_completions b3 @ [(b_next_completion b3, ?c)]))"
    by (rule close_delivery [OF inv3 e3])
  let ?b' = "?after k ix"
  have "held_ids b2 = held_ids ?b' + (if kind = SAck \<and> \<not> ?ttl then {#mid#} else {#})"
    using d(3) m(2) flight_inv_delete(3) [OF f3 e3, of "b_deadlines ?b'"]
    by (auto simp: b3_def held_ids_def queued_ids_def dlq_ids_def flight_ids_def simp del: drop_append)
  moreover have cs: "b_completions ?b' = drop k (b_completions b @ [(b_next_completion b, ?c)])" using fr by (simp add: b3_def)
  ultimately have st: "settled hash mid (kind = SAck \<and> \<not> ?ttl) b ?b'"
    unfolding settled_def using inv' fr p2 ids2 e drop_tokens [of k "b_completions b" "b_next_completion b" ?c]
    by (simp add: b3_def completion_of_def del: drop_append)
  have kept': "clk 4 - clk 3 < ms_to_ns (hc_completion_retention (b_config b)) \<longrightarrow> (b_next_completion b, ?c) \<in> set (b_completions ?b')"
    using kept fr by (simp add: b3_def del: drop_append)
  have disp'': "disposed (clk 2) kind reason ?ttl ?m b ?b'" using disp' by (rule disposed_cong) (use fr in \<open>simp_all add: b3_def\<close>)
  show thesis
  proof (rule that [OF _ st _ k cs disp'' kept'])
    show "finish_locked clk wall mid kind reason meas b = Some (event2, settlement_update kind ?ttl meas ?m b1, ?b')"
      using finish_locked_eq [OF e b1_def cap disp [folded b3_def] flight_inv_delete(1) [OF f3 e3]] close by simp
    show "settlement_update kind ?ttl meas ?m b1 \<noteq> None \<longrightarrow> b_predictor b \<noteq> None"
      using learn_level_cost_ok(2) unfolding b1_def by (auto simp: settlement_update_def split: option.splits)
  qed
qed

end
