(* ===== verification/Broker_Handlers.thy ===== *)
theory Broker_Handlers
  imports Broker_Settlement
begin

text \<open>
  The handlers and the maintenance tasks, section by section: each returns, keeps the invariant of
  the broker, and accounts for the message it moves. Attempt tokens are fresh because they end in a number of the
  process-wide counter.
\<close>

section \<open>Tokens\<close>

definition token_set :: "Broker \<Rightarrow> string set" where
  "token_set b = f_attempt_token ` snd ` set (b_in_flight b) \<union> c_token ` snd ` set (b_completions b)"

text \<open>A string ends in a number the counter has passed.\<close>

definition issued :: "Broker \<Rightarrow> string \<Rightarrow> bool" where
  "issued b s \<longleftrightarrow> (\<exists>n < unat (px_counter (b_proxy b)). id_number s = nat_to_string n)"

lemma issued_mono: "issued b s \<Longrightarrow> unat (px_counter (b_proxy b)) \<le> unat (px_counter (b_proxy b')) \<Longrightarrow> issued b' s"
  unfolding issued_def by (meson order.strict_trans2)

lemma counter_step: "unat c < 2 ^ 64 - 1 \<Longrightarrow> unat (c + 1 :: 64 word) = Suc (unat c)"
  by (simp add: unat_add_lem [THEN iffD1] unat_plus_if')

lemma new_token_fresh: "\<not> issued b (fst (new_token ts b))"
proof -
  have "id_number (b_instance_token b @ ''-'' @ fst (generate_id ts (b_proxy b))) = nat_to_string (unat (px_counter (b_proxy b)))"
    using id_number_generate [of "b_instance_token b @ ''-''" ts "b_proxy b"] by simp
  then show ?thesis by (simp add: new_token_def issued_def case_prod_unfold Let_def)
qed

section \<open>Sections that keep the deliveries\<close>

text \<open>Everything but the queue, the dead-letter queue and the statistics stays.\<close>

definition calm :: "Broker \<Rightarrow> Broker \<Rightarrow> bool" where
  "calm b b' \<longleftrightarrow> quiet (b\<lparr>b_queue := b_queue b', b_dlq := b_dlq b'\<rparr>) b'"

lemma calm_frame:
  assumes "calm b b'"
  shows "b_config b' = b_config b" "b_feature_extractor b' = b_feature_extractor b" "b_proxy b' = b_proxy b"
    "b_in_flight b' = b_in_flight b" "b_deadlines b' = b_deadlines b" "b_instance_token b' = b_instance_token b"
    "b_completions b' = b_completions b" "b_completed b' = b_completed b" "b_next_completion b' = b_next_completion b"
    "b_registered_producers b' = b_registered_producers b" "b_registered_consumers b' = b_registered_consumers b"
    "token_set b' = token_set b"
  using quiet_frame [OF assms [unfolded calm_def]] by (simp_all add: token_set_def)

lemma calm_refl [simp]: "calm b b"
  by (simp add: calm_def)

lemma quiet_calm: "quiet b b' \<Longrightarrow> calm b b'"
  unfolding calm_def using quiet_frame(3,4) [of b b'] by simp

lemma calm_trans [trans]:
  assumes "calm b b1" and "calm b1 b2"
  shows "calm b b2"
proof -
  have "quiet (b\<lparr>b_queue := b_queue b2, b_dlq := b_dlq b2\<rparr>) (b1\<lparr>b_queue := b_queue b2, b_dlq := b_dlq b2\<rparr>)"
    using assms(1) unfolding calm_def quiet_def noise_def by (cases b; cases b1) simp
  with assms(2) show ?thesis unfolding calm_def using quiet_trans by blast
qed

lemma broker_inv_calm:
  assumes "broker_inv hash b" and "calm b b'" and "side_inv hash b'" and "queue_inv b'" and "dlq_inv b'"
  shows "broker_inv hash b'" and "flight_ids b' = flight_ids b"
  using assms calm_frame [OF assms(2)] by (simp_all add: broker_inv_def flight_inv_def history_inv_def flight_ids_def)

lemma dlq_expired_ok:
  assumes inv: "broker_inv hash b" and m: "waiting (b_config b) m"
  shows "broker_inv hash (dlq_expired clk wall trigger details m b)" and "calm b (dlq_expired clk wall trigger details m b)"
    and "held_ids (dlq_expired clk wall trigger details m b) = add_mset (m_id m) (held_ids b)"
    and "b_queue (dlq_expired clk wall trigger details m b) = b_queue b"
proof -
  obtain event b1 where cap: "capture_event wall (clk 0) m trigger b = (event, b1)" by force
  note c = capture_event_ok [OF cap]
  define b2 where "b2 = b1\<lparr>b_dlq := dlq_push (clk 1) m TTL_EXPIRED details (b_dlq b1)\<rparr>"
  let ?b' = "publish_event (expired_event event) b2"
  have eq: "dlq_expired clk wall trigger details m b = ?b'" by (simp add: dlq_expired_def cap b2_def)
  have side1: "side_inv hash b1" using inv side_inv_quiet [OF _ c] by (simp add: broker_inv_def)
  have inv1: "broker_inv hash b1" "held_ids b1 = held_ids b" using broker_inv_quiet [OF c(1) side1 inv] by auto
  have "b_config b1 = b_config b" using quiet_frame(1) [OF c(1)] .
  then have "dlq_inv b2" using inv1(1) m
    by (auto simp: b2_def dlq_push_def dlq_inv_def broker_inv_def waiting_def fits_def)
  then have inv2: "broker_inv hash b2" and held2: "held_ids b2 = add_mset (m_id m) (held_ids b1)"
    using inv1(1) by (auto simp: b2_def broker_inv_def side_inv_def queue_inv_def flight_inv_def history_inv_def
        held_ids_def queued_ids_def dlq_ids_def flight_ids_def dlq_push_def)
  note p = publish_event_ok [where b = b2 and event = "expired_event event"]
  have "side_inv hash ?b'" using inv2 side_inv_quiet [OF _ p] by (simp add: broker_inv_def)
  then show "broker_inv hash (dlq_expired clk wall trigger details m b)"
    and "held_ids (dlq_expired clk wall trigger details m b) = add_mset (m_id m) (held_ids b)"
    unfolding eq using broker_inv_quiet [OF p(1) _ inv2] held2 inv1(2) by simp_all
  have "calm b1 b2" unfolding calm_def b2_def by simp
  then show "calm b (dlq_expired clk wall trigger details m b)"
    unfolding eq using quiet_calm [OF c(1)] quiet_calm [OF p(1)] calm_trans by blast
  show "b_queue (dlq_expired clk wall trigger details m b) = b_queue b"
    unfolding eq using quiet_frame(3) [OF p(1)] quiet_frame(3) [OF c(1)] by (simp add: b2_def)
qed

lemma dlq_swept_ok:
  assumes "broker_inv hash b" and "\<forall>m \<in> set ms. waiting (b_config b) m"
  shows "broker_inv hash (dlq_swept clk wall details ms b) \<and> calm b (dlq_swept clk wall details ms b) \<and>
    held_ids (dlq_swept clk wall details ms b) = mset (map m_id ms) + held_ids b"
  using assms
proof (induction ms arbitrary: clk wall b)
  case (Cons m ms)
  let ?b = "dlq_expired clk (wall 0) TtlSweep details m b"
  have m: "waiting (b_config b) m" using Cons.prems by simp
  note x = dlq_expired_ok [OF Cons.prems(1) m, of clk "wall 0" TtlSweep details]
  have "\<forall>m \<in> set ms. waiting (b_config ?b) m" using Cons.prems calm_frame(1) [OF x(2)] by simp
  from Cons.IH [OF x(1) this, of "\<lambda>i. clk (i + 2)" "\<lambda>i. wall (i + 1)"] show ?case
    using x(2,3) calm_trans by auto
qed simp

lemma sweep_queue_ok:
  assumes inv: "broker_inv hash b"
  obtains b' where "sweep_queue clk wall details b = Some b'" and "broker_inv hash b'" and "calm b b'" and "held_ids b' = held_ids b"
proof -
  have q: "mlq_inv (b_queue b)" "\<forall>m \<in># stored (b_queue b). waiting (b_config b) m" "mq_num_levels (b_queue b) = hc_num_levels (b_config b)"
    using inv by (simp_all add: broker_inv_def queue_inv_def)
  obtain ms q' where s: "sweep_expired_batch (hc_maintenance_batch_size (b_config b)) (clk 0) (b_queue b) = Some (ms, q')" "mlq_inv q'"
      "mq_num_levels q' = mq_num_levels (b_queue b)" "\<forall>m \<in># stored q'. waiting (b_config b) m"
      "\<forall>m \<in> set ms. waiting (b_config b) m \<and> is_expired (clk 0) m" "length ms \<le> hc_maintenance_batch_size (b_config b)"
      "image_mset m_id (stored (b_queue b)) = mset (map m_id ms) + image_mset m_id (stored q')"
    by (rule store.sweep_holds [OF q(1,2)])
  let ?b = "b\<lparr>b_queue := q'\<rparr>"
  have inv1: "broker_inv hash ?b" and calm1: "calm b ?b"
    using inv s q(3) by (simp_all add: broker_inv_def side_inv_def queue_inv_def flight_inv_def history_inv_def dlq_inv_def calm_def)
  have held: "held_ids b = mset (map m_id ms) + held_ids ?b"
    using s(7) by (simp add: held_ids_def queued_ids_def dlq_ids_def flight_ids_def)
  have w: "\<forall>m \<in> set ms. waiting (b_config ?b) m" using s(5) by simp
  note x = dlq_swept_ok [OF inv1 w, of "\<lambda>i. clk (i + 1)" wall details]
  show thesis
    by (rule that [of "dlq_swept (\<lambda>i. clk (i + 1)) wall details ms ?b"])
      (use s(1) x held calm_trans [OF calm1] in \<open>simp_all add: sweep_queue_def\<close>)
qed

lemma restore_message_ok:
  assumes inv: "broker_inv hash b" and m: "waiting (b_config b) m"
  obtains b' where "restore_message m b = Some b'" and "broker_inv hash b'" and "calm b b'"
    and "held_ids b' = add_mset (m_id m) (held_ids b)"
proof -
  obtain q where q: "place_message (broker_cost b) 0 m True (b_queue b) = Inr q" "queue_inv (b\<lparr>b_queue := q\<rparr>)"
      "queued_ids (b\<lparr>b_queue := q\<rparr>) = add_mset (m_id m) (queued_ids b)"
    by (rule put_ok [OF _ m]) (use inv in \<open>simp add: broker_inv_def\<close>)
  show thesis
    by (rule that [of "b\<lparr>b_queue := q\<rparr>"])
      (use q inv in \<open>simp_all add: restore_message_def requeue_front_def broker_inv_def side_inv_def flight_inv_def history_inv_def dlq_inv_def
        calm_def held_ids_def dlq_ids_def flight_ids_def\<close>)
qed

section \<open>Delivery\<close>

definition flight_entry :: "(nat \<Rightarrow> time) \<Rightarrow> string \<Rightarrow> string \<Rightarrow> Message \<Rightarrow> Broker \<Rightarrow> InFlightEntry" where
  "flight_entry clk owner token m b =
     \<lparr>f_message = m\<lparr>m_delivery_count := Suc (m_delivery_count m)\<rparr>, f_consumer_id = owner, f_pull_time = clk 1, f_attempt_token = token,
      f_deadline = clk 0 + ms_to_ns (hc_delivery_lease (b_config b)), f_attempt_id = Suc (m_delivery_count m)\<rparr>"

definition with_flight :: "(nat \<Rightarrow> time) \<Rightarrow> string \<Rightarrow> string \<Rightarrow> Message \<Rightarrow> Broker \<Rightarrow> Broker" where
  "with_flight clk owner token m b =
     b\<lparr>b_deadlines := index_insert (clk 0 + ms_to_ns (hc_delivery_lease (b_config b))) (m_id m) (b_deadlines b),
       b_in_flight := AList.update (m_id m) (flight_entry clk owner token m b) (b_in_flight b)\<rparr>"

lemma mset_update_fresh:
  assumes "map_of xs k = None"
  shows "mset (AList.update k v xs) = add_mset (k, v) (mset xs)" and "set (AList.update k v xs) = insert (k, v) (set xs)"
proof -
  have "AList.update k v xs = xs @ [(k, v)]" using assms by (induction xs) (auto split: if_splits)
  then show "mset (AList.update k v xs) = add_mset (k, v) (mset xs)" "set (AList.update k v xs) = insert (k, v) (set xs)" by simp_all
qed

lemma distinct_mset_map: "mset xs = mset ys \<Longrightarrow> distinct (map f xs) = distinct (map f ys)"
  by (metis mset_eq_imp_distinct_iff mset_map)

lemma with_flight_frame [simp]:
  "b_proxy (with_flight clk owner token m b) = b_proxy b" "b_config (with_flight clk owner token m b) = b_config b"
  "b_registered_consumers (with_flight clk owner token m b) = b_registered_consumers b"
  "b_registered_producers (with_flight clk owner token m b) = b_registered_producers b"
  by (simp_all add: with_flight_def)

lemma with_flight_ok:
  assumes inv: "broker_inv hash b" and m: "waiting (b_config b) m" and out: "map_of (b_in_flight b) (m_id m) = None"
    and fresh: "token \<notin> token_set b"
  shows "broker_inv hash (with_flight clk owner token m b)"
    and "held_ids (with_flight clk owner token m b) = add_mset (m_id m) (held_ids b)"
    and "token_set (with_flight clk owner token m b) = insert token (token_set b)"
proof -
  let ?b = "with_flight clk owner token m b" and ?e = "flight_entry clk owner token m b"
  note upd = mset_update_fresh [OF out, of ?e]
  have fl: "b_in_flight ?b = AList.update (m_id m) ?e (b_in_flight b)" by (simp add: with_flight_def)
  have parts: "flight_inv b" "history_inv b" using inv by (simp_all add: broker_inv_def)
  have mem: "f_attempt_token e \<in> token_set b" if "map_of (b_in_flight b) mid = Some e" for mid e
    using map_of_SomeD [OF that] unfolding token_set_def by force
  have "mset (AList.update (m_id m) ?e (b_in_flight b)) = mset ((m_id m, ?e) # b_in_flight b)" using upd by simp
  note d = distinct_mset_map [OF this]
  have "distinct (map fst (b_in_flight ?b))" "distinct (map (f_attempt_token \<circ> snd) (b_in_flight ?b))"
    unfolding fl d using parts(1) out fresh
    by (auto simp: flight_inv_def map_of_eq_None_iff flight_entry_def token_set_def image_image)
  moreover have "mset (b_deadlines ?b) = image_mset lease_of (mset (b_in_flight ?b))" "sorted (map fst (b_deadlines ?b))"
    using parts(1) upd(1)
    by (simp_all add: with_flight_def flight_inv_def index_insert_mset index_insert_sorted lease_of_def flight_entry_def)
  moreover have "m_id (f_message ?e) = m_id m" "delivered (b_config b) (f_message ?e)" "f_attempt_id ?e = m_delivery_count (f_message ?e)"
    using m by (simp_all add: flight_entry_def waiting_def delivered_def fits_def)
  ultimately have "flight_inv ?b"
    using parts(1) unfolding flight_inv_def fl by (auto simp: AList.update_conv' with_flight_def split: if_splits)
  moreover have "history_inv ?b"
    using parts(2) fresh unfolding history_inv_def fl
    by (auto simp: AList.update_conv' with_flight_def flight_entry_def token_set_def split: if_splits)
  ultimately show "broker_inv hash ?b"
    using inv by (simp add: broker_inv_def with_flight_def side_inv_def queue_inv_def dlq_inv_def)
  show "held_ids ?b = add_mset (m_id m) (held_ids b)"
    using upd(1) by (simp add: held_ids_def with_flight_def queued_ids_def dlq_ids_def flight_ids_def)
  show "token_set ?b = insert token (token_set b)"
    unfolding token_set_def fl upd(2) by (simp add: with_flight_def flight_entry_def)
qed

lemma install_delivery_cases:
  assumes m: "m_delivery_count m < 2 ^ 64 - 1"
  obtains (restored) st where "fst st \<noteq> OK" "install_delivery clk cancelled owner token m b = map_option (Pair st) (restore_message m b)"
      "cancelled \<or> map_of (b_in_flight b) (m_id m) \<noteq> None"
  | (installed) "\<not> cancelled" "map_of (b_in_flight b) (m_id m) = None"
      "install_delivery clk cancelled owner token m b = Some ((OK, []), with_flight clk owner token m b)"
proof (cases "cancelled \<or> map_of (b_in_flight b) (m_id m) \<noteq> None")
  case True
  then have "install_delivery clk cancelled owner token m b =
      map_option (Pair (if cancelled then (CANCELLED, []) else (INTERNAL, ''Delivery installation failed''))) (restore_message m b)"
    using m by (auto simp: install_delivery_def)
  with True show thesis by (intro restored) (auto split: if_splits)
next
  case False
  then have "install_delivery clk cancelled owner token m b = Some ((OK, []), with_flight clk owner token m b)"
    using m by (simp add: install_delivery_def with_flight_def flight_entry_def Let_def)
  with False show thesis by (intro installed) auto
qed

text \<open>
  A message that waits is delivered under a fresh token or put back. The configured number of attempts
  is far below the largest ordinal.
\<close>

definition deliver_result :: "(nat \<Rightarrow> time) \<Rightarrow> string \<Rightarrow> Message \<Rightarrow> Broker \<Rightarrow> Status \<Rightarrow> PulledMessage option \<Rightarrow> Broker \<Rightarrow> bool" where
  "deliver_result clk owner m b st pm b' \<longleftrightarrow>
     (if fst st = OK
      then \<exists>b1 token. new_token (clk 0) b = (token, b1) \<and> b' = with_flight (\<lambda>i. clk (i + 1)) owner token m b1 \<and>
        pm = Some \<lparr>pm_message_id = m_id m, pm_attempt_token = token, pm_lease_duration_ms = hc_delivery_lease (b_config b),
          pm_payload = m_payload m, pm_headers = m_headers m\<rparr>
      else pm = None \<and> b_in_flight b' = b_in_flight b)"

lemma deliver_ok:
  assumes inv: "broker_inv hash b" and m: "waiting (b_config b) m" and max: "hc_default_max_retries (b_config b) < 2 ^ 64"
    and tokens: "\<forall>t \<in> token_set b. issued b t" and count: "unat (px_counter (b_proxy b)) < 2 ^ 64 - 1"
  obtains st pm b' where "deliver clk cancelled owner m b = Some ((st, pm), b')" and "deliver_result clk owner m b st pm b'"
    and "broker_inv hash b'" and "held_ids b' = add_mset (m_id m) (held_ids b)" and "b_config b' = b_config b"
    and "\<forall>t \<in> token_set b'. issued b' t" and "unat (px_counter (b_proxy b')) = Suc (unat (px_counter (b_proxy b)))"
    and "\<not> cancelled \<and> map_of (b_in_flight b) (m_id m) = None \<longrightarrow> fst st = OK"
proof -
  obtain token b1 where t: "new_token (clk 0) b = (token, b1)" by force
  have b1: "b1 = b\<lparr>b_proxy := b_proxy b1\<rparr>" "px_counter (b_proxy b1) = px_counter (b_proxy b) + 1"
    using t by (auto simp: new_token_def generate_id_def Let_def)
  have frame: "b_config b1 = b_config b" "b_in_flight b1 = b_in_flight b" "token_set b1 = token_set b" "held_ids b1 = held_ids b"
    by (subst b1(1), simp add: token_set_def held_ids_def queued_ids_def dlq_ids_def flight_ids_def)+
  have inv1: "broker_inv hash b1"
    using inv by (subst b1(1)) (simp add: broker_inv_def side_inv_def queue_inv_def dlq_inv_def flight_inv_def history_inv_def)
  have step: "unat (px_counter (b_proxy b1)) = Suc (unat (px_counter (b_proxy b)))" using counter_step [OF count] b1(2) by simp
  have fresh: "\<not> issued b token" using new_token_fresh [of b "clk 0"] t by simp
  then have out: "token \<notin> token_set b1" using tokens frame by blast
  have issued1: "issued b1 token"
    using step t id_number_generate [of "b_instance_token b @ ''-''" "clk 0" "b_proxy b"]
    by (auto simp: issued_def new_token_def Let_def case_prod_unfold)
  have old: "\<forall>t \<in> token_set b1. issued b1 t" using tokens issued_mono [of b _ b1] step frame by simp
  have m1: "waiting (b_config b1) m" using m frame by simp
  have "m_delivery_count m < 2 ^ 64 - 1" using m max by (simp add: waiting_def fits_def)
  then show thesis
  proof (cases rule: install_delivery_cases [of m "\<lambda>i. clk (i + 1)" cancelled owner token b1])
    case (restored st)
    obtain b' where b': "restore_message m b1 = Some b'" "broker_inv hash b'" "calm b1 b'" "held_ids b' = add_mset (m_id m) (held_ids b1)"
      by (rule restore_message_ok [OF inv1 m1])
    note c = calm_frame [OF b'(3)]
    have "deliver clk cancelled owner m b = Some ((st, None), b')"
      using restored b'(1) t by (simp add: deliver_def)
    moreover have "\<forall>t \<in> token_set b'. issued b' t" using old c by (simp add: issued_def)
    ultimately show thesis
      using that restored b' c frame step by (simp add: deliver_result_def)
  next
    case installed
    note w = with_flight_ok [OF inv1 m1 installed(2) out, of "\<lambda>i. clk (i + 1)" owner]
    let ?b' = "with_flight (\<lambda>i. clk (i + 1)) owner token m b1"
    have "\<forall>t \<in> token_set ?b'. issued ?b' t" using old issued1 w(3) by (simp add: issued_def)
    moreover have "deliver clk cancelled owner m b = Some (((OK, []), Some \<lparr>pm_message_id = m_id m, pm_attempt_token = token,
        pm_lease_duration_ms = hc_delivery_lease (b_config b), pm_payload = m_payload m, pm_headers = m_headers m\<rparr>), ?b')"
      using installed t frame by (simp add: deliver_def)
    ultimately show thesis
      using that w frame step t by (simp add: deliver_result_def)
  qed
qed

end
