(* ===== verification/Broker_Outcomes.thy ===== *)
theory Broker_Outcomes
  imports Broker_Handlers
begin

text \<open>
  Settlement as the consumer sees it: an Ack or a Nack takes effect only for the attempt that is in flight,
  by its owner, under its token and before its lease ends; the outcome of a settled attempt is replayed
  from the history; everything else is refused without an effect. Maintenance reclaims expired leases.
\<close>

section \<open>Settlement never faults\<close>

definition steady :: "Broker \<Rightarrow> Broker \<Rightarrow> bool" where
  "steady b b' \<longleftrightarrow>
     b_config b' = b_config b \<and> b_proxy b' = b_proxy b \<and> b_registered_producers b' = b_registered_producers b \<and>
     b_registered_consumers b' = b_registered_consumers b \<and> token_set b' \<subseteq> token_set b"

lemma steady_refl [simp]: "steady b b"
  by (simp add: steady_def)

lemma steady_trans [trans]: "steady b b1 \<Longrightarrow> steady b1 b2 \<Longrightarrow> steady b b2"
  by (auto simp: steady_def)

lemma calm_steady: "calm b b' \<Longrightarrow> steady b b'"
  using calm_frame [of b b'] by (simp add: steady_def)

lemma settled_steady:
  assumes "settled hash mid gone b b'" and "map_of (b_in_flight b) mid = Some e"
  shows "steady b b'"
proof -
  have e: "f_attempt_token e \<in> token_set b" using map_of_SomeD [OF assms(2)] by (force simp: token_set_def)
  have "set (b_in_flight b') \<subseteq> set (b_in_flight b)" using assms(1) by (auto simp: settled_def AList.delete_eq)
  then have flight: "f_attempt_token ` snd ` set (b_in_flight b') \<subseteq> token_set b" unfolding token_set_def by blast
  have "c_token ` snd ` set (b_completions b') \<subseteq> insert (f_attempt_token e) (c_token ` snd ` set (b_completions b))"
    using assms by (simp add: settled_def)
  also have "\<dots> \<subseteq> insert (f_attempt_token e) (token_set b)" by (rule insert_mono) (simp add: token_set_def)
  also have "\<dots> = token_set b" using e by (rule insert_absorb)
  finally have "token_set b' \<subseteq> token_set b" using flight by (simp add: token_set_def [of b'])
  then show ?thesis using assms(1) by (simp add: steady_def settled_def)
qed

lemma settle_after_ok:
  assumes inv: "broker_inv hash b" and u: "update \<noteq> None \<Longrightarrow> b_predictor b \<noteq> None"
  obtains b' where "settle_after hash clk (event, update, b) = Some b'" and "quiet b b'" and "broker_inv hash b'" and "held_ids b' = held_ids b"
proof -
  let ?b = "publish_event event b"
  note p = publish_event_ok [where b = b and event = event]
  have side: "side_inv hash ?b" using inv side_inv_quiet [OF _ p] by (simp add: broker_inv_def)
  have "\<exists>b'. settle_after hash clk (event, update, b) = Some b' \<and> quiet ?b b' \<and> side_inv hash b'"
  proof (cases update)
    case None
    then show ?thesis using side by (simp add: settle_after_def)
  next
    case (Some x)
    then have "b_predictor ?b \<noteq> None" using u p(2) by simp
    from learn_ok [OF side this, of clk x] show ?thesis using Some by (auto simp: settle_after_def)
  qed
  then obtain b' where b': "settle_after hash clk (event, update, b) = Some b'" "quiet ?b b'" "side_inv hash b'" by blast
  then have q: "quiet b b'" using p(1) quiet_trans by blast
  show thesis by (rule that [OF b'(1) q broker_inv_quiet [OF q b'(3) inv]])
qed

lemma settle_live_ok:
  assumes inv: "broker_inv hash b"
  obtains (refused) st where "settle_live hash clk wall owner mid token kind reason ms b = Some (st, b)" and "fst st \<noteq> OK"
      and "\<And>e. map_of (b_in_flight b) mid = Some e \<Longrightarrow> f_consumer_id e \<noteq> owner \<or> f_attempt_token e \<noteq> token"
  | (effect) e b' st k where "settle_live hash clk wall owner mid token kind reason ms b = Some (st, b')"
      and "map_of (b_in_flight b) mid = Some e" and "f_consumer_id e = owner" and "f_attempt_token e = token"
      and "st = (if f_deadline e \<le> clk 1 then (FAILED_PRECONDITION, ''Delivery lease expired'') else (OK, []))"
      and "broker_inv hash b'" and "steady b b'" and "k \<le> 1"
      and "b_completions b' = drop k (b_completions b @ [(b_next_completion b,
             completion_of (clk 5) mid e (if f_deadline e \<le> clk 1 then SExpired else kind))])"
      and "b_in_flight b' = AList.delete mid (b_in_flight b)"
      and "held_ids b = held_ids b' + (if f_deadline e \<le> clk 1 \<or> kind \<noteq> SAck \<or> is_expired (clk 2) (f_message e) then {#} else {#mid#})"
      and "disposed (clk 4) (if f_deadline e \<le> clk 1 then SExpired else kind)
             (if f_deadline e \<le> clk 1 then ''Delivery lease expired'' else reason) (is_expired (clk 2) (f_message e)) (f_message e) b b'"
      and "clk 6 - clk 5 < ms_to_ns (hc_completion_retention (b_config b)) \<longrightarrow>
             (b_next_completion b, completion_of (clk 5) mid e (if f_deadline e \<le> clk 1 then SExpired else kind)) \<in> set (b_completions b')"
proof (cases "\<exists>e. map_of (b_in_flight b) mid = Some e \<and> f_consumer_id e = owner \<and> f_attempt_token e = token")
  case False
  have "\<exists>st. settle_live hash clk wall owner mid token kind reason ms b = Some (st, b) \<and> fst st \<noteq> OK"
    using False by (cases "map_of (b_in_flight b) mid") (auto simp: settle_live_def)
  with False refused show thesis by blast
next
  case True
  then obtain e where e: "map_of (b_in_flight b) mid = Some e" "f_consumer_id e = owner" "f_attempt_token e = token" by blast
  let ?late = "f_deadline e \<le> clk 1"
  let ?kind = "if ?late then SExpired else kind" and ?reason = "if ?late then ''Delivery lease expired'' else reason"
    and ?meas = "if ?late then None else Some ms"
  obtain event update b1 k where f: "finish_locked (\<lambda>i. clk (i + 2)) wall mid ?kind ?reason ?meas b = Some (event, update, b1)"
    and st: "settled hash mid (?kind = SAck \<and> \<not> is_expired (clk (0 + 2)) (f_message e)) b b1"
    and u: "update \<noteq> None \<longrightarrow> b_predictor b \<noteq> None" and k: "k \<le> 1"
    and cs: "b_completions b1 = drop k (b_completions b @ [(b_next_completion b, completion_of (clk (3 + 2)) mid e ?kind)])"
    and disp: "disposed (clk (2 + 2)) ?kind ?reason (is_expired (clk (0 + 2)) (f_message e)) (f_message e) b b1"
    and kept: "clk (4 + 2) - clk (3 + 2) < ms_to_ns (hc_completion_retention (b_config b)) \<longrightarrow>
      (b_next_completion b, completion_of (clk (3 + 2)) mid e ?kind) \<in> set (b_completions b1)"
    by (rule finish_locked_ok [OF inv e(1), of "\<lambda>i. clk (i + 2)" wall ?kind ?reason ?meas])
  have inv1: "broker_inv hash b1" and p1: "b_predictor b1 = b_predictor b" and fl: "b_in_flight b1 = AList.delete mid (b_in_flight b)"
    and held: "held_ids b = held_ids b1 + (if ?kind = SAck \<and> \<not> is_expired (clk (0 + 2)) (f_message e) then {#mid#} else {#})"
    using st by (simp_all add: settled_def)
  have u1: "b_predictor b1 \<noteq> None" if "update \<noteq> None" using that u p1 by auto
  obtain b' where b': "settle_after hash (\<lambda>i. clk (i + 7)) (event, update, b1) = Some b'" "quiet b1 b'" "broker_inv hash b'" "held_ids b' = held_ids b1"
    by (rule settle_after_ok [OF inv1 u1])
  have "steady b b'" using settled_steady [OF st e(1)] calm_steady [OF quiet_calm [OF b'(2)]] steady_trans by blast
  moreover have "settle_live hash clk wall owner mid token kind reason ms b =
      Some (if ?late then (FAILED_PRECONDITION, ''Delivery lease expired'') else (OK, []), b')"
    using e f b'(1) by (cases ?late) (simp_all add: settle_live_def Let_def)
  moreover have "disposed (clk (2 + 2)) ?kind ?reason (is_expired (clk (0 + 2)) (f_message e)) (f_message e) b b'"
    using disp by (rule disposed_cong) (use quiet_frame(3,4) [OF b'(2)] in simp_all)
  ultimately show thesis
    using effect e b'(3,4) held k cs fl kept quiet_frame(6,9) [OF b'(2)] by (simp add: numeral_eq_Suc del: drop_append)
qed

section \<open>Settlement with its history\<close>

text \<open>Forgetting an outcome whose retention has passed.\<close>

definition forget :: "nat \<Rightarrow> string \<Rightarrow> Broker \<Rightarrow> Broker" where
  "forget i token b = b\<lparr>b_completions := AList.delete i (b_completions b), b_completed := AList.delete token (b_completed b)\<rparr>"

lemma forget_ok:
  assumes inv: "broker_inv hash b" and c: "(i, c) \<in> set (b_completions b)"
  shows "broker_inv hash (forget i (c_token c) b)" and "held_ids (forget i (c_token c) b) = held_ids b" and "steady b (forget i (c_token c) b)"
proof -
  have h: "history_inv b" using inv by (simp add: broker_inv_def)
  then have "hist_ok (b_next_completion b) (AList.delete i (b_completions b)) (AList.delete (c_token c) (b_completed b))"
    using hist_ok_remove c by (auto simp: history_inv_def)
  moreover have "set (AList.delete i (b_completions b)) \<subseteq> set (b_completions b)" by (auto simp: AList.delete_eq)
  then have sub: "c_token ` snd ` set (AList.delete i (b_completions b)) \<subseteq> c_token ` snd ` set (b_completions b)" by (intro image_mono)
  then have "\<forall>mid e. map_of (b_in_flight b) mid = Some e \<longrightarrow> f_attempt_token e \<notin> c_token ` snd ` set (AList.delete i (b_completions b))"
    using h unfolding history_inv_def by (meson subsetD)
  moreover have "length (AList.delete i (b_completions b)) \<le> length (b_completions b)" by (simp add: AList.delete_eq)
  ultimately have "history_inv (forget i (c_token c) b)"
    using h by (simp add: history_inv_def forget_def)
  then show "broker_inv hash (forget i (c_token c) b)"
    using inv by (simp add: broker_inv_def forget_def side_inv_def queue_inv_def flight_inv_def dlq_inv_def)
  show "held_ids (forget i (c_token c) b) = held_ids b"
    by (simp add: held_ids_def forget_def queued_ids_def dlq_ids_def flight_ids_def)
  show "steady b (forget i (c_token c) b)" using sub by (simp add: steady_def forget_def token_set_def le_supI2)
qed

text \<open>The attempt a call names is in flight, and the caller may settle it.\<close>

definition live_attempt :: "string \<Rightarrow> string \<Rightarrow> string \<Rightarrow> Broker \<Rightarrow> InFlightEntry \<Rightarrow> bool" where
  "live_attempt owner mid token b e \<longleftrightarrow>
     is_registered_consumer owner b \<and> valid_token token \<and>
     map_of (b_in_flight b) mid = Some e \<and> f_consumer_id e = owner \<and> f_attempt_token e = token"

text \<open>The Ack that takes a message out of the broker.\<close>

definition acks :: "(nat \<Rightarrow> time) \<Rightarrow> string \<Rightarrow> string \<Rightarrow> string \<Rightarrow> Settlement \<Rightarrow> Broker \<Rightarrow> bool" where
  "acks clk owner mid token kind b \<longleftrightarrow>
     kind = SAck \<and> (\<exists>e. live_attempt owner mid token b e \<and> clk 1 < f_deadline e \<and> \<not> is_expired (clk 2) (f_message e))"

text \<open>The history holds the outcome of the attempt a call names.\<close>

definition replayable :: "time \<Rightarrow> string \<Rightarrow> string \<Rightarrow> Broker \<Rightarrow> Completion \<Rightarrow> bool" where
  "replayable now mid token b c \<longleftrightarrow>
     (\<exists>i. map_of (b_completed b) token = Some i \<and> map_of (b_completions b) i = Some c) \<and>
     now - c_time c < ms_to_ns (hc_completion_retention (b_config b)) \<and> c_message_id c = mid"

definition replay_status :: "string \<Rightarrow> Settlement \<Rightarrow> Completion \<Rightarrow> Status" where
  "replay_status owner kind c =
     (if c_owner c \<noteq> owner then (PERMISSION_DENIED, ''Different delivery owner'')
      else if c_kind c = kind then (OK, []) else (FAILED_PRECONDITION, ''Attempt already settled or expired''))"

lemma settle_replay:
  assumes "is_registered_consumer owner b" and "valid_token token" and "replayable (clk 0) mid token b c"
  shows "settle hash clk wall owner mid token kind reason ms b = Some (replay_status owner kind c, b)"
  using assms by (auto simp: settle_def replayable_def replay_status_def)

lemma settle_cases:
  assumes inv: "broker_inv hash b"
  obtains (replay) c where "settle hash clk wall owner mid token kind reason ms b = Some (replay_status owner kind c, b)"
      and "replayable (clk 0) mid token b c" and "\<And>e. \<not> live_attempt owner mid token b e"
  | (refused) st b' where "settle hash clk wall owner mid token kind reason ms b = Some (st, b')" and "fst st \<noteq> OK"
      and "b' = b \<or> (\<exists>i c. (i, c) \<in> set (b_completions b) \<and> c_token c = token \<and> b' = forget i token b)"
      and "\<And>e. \<not> live_attempt owner mid token b e"
  | (effect) e b' st k where "settle hash clk wall owner mid token kind reason ms b = Some (st, b')"
      and "live_attempt owner mid token b e"
      and "st = (if f_deadline e \<le> clk 1 then (FAILED_PRECONDITION, ''Delivery lease expired'') else (OK, []))"
      and "broker_inv hash b'" and "steady b b'" and "k \<le> 1"
      and "b_completions b' = drop k (b_completions b @ [(b_next_completion b,
             completion_of (clk 5) mid e (if f_deadline e \<le> clk 1 then SExpired else kind))])"
      and "b_in_flight b' = AList.delete mid (b_in_flight b)"
      and "held_ids b = held_ids b' + (if f_deadline e \<le> clk 1 \<or> kind \<noteq> SAck \<or> is_expired (clk 2) (f_message e) then {#} else {#mid#})"
      and "disposed (clk 4) (if f_deadline e \<le> clk 1 then SExpired else kind)
             (if f_deadline e \<le> clk 1 then ''Delivery lease expired'' else reason) (is_expired (clk 2) (f_message e)) (f_message e) b b'"
      and "clk 6 - clk 5 < ms_to_ns (hc_completion_retention (b_config b)) \<longrightarrow>
             (b_next_completion b, completion_of (clk 5) mid e (if f_deadline e \<le> clk 1 then SExpired else kind)) \<in> set (b_completions b')"
proof (cases "is_registered_consumer owner b \<and> valid_token token")
  case False
  have "\<exists>st. settle hash clk wall owner mid token kind reason ms b = Some (st, b) \<and> fst st \<noteq> OK"
    using False by (auto simp: settle_def)
  with False refused show thesis by (auto simp: live_attempt_def)
next
  case reg: True
  have h: "history_inv b" "flight_inv b" using inv by (simp_all add: broker_inv_def)
  show thesis
  proof (cases "map_of (b_completed b) token")
    case None
    then have eq: "settle hash clk wall owner mid token kind reason ms b = settle_live hash clk wall owner mid token kind reason ms b"
      using reg by (simp add: settle_def)
    show thesis
    proof (rule settle_live_ok [OF inv, of clk wall owner mid token kind reason ms])
      fix st assume "settle_live hash clk wall owner mid token kind reason ms b = Some (st, b)" "fst st \<noteq> OK"
        and "\<And>e. map_of (b_in_flight b) mid = Some e \<Longrightarrow> f_consumer_id e \<noteq> owner \<or> f_attempt_token e \<noteq> token"
      then show thesis using refused eq by (auto simp: live_attempt_def)
    qed (use effect eq reg in \<open>auto simp: live_attempt_def\<close>)
  next
    case (Some i)
    then obtain c where c: "map_of (b_completions b) i = Some c" "(i, c) \<in> set (b_completions b)" "c_token c = token"
      using hist_ok_lookup h(1) by (fastforce simp: history_inv_def)
    have out: "f_attempt_token e \<noteq> token" if "map_of (b_in_flight b) mid' = Some e" for mid' e
      using that h(1) c(2,3) unfolding history_inv_def by (metis image_eqI snd_conv)
    then have no: "\<not> live_attempt owner mid token b e" for e by (auto simp: live_attempt_def)
    have live: "\<exists>st. settle_live hash clk wall owner mid token kind reason ms b' = Some (st, b') \<and> fst st \<noteq> OK"
      if "b_in_flight b' = b_in_flight b" for b'
      using out [of mid] that by (cases "map_of (b_in_flight b) mid") (auto simp: settle_live_def)
    consider "ms_to_ns (hc_completion_retention (b_config b)) \<le> clk 0 - c_time c"
      | "replayable (clk 0) mid token b c" | "\<not> ms_to_ns (hc_completion_retention (b_config b)) \<le> clk 0 - c_time c" "c_message_id c \<noteq> mid"
      using Some c(1) unfolding replayable_def by (metis linorder_not_le)
    then show thesis
    proof cases
      case 1
      then have "settle hash clk wall owner mid token kind reason ms b =
          settle_live hash clk wall owner mid token kind reason ms (forget i token b)"
        using reg Some c(1) by (simp add: settle_def forget_def)
      moreover have "b_in_flight (forget i token b) = b_in_flight b" by (simp add: forget_def)
      ultimately show thesis using live refused no c by metis
    next
      case 2
      then show thesis using replay settle_replay reg no by blast
    next
      case 3
      then have "settle hash clk wall owner mid token kind reason ms b = settle_live hash clk wall owner mid token kind reason ms b"
        using reg Some c(1) by (simp add: settle_def)
      then show thesis using live [of b] refused no by metis
    qed
  qed
qed

lemma settle_ok:
  assumes inv: "broker_inv hash b"
  obtains st b' where "settle hash clk wall owner mid token kind reason ms b = Some (st, b')" and "broker_inv hash b'" and "steady b b'"
    and "held_ids b = held_ids b' + (if acks clk owner mid token kind b then {#mid#} else {#})"
  using inv
proof (cases rule: settle_cases [of hash b clk wall owner mid token kind reason ms])
  case (replay c)
  have "\<not> acks clk owner mid token kind b" using replay(3) by (simp add: acks_def)
  then show thesis using that [OF replay(1) inv] by simp
next
  case (refused st b')
  have "broker_inv hash b'" "held_ids b' = held_ids b" "steady b b'"
    using refused(3) inv forget_ok [OF inv] by auto
  moreover have "\<not> acks clk owner mid token kind b" using refused(4) by (simp add: acks_def)
  ultimately show thesis using that [OF refused(1)] by simp
next
  case (effect e b' st k)
  have "acks clk owner mid token kind b \<longleftrightarrow> \<not> (f_deadline e \<le> clk 1 \<or> kind \<noteq> SAck \<or> is_expired (clk 2) (f_message e))"
    using effect(2) by (auto simp: acks_def live_attempt_def)
  then show thesis using that [OF effect(1,4,5)] effect(9) by simp
qed

end
