(* ===== verification/Broker_Maintenance.thy ===== *)
theory Broker_Maintenance
  imports Broker_Outcomes
begin

text \<open>
  The maintenance tasks. Reclaiming ends expired deliveries, earliest deadline first and within its budget;
  when the budget covers them all, no expired delivery is left. The pull loop always returns once the
  clock has passed its deadline.
\<close>

section \<open>Reclaiming leases\<close>

text \<open>The deliveries whose lease has ended.\<close>

definition overdue_flights :: "time \<Rightarrow> Broker \<Rightarrow> (string \<times> InFlightEntry) list" where
  "overdue_flights now b = filter (\<lambda>x. f_deadline (snd x) \<le> now) (b_in_flight b)"

lemma deadlines_Nil: "flight_inv b \<Longrightarrow> b_deadlines b = [] \<Longrightarrow> b_in_flight b = []"
  by (simp add: flight_inv_def)

lemma first_deadline:
  assumes f: "flight_inv b" and d: "b_deadlines b = (t, mid) # ds"
  obtains e where "map_of (b_in_flight b) mid = Some e" and "f_deadline e = t"
    and "\<forall>x \<in> set (b_in_flight b). t \<le> f_deadline (snd x)"
proof -
  have set: "lease_of ` set (b_in_flight b) = set (b_deadlines b)"
    using f unfolding flight_inv_def by (metis set_image_mset set_mset_mset)
  then have "(t, mid) \<in> lease_of ` set (b_in_flight b)" using d by simp
  then obtain e where e: "(mid, e) \<in> set (b_in_flight b)" "f_deadline e = t" by (auto simp: lease_of_def)
  moreover have "t \<le> f_deadline (snd x)" if "x \<in> set (b_in_flight b)" for x
  proof -
    have "lease_of x \<in> set (b_deadlines b)" using that set by blast
    then show ?thesis using f d by (auto simp: flight_inv_def lease_of_def)
  qed
  moreover have "map_of (b_in_flight b) mid = Some e" using f e(1) by (simp add: flight_inv_def)
  ultimately show thesis using that by blast
qed

lemma first_not_due:
  assumes f: "flight_inv b" and "\<not> (\<exists>t mid ds. b_deadlines b = (t, mid) # ds \<and> t \<le> now)"
  shows "overdue_flights now b = []"
proof (cases "b_deadlines b")
  case Nil
  then show ?thesis using deadlines_Nil [OF f] by (simp add: overdue_flights_def)
next
  case (Cons x ds)
  then obtain t mid where x: "b_deadlines b = (t, mid) # ds" by (cases x) auto
  obtain e where "\<forall>x \<in> set (b_in_flight b). t \<le> f_deadline (snd x)" by (rule first_deadline [OF f x])
  moreover have "now < t" using assms(2) x by (meson linorder_not_le)
  ultimately show ?thesis by (auto simp: overdue_flights_def filter_empty_conv)
qed

text \<open>Ending the delivery with the earliest deadline.\<close>

lemma settle_first:
  assumes f: "flight_inv b" and e: "map_of (b_in_flight b) mid = Some e" "f_deadline e \<le> now"
    and fl: "b_in_flight b1 = AList.delete mid (b_in_flight b)"
  shows "length (overdue_flights now b) = Suc (length (overdue_flights now b1))" and "(mid, e) \<in> set (overdue_flights now b)"
    and "set (b_in_flight b) \<subseteq> insert (mid, e) (set (b_in_flight b1))" and "set (b_in_flight b1) \<subseteq> set (b_in_flight b)"
proof -
  have d: "distinct (map fst (b_in_flight b))" using f by (simp add: flight_inv_def)
  have m: "mset (b_in_flight b) = add_mset (mid, e) (mset (b_in_flight b1))" using mset_delete [OF d e(1)] fl by simp
  have "mset (overdue_flights now b) = filter_mset (\<lambda>x. f_deadline (snd x) \<le> now) (mset (b_in_flight b))"
    by (simp add: overdue_flights_def)
  also have "\<dots> = add_mset (mid, e) (mset (overdue_flights now b1))" using e(2) unfolding m by (simp add: overdue_flights_def)
  finally show "length (overdue_flights now b) = Suc (length (overdue_flights now b1))" by (metis size_add_mset size_mset)
  have "set (b_in_flight b) = insert (mid, e) (set (b_in_flight b1))" using m by (metis set_mset_add_mset_insert set_mset_mset)
  then show "set (b_in_flight b) \<subseteq> insert (mid, e) (set (b_in_flight b1))" "set (b_in_flight b1) \<subseteq> set (b_in_flight b)"
    "(mid, e) \<in> set (overdue_flights now b)" using e(2) by (auto simp: overdue_flights_def)
qed

definition reclaimed :: "(string \<Rightarrow> nat) \<Rightarrow> nat \<Rightarrow> time \<Rightarrow> Broker \<Rightarrow> PredictorUpdate list \<Rightarrow> Broker \<Rightarrow> bool" where
  "reclaimed hash budget now b updates b' \<longleftrightarrow>
     broker_inv hash b' \<and> steady b b' \<and> held_ids b' = held_ids b \<and> b_predictor b' = b_predictor b \<and>
     (updates = [] \<or> b_predictor b \<noteq> None) \<and> set (b_in_flight b') \<subseteq> set (b_in_flight b) \<and>
     set (b_in_flight b) - set (b_in_flight b') \<subseteq> set (overdue_flights now b) \<and>
     length (overdue_flights now b') = length (overdue_flights now b) - budget"

lemma reclaim_ok:
  assumes "broker_inv hash b"
  shows "\<exists>events updates b'. reclaim budget now clk wall b = Some (events, updates, b') \<and> reclaimed hash budget now b updates b'"
  using assms
proof (induction budget arbitrary: clk wall b)
  case 0
  then show ?case by (simp add: reclaimed_def)
next
  case (Suc budget)
  have f: "flight_inv b" using Suc.prems by (simp add: broker_inv_def)
  show ?case
  proof (cases "\<exists>t mid ds. b_deadlines b = (t, mid) # ds \<and> t \<le> now")
    case False
    have "reclaim (Suc budget) now clk wall b = Some ([], [], b)" using False by (cases "b_deadlines b") auto
    then show ?thesis using Suc.prems first_not_due [OF f False] by (simp add: reclaimed_def)
  next
    case True
    then obtain t mid ds where d: "b_deadlines b = (t, mid) # ds" "t \<le> now" by blast
    obtain e where e: "map_of (b_in_flight b) mid = Some e" "f_deadline e = t" by (rule first_deadline [OF f d(1)])
    obtain event update b1 k where fin: "finish_locked (clk 0) (wall 0) mid SExpired ''Delivery lease expired'' None b = Some (event, update, b1)"
      and st: "settled hash mid (SExpired = SAck \<and> \<not> is_expired (clk 0 0) (f_message e)) b b1"
      and u: "update \<noteq> None \<longrightarrow> b_predictor b \<noteq> None" and "k \<le> 1"
      and "b_completions b1 = drop k (b_completions b @ [(b_next_completion b, completion_of (clk 0 3) mid e SExpired)])"
      and "disposed (clk 0 2) SExpired ''Delivery lease expired'' (is_expired (clk 0 0) (f_message e)) (f_message e) b b1"
      and "clk 0 4 - clk 0 3 < ms_to_ns (hc_completion_retention (b_config b)) \<longrightarrow>
        (b_next_completion b, completion_of (clk 0 3) mid e SExpired) \<in> set (b_completions b1)"
      by (rule finish_locked_ok [OF Suc.prems e(1), of "clk 0" "wall 0" SExpired "''Delivery lease expired''" None])
    have inv1: "broker_inv hash b1" and p1: "b_predictor b1 = b_predictor b" and fl: "b_in_flight b1 = AList.delete mid (b_in_flight b)"
      and held: "held_ids b1 = held_ids b" using st by (simp_all add: settled_def)
    have "f_deadline e \<le> now" using e(2) d(2) by simp
    note first = settle_first [OF f e(1) this fl]
    obtain events updates b' where ih: "reclaim budget now (\<lambda>i. clk (Suc i)) (\<lambda>i. wall (Suc i)) b1 = Some (events, updates, b')"
      "reclaimed hash budget now b1 updates b'"
      using Suc.IH [OF inv1] by blast
    have "steady b b'" using settled_steady [OF st e(1)] ih(2) steady_trans unfolding reclaimed_def by blast
    moreover have "set (overdue_flights now b1) \<subseteq> set (overdue_flights now b)" using first(4) by (auto simp: overdue_flights_def)
    then have "set (b_in_flight b) - set (b_in_flight b') \<subseteq> set (overdue_flights now b)"
      using first(2,3) ih(2) unfolding reclaimed_def by blast
    ultimately have "reclaimed hash (Suc budget) now b (case_option [] (\<lambda>x. [x]) update @ updates) b'"
      using ih(2) held p1 u first(1,4) by (auto simp: reclaimed_def split: option.splits)
    then show ?thesis using d fin ih(1) by simp
  qed
qed

section \<open>The whole maintenance task\<close>

lemma prune_completions_inv:
  assumes inv: "broker_inv hash b"
  shows "broker_inv hash (prune_completions_locked budget now b)" and "steady b (prune_completions_locked budget now b)"
    and "held_ids (prune_completions_locked budget now b) = held_ids b"
    and "b_predictor (prune_completions_locked budget now b) = b_predictor b"
    and "b_in_flight (prune_completions_locked budget now b) = b_in_flight b"
proof -
  have h: "history_inv b" using inv by (simp add: broker_inv_def)
  then have "hist_ok (b_next_completion b) (b_completions b) (b_completed b)" by (simp add: history_inv_def)
  from prune_completions_ok [OF this, of budget now]
  obtain k ix where "k \<le> budget" "k \<le> length (b_completions b)"
    and eq: "prune_completions_locked budget now b = b\<lparr>b_completed := ix, b_completions := drop k (b_completions b)\<rparr>"
    and ok: "hist_ok (b_next_completion b) (drop k (b_completions b)) ix"
    and "0 < budget \<longrightarrow> hc_completion_cache_max_entries (b_config b) < length (b_completions b) \<longrightarrow> 0 < k" .
  have sub: "c_token ` snd ` set (drop k (b_completions b)) \<subseteq> c_token ` snd ` set (b_completions b)"
    by (intro image_mono set_drop_subset)
  then have "\<forall>mid e. map_of (b_in_flight b) mid = Some e \<longrightarrow> f_attempt_token e \<notin> c_token ` snd ` set (drop k (b_completions b))"
    using h unfolding history_inv_def by (meson subsetD)
  then have "history_inv (b\<lparr>b_completed := ix, b_completions := drop k (b_completions b)\<rparr>)"
    using h ok le_trans [OF diff_le_self] by (simp add: history_inv_def)
  then show "broker_inv hash (prune_completions_locked budget now b)"
    using inv by (simp add: eq broker_inv_def side_inv_def queue_inv_def flight_inv_def dlq_inv_def)
  show "steady b (prune_completions_locked budget now b)"
    using sub by (simp add: eq steady_def token_set_def le_supI2)
  show "held_ids (prune_completions_locked budget now b) = held_ids b"
    by (simp add: eq held_ids_def queued_ids_def dlq_ids_def flight_ids_def)
  show "b_predictor (prune_completions_locked budget now b) = b_predictor b" "b_in_flight (prune_completions_locked budget now b) = b_in_flight b"
    by (simp_all add: eq)
qed

lemma publish_all_ok: "quiet b (publish_all events b) \<and> b_predictor (publish_all events b) = b_predictor b"
proof (induction events arbitrary: b)
  case (Cons e events)
  from Cons [of "publish_event (Some e) b"] show ?case
    using publish_event_ok [where b = b and event = "Some e"] quiet_trans by auto
qed simp

lemma learn_all_ok:
  assumes "side_inv hash b" and "updates = [] \<or> b_predictor b \<noteq> None"
  shows "\<exists>b'. learn_all hash clk updates b = Some b' \<and> side_inv hash b' \<and> quiet b b'"
  using assms
proof (induction updates arbitrary: clk b)
  case (Cons u updates)
  then obtain b1 where 1: "learn hash (clk 0) u b = Some b1" "side_inv hash b1" "quiet b b1" "b_predictor b1 \<noteq> None"
    using learn_ok [of hash b "clk 0" u] by auto
  then obtain b' where "learn_all hash (\<lambda>i. clk (Suc i)) updates b1 = Some b'" "side_inv hash b'" "quiet b1 b'"
    using Cons.IH [of b1 "\<lambda>i. clk (Suc i)"] by auto
  then show ?case using 1 quiet_trans by auto
qed simp

lemma maintain_deliveries_ok:
  assumes inv: "broker_inv hash b"
  obtains b' where "maintain_deliveries hash now clk later learn_clk wall b = Some b'" and "broker_inv hash b'" and "steady b b'"
    and "held_ids b' = held_ids b" and "set (b_in_flight b') \<subseteq> set (b_in_flight b)"
    and "set (b_in_flight b) - set (b_in_flight b') \<subseteq> set (overdue_flights now b)"
    and "length (overdue_flights now b') = length (overdue_flights now b) - hc_maintenance_batch_size (b_config b)"
proof -
  let ?n = "hc_maintenance_batch_size (b_config b)"
  obtain events updates b1 where 1: "reclaim ?n now clk wall b = Some (events, updates, b1)" "reclaimed hash ?n now b updates b1"
    using reclaim_ok [OF inv] by blast
  let ?b2 = "prune_completions_locked ?n later b1"
  let ?b3 = "publish_all events ?b2"
  have "broker_inv hash b1" using 1(2) by (simp add: reclaimed_def)
  note 2 = prune_completions_inv [OF this, of ?n later]
  note 3 = publish_all_ok [of ?b2 events]
  have side3: "side_inv hash ?b3" using 2(1) 3 side_inv_quiet [of hash ?b2 ?b3] by (simp add: broker_inv_def)
  moreover have "updates = [] \<or> b_predictor ?b3 \<noteq> None" using 1(2) 2(4) 3 by (simp add: reclaimed_def)
  ultimately obtain b' where 4: "learn_all hash learn_clk updates ?b3 = Some b'" "side_inv hash b'" "quiet ?b3 b'"
    using learn_all_ok by blast
  have q: "quiet ?b2 b'" using 3 4(3) quiet_trans by blast
  note inv' = broker_inv_quiet [OF q 4(2) 2(1)]
  have fl: "b_in_flight b' = b_in_flight b1" using quiet_frame(6) [OF q] 2(5) by simp
  have "steady b b'" using 1(2) 2(2) calm_steady [OF quiet_calm [OF q]] steady_trans unfolding reclaimed_def by blast
  then show thesis
    by (rule that [rotated 2]) (use 1 2(3) 4(1) inv' fl in \<open>auto simp: reclaimed_def overdue_flights_def maintain_deliveries_def\<close>)
qed

section \<open>Pulling\<close>

text \<open>Taking a message out of the queue.\<close>

lemma dequeue_ok:
  assumes inv: "broker_inv hash b" and deq: "dequeue (broker_cost b) (b_queue b) = (Some m, q)"
  shows "broker_inv hash (b\<lparr>b_queue := q\<rparr>)" and "waiting (b_config b) m"
    and "held_ids b = add_mset (m_id m) (held_ids (b\<lparr>b_queue := q\<rparr>))" and "calm b (b\<lparr>b_queue := q\<rparr>)"
proof -
  have q: "mlq_inv (b_queue b)" "\<forall>m \<in># stored (b_queue b). waiting (b_config b) m" "mq_num_levels (b_queue b) = hc_num_levels (b_config b)"
    using inv by (simp_all add: broker_inv_def queue_inv_def)
  note t = store.take_holds [OF q(1) deq q(2)]
  show "waiting (b_config b) m" using t(4) .
  show "broker_inv hash (b\<lparr>b_queue := q\<rparr>)"
    using inv t q(3) by (simp add: broker_inv_def side_inv_def queue_inv_def flight_inv_def history_inv_def dlq_inv_def)
  show "held_ids b = add_mset (m_id m) (held_ids (b\<lparr>b_queue := q\<rparr>))"
    using t(5) by (simp add: held_ids_def queued_ids_def dlq_ids_def flight_ids_def)
  show "calm b (b\<lparr>b_queue := q\<rparr>)" by (simp add: calm_def)
qed

lemma dequeue_empty:
  assumes "broker_inv hash b" and "dequeue (broker_cost b) (b_queue b) = (None, q)"
  shows "q = b_queue b"
  using store.take_nothing(1) [OF _ assms(2)] assms(1) by (simp add: broker_inv_def queue_inv_def)

text \<open>What the broker needs to hand out tokens.\<close>

definition tokens_ok :: "Broker \<Rightarrow> bool" where
  "tokens_ok b \<longleftrightarrow> (\<forall>t \<in> token_set b. issued b t) \<and> unat (px_counter (b_proxy b)) < 2 ^ 64 - 1 \<and> hc_default_max_retries (b_config b) < 2 ^ 64"

lemma tokens_ok_calm: "tokens_ok b \<Longrightarrow> calm b b' \<Longrightarrow> tokens_ok b'"
  using calm_frame(1,3,12) [of b b'] by (simp add: tokens_ok_def issued_def)

text \<open>The message of a response is in flight, under the token of the response and a lease of the caller.\<close>

definition pulled_ok :: "string \<Rightarrow> Status \<times> PulledMessage option \<Rightarrow> Broker \<Rightarrow> bool" where
  "pulled_ok owner r b \<longleftrightarrow>
     (case snd r of None \<Rightarrow> True
      | Some pm \<Rightarrow> fst (fst r) = OK \<and> (\<exists>e. map_of (b_in_flight b) (pm_message_id pm) = Some e \<and> f_consumer_id e = owner \<and>
          f_attempt_token e = pm_attempt_token pm \<and> m_payload (f_message e) = pm_payload pm \<and> m_headers (f_message e) = pm_headers pm))"

lemma deliver_pulled:
  assumes "deliver_result clk owner m b st pm b'"
  shows "pulled_ok owner (st, pm) b'"
  using assms by (auto simp: deliver_result_def pulled_ok_def with_flight_def flight_entry_def AList.update_conv' split: if_splits)

lemma pull_loop_ok:
  assumes "broker_inv hash b" and "tokens_ok b" and "\<exists>r \<in> set rounds. deadline \<le> pu_test r"
  shows "\<exists>r b'. pull_loop rounds deadline owner b = Some (r, b') \<and> broker_inv hash b' \<and> held_ids b' = held_ids b \<and> pulled_ok owner r b'"
  using assms
proof (induction rounds arbitrary: b)
  case (Cons r rounds)
  show ?case
  proof (cases "deadline \<le> pu_test r \<or> pu_cancel r")
    case True
    then show ?thesis using Cons.prems by (auto simp: pulled_ok_def)
  next
    case going: False
    obtain b1 where 1: "sweep_queue (pu_sweep r) (pu_wall r) ''TTL expired in queue'' b = Some b1" "broker_inv hash b1" "calm b b1" "held_ids b1 = held_ids b"
      by (rule sweep_queue_ok [OF Cons.prems(1)])
    have t1: "tokens_ok b1" using Cons.prems(2) 1(3) by (rule tokens_ok_calm)
    have more: "\<exists>r \<in> set rounds. deadline \<le> pu_test r" using Cons.prems(3) going by auto
    show ?thesis
    proof (cases "pu_cancel_swept r \<or> deadline \<le> pu_retest r")
      case True
      then show ?thesis using going 1 by (auto simp: pulled_ok_def)
    next
      case waited: False
      obtain mo q where deq: "dequeue (broker_cost b1) (b_queue b1) = (mo, q)" by force
      show ?thesis
      proof (cases mo)
        case None
        have "pull_loop (r # rounds) deadline owner b = pull_loop rounds deadline owner b1"
          using going waited 1(1) deq None dequeue_empty [OF 1(2)] by simp
        then show ?thesis using Cons.IH [OF 1(2) t1 more] 1(4) by simp
      next
        case (Some m)
        note d = dequeue_ok [OF 1(2) deq [unfolded Some]]
        let ?b2 = "b1\<lparr>b_queue := q\<rparr>"
        have t2: "tokens_ok ?b2" using t1 d(4) by (rule tokens_ok_calm)
        have w: "waiting (b_config ?b2) m" using d(2) by simp
        show ?thesis
        proof (cases "is_expired (pu_expiry r) m")
          case True
          let ?b3 = "dlq_expired (pu_expired r) (pu_wall r 0) PullExpiry ''TTL expired at Pull time'' m ?b2"
          note x = dlq_expired_ok [OF d(1) w, of "pu_expired r" "pu_wall r 0" PullExpiry "''TTL expired at Pull time''"]
          have "tokens_ok ?b3" using t2 x(2) by (rule tokens_ok_calm)
          then show ?thesis
            using Cons.IH [OF x(1) _ more] x(3) d(3) 1 going waited deq Some True by simp
        next
          case False
          have "pull_loop (r # rounds) deadline owner b = deliver (pu_deliver r) (pu_cancel_install r) owner m ?b2"
            using False 1 going waited deq Some by simp
          then show ?thesis
            using deliver_ok [OF d(1) w, of "pu_deliver r" "pu_cancel_install r" owner] t2 deliver_pulled d(3) 1(4) unfolding tokens_ok_def by metis
        qed
      qed
    qed
  qed
qed simp

end
