(* ===== verification/Broker_Runs.thy ===== *)
theory Broker_Runs
  imports Broker_Maintenance
begin

text \<open>
  Runs of the whole service. The threads of the server call the handlers at any time, and a pull
  or a sweep gives up the queue's lock between taking a message and placing it elsewhere. A state of a run
  is therefore the broker together with the messages that some thread has in its hands; a step is one
  section that runs under a lock. Two ghost lists record which messages were
  accepted and which were acknowledged, so that nothing can be lost or duplicated unnoticed.
\<close>

section \<open>Start-up\<close>

text \<open>Reading a snapshot file into a predictor gives a consistent predictor with the same settings.\<close>

definition restores_ok :: "(string \<Rightarrow> nat) \<Rightarrow> (string \<Rightarrow> string \<Rightarrow> PerKeyPredictor \<Rightarrow> string + nat \<times> PerKeyPredictor) \<Rightarrow> bool" where
  "restores_ok hash load \<longleftrightarrow>
     (\<forall>path ctx p n p'. predictor_inv hash p \<longrightarrow> load path ctx p = Inr (n, p') \<longrightarrow> predictor_inv hash p' \<and> pp_config p' = pp_config p)"

lemma start_predictor_ok:
  assumes "start_predictor present load r = Inr (p, counters)" and "restores_ok hash load" and "pc_num_levels (pr_predictor r) < 256"
  shows "predictor_inv hash p \<and> pp_config p = pr_predictor r"
proof -
  obtain p0 where p0: "make_PerKeyPredictor (pr_predictor r) = Inr p0"
    using assms(1) by (auto simp: start_predictor_def split: sum.splits)
  note ok = make_predictor_ok [OF p0 assms(3), of hash]
  show ?thesis
    using assms(1,2) ok p0 unfolding start_predictor_def restores_ok_def by (auto split: option.splits if_splits sum.splits)
qed

lemma service_ok:
  assumes svc: "HarbingerService present load seed ts px config = Some b" and load: "restores_ok hash load"
    and n: "hc_num_levels (b_config b) < 256"
  shows "broker_inv hash b" and "held_ids b = {#}" and "token_set b = {}" and "validate_config config = Inr (b_config b)"
proof -
  obtain c where v: "validate_config config = Inr c" using svc by (auto simp: HarbingerService_def split: sum.splits)
  note valid = validate_config_ok [OF v]
  obtain extractor where x: "(case hc_ingress_features c of None \<Rightarrow> Inr None | Some f \<Rightarrow> map_sum id Some (FeatureExtractor (ic_schema f))) = Inr extractor"
    using svc v by (auto simp: HarbingerService_def split: sum.splits)
  obtain q where q: "make_queue c = Inr q" using svc v x by (auto simp: HarbingerService_def split: sum.splits)
  obtain predictor counters where p: "(case hc_predictive_routing c of None \<Rightarrow> Inr (None, no_routing)
      | Some r \<Rightarrow> map_sum id (map_prod Some id) (start_predictor present load r)) = Inr (predictor, counters)"
    using svc v x q by (auto simp: HarbingerService_def split: sum.splits)
  have b: "b_config b = c" "b_feature_extractor b = extractor" "b_predictor b = predictor" "b_queue b = q" "b_dlq b = []" "b_in_flight b = []"
      "b_deadlines b = []" "b_completions b = []" "b_completed b = []" "b_next_completion b = 0"
    using svc v x q p by (auto simp: HarbingerService_def Let_def split: prod.splits)
  show "validate_config config = Inr (b_config b)" using v b(1) by simp
  show "token_set b = {}" by (simp add: token_set_def b)
  have qi: "mlq_inv q" using q unfolding make_queue_def by (rule make_MultiLevelQueue_inv)
  have q0: "mq_num_levels q = hc_num_levels c" "stored q = {#}"
    using q by (auto simp: make_queue_def make_MultiLevelQueue_def mlq_init_def stored_def split: if_splits)
  then have queue: "queue_inv b" using qi b by (simp add: queue_inv_def)
  have "FeatureExtractor s = Inr s \<and> hc_ingress_features c \<noteq> None" if "extractor = Some s" for s
    using x that by (auto simp: FeatureExtractor_def map_sum_def split: option.splits sum.splits if_splits)
  moreover have "predictor_inv hash p \<and> hc_predictive_routing c \<noteq> None \<and> pc_num_levels (pp_config p) = hc_num_levels c"
    if pr: "predictor = Some p" for p
  proof -
    obtain r where r: "hc_predictive_routing c = Some r" "start_predictor present load r = Inr (p, counters)"
      using p pr by (auto split: option.splits sum.splits simp: map_sum_def)
    have levels: "pc_num_levels (pr_predictor r) = hc_num_levels c" using valid r(1) by (simp add: config_valid_def)
    have "predictor_inv hash p \<and> pp_config p = pr_predictor r"
      by (rule start_predictor_ok [OF r(2) load]) (use n b(1) levels in simp)
    then show ?thesis using r(1) levels by simp
  qed
  ultimately have "side_inv hash b" using valid b by (simp add: side_inv_def)
  then show "broker_inv hash b"
    using queue b by (simp add: broker_inv_def flight_inv_def history_inv_def hist_ok_def dlq_inv_def)
  show "held_ids b = {#}" using b q0 by (simp add: held_ids_def queued_ids_def dlq_ids_def flight_ids_def)
qed

section \<open>States and steps\<close>

text \<open>A message between two locked sections: swept as expired, or taken by the pull of a consumer.\<close>

datatype Hand = Swept (hand_message: Message) | Pulled (hand_owner: string) (hand_message: Message)

record System =
  s_broker :: Broker
  s_hands :: "Hand list"
  s_submitted :: "string list"
  s_acked :: "string list"

text \<open>The counter of ids and tokens is not about to wrap around.\<close>

definition counter_left :: "Broker \<Rightarrow> bool" where
  "counter_left b \<longleftrightarrow> unat (px_counter (b_proxy b)) < 2 ^ 64 - 1"

inductive service_step :: "(string \<Rightarrow> nat) \<Rightarrow> System \<Rightarrow> System \<Rightarrow> bool" for hash where
  step_producer: "RegisterProducer (s_broker s) = (r, b) \<Longrightarrow> service_step hash s (s\<lparr>s_broker := b\<rparr>)"
| step_consumer: "RegisterConsumer (s_broker s) = (r, b) \<Longrightarrow> service_step hash s (s\<lparr>s_broker := b\<rparr>)"
| step_submit: "counter_left (s_broker s) \<Longrightarrow> rpc_Submit hash clk wall req (s_broker s) = Some ((st, mid), b) \<Longrightarrow>
    service_step hash s (s\<lparr>s_broker := b, s_submitted := (if fst st = OK then mid # s_submitted s else s_submitted s)\<rparr>)"
| step_sweep: "sweep_expired_batch limit now (b_queue (s_broker s)) = Some (ms, q) \<Longrightarrow>
    service_step hash s (s\<lparr>s_broker := (s_broker s)\<lparr>b_queue := q\<rparr>, s_hands := s_hands s @ map Swept ms\<rparr>)"
| step_bury: "s_hands s = xs @ Swept m # ys \<Longrightarrow>
    service_step hash s (s\<lparr>s_broker := dlq_expired clk wall TtlSweep details m (s_broker s), s_hands := xs @ ys\<rparr>)"
| step_take: "is_registered_consumer owner (s_broker s) \<Longrightarrow> dequeue (broker_cost (s_broker s)) (b_queue (s_broker s)) = (Some m, q) \<Longrightarrow>
    service_step hash s (s\<lparr>s_broker := (s_broker s)\<lparr>b_queue := q\<rparr>, s_hands := s_hands s @ [Pulled owner m]\<rparr>)"
| step_expire: "s_hands s = xs @ Pulled owner m # ys \<Longrightarrow> is_expired now m \<Longrightarrow>
    service_step hash s (s\<lparr>s_broker := dlq_expired clk wall PullExpiry ''TTL expired at Pull time'' m (s_broker s), s_hands := xs @ ys\<rparr>)"
| step_deliver: "s_hands s = xs @ Pulled owner m # ys \<Longrightarrow> \<not> is_expired now m \<Longrightarrow> counter_left (s_broker s) \<Longrightarrow>
    deliver clk cancelled owner m (s_broker s) = Some (r, b) \<Longrightarrow> service_step hash s (s\<lparr>s_broker := b, s_hands := xs @ ys\<rparr>)"
| step_settle: "settle hash clk wall owner mid token kind reason ms (s_broker s) = Some (st, b) \<Longrightarrow>
    service_step hash s (s\<lparr>s_broker := b, s_acked := (if acks clk owner mid token kind (s_broker s) then mid # s_acked s else s_acked s)\<rparr>)"
| step_maintain: "maintain_deliveries hash now clk2 later learn_clk walls (s_broker s) = Some b \<Longrightarrow> service_step hash s (s\<lparr>s_broker := b\<rparr>)"
| step_age: "service_step hash s (s\<lparr>s_broker := (s_broker s)\<lparr>b_queue := snd (age_once_locked clk now (b_queue (s_broker s)))\<rparr>\<rparr>)"
| step_save: "service_step hash s (s\<lparr>s_broker := snd (save_predictor_snapshot saved (s_broker s))\<rparr>)"

text \<open>The number of levels is an eight-bit value and the number of retries a 32-bit one.\<close>

inductive service_run :: "(string \<Rightarrow> nat) \<Rightarrow> HarbingerConfig \<Rightarrow> System \<Rightarrow> bool" for hash config where
  run_start: "HarbingerService present load seed ts px config = Some b \<Longrightarrow> restores_ok hash load \<Longrightarrow> counter_left (b\<lparr>b_proxy := px\<rparr>) \<Longrightarrow>
    hc_num_levels (b_config b) < 256 \<Longrightarrow> hc_default_max_retries (b_config b) < 2 ^ 32 \<Longrightarrow>
    service_run hash config \<lparr>s_broker = b, s_hands = [], s_submitted = [], s_acked = []\<rparr>"
| run_step: "service_run hash config s \<Longrightarrow> service_step hash s s' \<Longrightarrow> service_run hash config s'"

section \<open>The invariant of a run\<close>

definition hand_ids :: "System \<Rightarrow> string multiset" where
  "hand_ids s = mset (map (m_id \<circ> hand_message) (s_hands s))"

definition sys_inv :: "(string \<Rightarrow> nat) \<Rightarrow> HarbingerConfig \<Rightarrow> System \<Rightarrow> bool" where
  "sys_inv hash c s \<longleftrightarrow>
     (let b = s_broker s in
      b_config b = c \<and> broker_inv hash b \<and> hc_default_max_retries c < 2 ^ 32 \<and> (\<forall>t \<in> token_set b. issued b t) \<and>
      (\<forall>mid \<in> set (s_submitted s). issued b mid) \<and> distinct (s_submitted s) \<and>
      (\<forall>x \<in> set (s_hands s). waiting (b_config b) (hand_message x)) \<and>
      mset (s_submitted s) = held_ids b + hand_ids s + mset (s_acked s))"

lemma sys_invD:
  assumes "sys_inv hash c s"
  shows "broker_inv hash (s_broker s)" "hc_default_max_retries (b_config (s_broker s)) < 2 ^ 32"
    "\<forall>t \<in> token_set (s_broker s). issued (s_broker s) t" "\<forall>mid \<in> set (s_submitted s). issued (s_broker s) mid" "distinct (s_submitted s)"
    "\<forall>x \<in> set (s_hands s). waiting (b_config (s_broker s)) (hand_message x)"
    "mset (s_submitted s) = held_ids (s_broker s) + mset (map (m_id \<circ> hand_message) (s_hands s)) + mset (s_acked s)"
    "b_config (s_broker s) = c"
  using assms by (auto simp add: sys_inv_def Let_def hand_ids_def)

text \<open>Most steps keep the settings and the counter.\<close>

lemma sys_inv_same_counter:
  assumes s: "sys_inv hash c s" and b: "broker_inv hash (s_broker s')"
    and same: "b_config (s_broker s') = b_config (s_broker s)" "b_proxy (s_broker s') = b_proxy (s_broker s)"
      "token_set (s_broker s') \<subseteq> token_set (s_broker s)" "s_submitted s' = s_submitted s"
    and h: "\<forall>x \<in> set (s_hands s'). waiting (b_config (s_broker s)) (hand_message x)"
    and ids: "held_ids (s_broker s') + hand_ids s' + mset (s_acked s') = held_ids (s_broker s) + hand_ids s + mset (s_acked s)"
  shows "sys_inv hash c s'"
proof -
  note d = sys_invD [OF s]
  have iss: "issued (s_broker s') = issued (s_broker s)" using same(2) by (simp add: issued_def fun_eq_iff)
  have "\<forall>t \<in> token_set (s_broker s'). issued (s_broker s) t" using d(3) same(3) by blast
  then show ?thesis using b same d h ids by (simp add: sys_inv_def Let_def iss hand_ids_def)
qed

lemma sys_inv_steady:
  assumes "sys_inv hash c s" and "broker_inv hash (s_broker s')" and "steady (s_broker s) (s_broker s')" and "s_submitted s' = s_submitted s"
    and "\<forall>x \<in> set (s_hands s'). waiting (b_config (s_broker s)) (hand_message x)"
    and "held_ids (s_broker s') + hand_ids s' + mset (s_acked s') = held_ids (s_broker s) + hand_ids s + mset (s_acked s)"
  shows "sys_inv hash c s'"
  using assms(3) by (intro sys_inv_same_counter [OF assms(1,2) _ _ _ assms(4-6)]) (simp_all add: steady_def)

lemma hand_ids_split:
  assumes "s_hands s = xs @ x # ys"
  shows "hand_ids s = add_mset (m_id (hand_message x)) (hand_ids (s\<lparr>s_hands := xs @ ys\<rparr>))"
  using assms by (simp add: hand_ids_def)

text \<open>Registration.\<close>

lemma registered_ok:
  assumes "broker_inv hash b"
  shows "broker_inv hash (b\<lparr>b_producer_counter := i, b_registered_producers := ps\<rparr>)"
    "broker_inv hash (b\<lparr>b_consumer_counter := i, b_registered_consumers := ps\<rparr>)"
    "held_ids (b\<lparr>b_producer_counter := i, b_registered_producers := ps\<rparr>) = held_ids b"
    "held_ids (b\<lparr>b_consumer_counter := i, b_registered_consumers := ps\<rparr>) = held_ids b"
    "token_set (b\<lparr>b_producer_counter := i, b_registered_producers := ps\<rparr>) = token_set b"
    "token_set (b\<lparr>b_consumer_counter := i, b_registered_consumers := ps\<rparr>) = token_set b"
  using assms by (simp_all add: broker_inv_def side_inv_def queue_inv_def flight_inv_def history_inv_def dlq_inv_def
      held_ids_def queued_ids_def dlq_ids_def flight_ids_def token_set_def)

lemma producer_inv: "sys_inv hash c s \<Longrightarrow> RegisterProducer (s_broker s) = (r, b) \<Longrightarrow> sys_inv hash c (s\<lparr>s_broker := b\<rparr>)"
  using sys_invD(1,6) [of hash c s] by (auto simp: RegisterProducer_def Let_def registered_ok hand_ids_def intro!: sys_inv_same_counter [of hash c s])

lemma consumer_inv: "sys_inv hash c s \<Longrightarrow> RegisterConsumer (s_broker s) = (r, b) \<Longrightarrow> sys_inv hash c (s\<lparr>s_broker := b\<rparr>)"
  using sys_invD(1,6) [of hash c s] by (auto simp: RegisterConsumer_def Let_def registered_ok hand_ids_def intro!: sys_inv_same_counter [of hash c s])

text \<open>Submission: the new id carries the number of the counter, which no earlier id does.\<close>

lemma submit_inv:
  assumes s: "sys_inv hash c s" and count: "counter_left (s_broker s)" and run: "rpc_Submit hash clk wall req (s_broker s) = Some ((st, mid), b)"
  shows "sys_inv hash c (s\<lparr>s_broker := b, s_submitted := (if fst st = OK then mid # s_submitted s else s_submitted s)\<rparr>)"
proof -
  note d = sys_invD [OF s]
  have "side_inv hash (s_broker s)" "queue_inv (s_broker s)" using d(1) by (simp_all add: broker_inv_def)
  then show ?thesis
  proof (cases rule: rpc_Submit_ok [of hash "s_broker s" clk wall req])
    case (rejected st')
    then show ?thesis using run s by simp
  next
    case (accepted b')
    have eq: "st = (OK, [])" "mid = fst (generate_id (clk 0) (b_proxy (s_broker s)))" "b' = b" using accepted(1) run by auto
    note q = quiet_frame [OF accepted(4)]
    have b: "b_config b = b_config (s_broker s)" "token_set b = token_set (s_broker s)" "dlq_ids b = dlq_ids (s_broker s)" "flight_ids b = flight_ids (s_broker s)"
      using q eq(3) by (simp_all add: token_set_def dlq_ids_def flight_ids_def)
    have inv: "broker_inv hash b"
      using accepted(2,3) q d(1) eq(3) by (simp add: broker_inv_def flight_inv_def history_inv_def dlq_inv_def)
    have next_id: "unat (px_counter (b_proxy b)) = Suc (unat (px_counter (b_proxy (s_broker s))))"
      using accepted(5) eq(3) count counter_step by (simp add: counter_left_def)
    then have old: "issued b t" if "issued (s_broker s) t" for t using that by (intro issued_mono [OF that]) simp
    have new: "issued b mid" "\<not> issued (s_broker s) mid" using next_id eq(2) by (auto simp: issued_def intro: exI [of _ "unat (px_counter (b_proxy (s_broker s)))"])
    have "held_ids b = add_mset mid (held_ids (s_broker s))" using accepted(6) b eq by (simp add: held_ids_def)
    then show ?thesis using d b inv old new eq by (auto simp: sys_inv_def Let_def hand_ids_def)
  qed
qed

lemma deliver_inv:
  assumes s: "sys_inv hash c s" and count: "counter_left (s_broker s)" and h: "s_hands s = xs @ Pulled owner m # ys"
    and run: "deliver clk cancelled owner m (s_broker s) = Some (r, b)"
  shows "sys_inv hash c (s\<lparr>s_broker := b, s_hands := xs @ ys\<rparr>)"
proof -
  note d = sys_invD [OF s]
  have w: "waiting (b_config (s_broker s)) m" using d(6) h by force
  have max: "hc_default_max_retries (b_config (s_broker s)) < 2 ^ 64" using d(2) by simp
  obtain st pm b' where del: "deliver clk cancelled owner m (s_broker s) = Some ((st, pm), b')" "deliver_result clk owner m (s_broker s) st pm b'"
      "broker_inv hash b'" "held_ids b' = add_mset (m_id m) (held_ids (s_broker s))" "b_config b' = b_config (s_broker s)"
      "\<forall>t \<in> token_set b'. issued b' t" "unat (px_counter (b_proxy b')) = Suc (unat (px_counter (b_proxy (s_broker s))))"
      "\<not> cancelled \<and> map_of (b_in_flight (s_broker s)) (m_id m) = None \<longrightarrow> fst st = OK"
    by (rule deliver_ok [OF d(1) w max d(3), of clk cancelled owner]) (use count in \<open>simp add: counter_left_def\<close>)
  have b: "b' = b" using del(1) run by simp
  have "issued b' t" if "issued (s_broker s) t" for t using del(7) by (intro issued_mono [OF that]) simp
  then show ?thesis using d del(3-6) h b by (auto simp: sys_inv_def Let_def hand_ids_def)
qed

text \<open>Sections that only change the queue.\<close>

lemma sweep_inv:
  assumes s: "sys_inv hash c s" and run: "sweep_expired_batch limit now (b_queue (s_broker s)) = Some (ms, q)"
  shows "sys_inv hash c (s\<lparr>s_broker := (s_broker s)\<lparr>b_queue := q\<rparr>, s_hands := s_hands s @ map Swept ms\<rparr>)"
proof -
  let ?b = "s_broker s"
  note d = sys_invD [OF s]
  have q: "mlq_inv (b_queue ?b)" "\<forall>m \<in># stored (b_queue ?b). waiting (b_config ?b) m" "mq_num_levels (b_queue ?b) = hc_num_levels (b_config ?b)"
    using d(1) by (simp_all add: broker_inv_def queue_inv_def)
  obtain ms' q' where w: "sweep_expired_batch limit now (b_queue ?b) = Some (ms', q')" "mlq_inv q'"
      "mq_num_levels q' = mq_num_levels (b_queue ?b)" "\<forall>m \<in># stored q'. waiting (b_config ?b) m"
      "\<forall>m \<in> set ms'. waiting (b_config ?b) m \<and> is_expired now m" "length ms' \<le> limit"
      "image_mset m_id (stored (b_queue ?b)) = mset (map m_id ms') + image_mset m_id (stored q')"
    by (rule store.sweep_holds [OF q(1,2)])
  have eq: "ms' = ms" "q' = q" using w(1) run by auto
  have "broker_inv hash (?b\<lparr>b_queue := q\<rparr>)"
    using d(1) w(2-4) q(3) eq by (simp add: broker_inv_def side_inv_def queue_inv_def flight_inv_def history_inv_def dlq_inv_def)
  moreover have "held_ids ?b = mset (map m_id ms) + held_ids (?b\<lparr>b_queue := q\<rparr>)"
    using w(7) eq by (simp add: held_ids_def queued_ids_def dlq_ids_def flight_ids_def)
  ultimately show ?thesis using d(6) w(5) eq
    by (intro sys_inv_steady [OF s]) (auto simp: steady_def token_set_def hand_ids_def comp_def)
qed

lemma take_inv:
  assumes s: "sys_inv hash c s" and run: "dequeue (broker_cost (s_broker s)) (b_queue (s_broker s)) = (Some m, q)"
  shows "sys_inv hash c (s\<lparr>s_broker := (s_broker s)\<lparr>b_queue := q\<rparr>, s_hands := s_hands s @ [Pulled owner m]\<rparr>)"
  using dequeue_ok [OF sys_invD(1) [OF s] run] sys_invD(6) [OF s] calm_steady
  by (intro sys_inv_steady [OF s]) (auto simp: hand_ids_def)

lemma age_inv:
  assumes s: "sys_inv hash c s"
  shows "sys_inv hash c (s\<lparr>s_broker := (s_broker s)\<lparr>b_queue := snd (age_once_locked clk now (b_queue (s_broker s)))\<rparr>\<rparr>)"
proof -
  let ?b = "s_broker s" and ?q = "snd (age_once_locked clk now (b_queue (s_broker s)))"
  note d = sys_invD [OF s]
  have q: "mlq_inv (b_queue ?b)" "\<forall>m \<in># stored (b_queue ?b). waiting (b_config ?b) m" "mq_num_levels (b_queue ?b) = hc_num_levels (b_config ?b)"
    using d(1) by (simp_all add: broker_inv_def queue_inv_def)
  note a = store.age_holds [OF q(1,2) waiting_stable, of clk now]
  have "broker_inv hash (?b\<lparr>b_queue := ?q\<rparr>)"
    using d(1) a q(3) by (simp add: broker_inv_def side_inv_def queue_inv_def flight_inv_def history_inv_def dlq_inv_def)
  moreover have "held_ids (?b\<lparr>b_queue := ?q\<rparr>) = held_ids ?b"
    using a by (simp add: held_ids_def queued_ids_def dlq_ids_def flight_ids_def)
  ultimately show ?thesis using d(6) by (intro sys_inv_steady [OF s]) (auto simp: steady_def token_set_def hand_ids_def)
qed

text \<open>Placing a message in the dead-letter queue.\<close>

lemma bury_inv:
  assumes s: "sys_inv hash c s" and h: "s_hands s = xs @ x # ys"
  shows "sys_inv hash c (s\<lparr>s_broker := dlq_expired clk wall trigger details (hand_message x) (s_broker s), s_hands := xs @ ys\<rparr>)"
proof -
  have w: "waiting (b_config (s_broker s)) (hand_message x)" using sys_invD(6) [OF s] h by simp
  show ?thesis
    using dlq_expired_ok [OF sys_invD(1) [OF s] w, of clk wall trigger details] sys_invD(6) [OF s] calm_steady h
    by (intro sys_inv_steady [OF s]) (auto simp: hand_ids_def)
qed

text \<open>Settlement and maintenance.\<close>

lemma settle_inv:
  assumes s: "sys_inv hash c s" and run: "settle hash clk wall owner mid token kind reason ms (s_broker s) = Some (st, b)"
  shows "sys_inv hash c (s\<lparr>s_broker := b, s_acked := (if acks clk owner mid token kind (s_broker s) then mid # s_acked s else s_acked s)\<rparr>)"
proof -
  obtain st' b' where w: "settle hash clk wall owner mid token kind reason ms (s_broker s) = Some (st', b')" "broker_inv hash b'" "steady (s_broker s) b'"
      "held_ids (s_broker s) = held_ids b' + (if acks clk owner mid token kind (s_broker s) then {#mid#} else {#})"
    by (rule settle_ok [OF sys_invD(1) [OF s]])
  then show ?thesis using run sys_invD(6) [OF s] by (intro sys_inv_steady [OF s]) (auto simp: hand_ids_def)
qed

lemma maintain_inv:
  assumes s: "sys_inv hash c s" and run: "maintain_deliveries hash now clk later learn_clk wall (s_broker s) = Some b"
  shows "sys_inv hash c (s\<lparr>s_broker := b\<rparr>)"
proof -
  obtain b' where w: "maintain_deliveries hash now clk later learn_clk wall (s_broker s) = Some b'" "broker_inv hash b'" "steady (s_broker s) b'"
      "held_ids b' = held_ids (s_broker s)"
    by (rule maintain_deliveries_ok [OF sys_invD(1) [OF s]])
  then show ?thesis using run sys_invD(6) [OF s] by (intro sys_inv_steady [OF s]) (auto simp: hand_ids_def)
qed

lemma save_quiet: "quiet b (snd (save_predictor_snapshot saved b)) \<and> b_predictor (snd (save_predictor_snapshot saved b)) = b_predictor b"
  by (simp add: save_predictor_snapshot_def Let_def quiet_def noise_def)

lemma save_inv:
  assumes s: "sys_inv hash c s"
  shows "sys_inv hash c (s\<lparr>s_broker := snd (save_predictor_snapshot saved (s_broker s))\<rparr>)"
proof -
  let ?b = "snd (save_predictor_snapshot saved (s_broker s))"
  have q: "quiet (s_broker s) ?b" "b_predictor ?b = b_predictor (s_broker s)" using save_quiet by auto
  have "side_inv hash ?b" using sys_invD(1) [OF s] side_inv_quiet [OF _ q] by (simp add: broker_inv_def)
  note i = broker_inv_quiet [OF q(1) this sys_invD(1) [OF s]]
  show ?thesis using i sys_invD(6) [OF s] calm_steady [OF quiet_calm [OF q(1)]] by (intro sys_inv_steady [OF s]) (auto simp: hand_ids_def)
qed

lemma service_step_inv:
  assumes "service_step hash s s'" and "sys_inv hash c s"
  shows "sys_inv hash c s'"
  using assms
proof (induction rule: service_step.induct)
  case (step_bury s xs m ys clk wall details)
  then show ?case using bury_inv [of hash c s xs "Swept m" ys] by simp
next
  case (step_expire s xs owner m ys now clk wall)
  then show ?case using bury_inv [of hash c s xs "Pulled owner m" ys] by simp
qed (simp_all add: producer_inv consumer_inv submit_inv sweep_inv take_inv deliver_inv settle_inv maintain_inv age_inv save_inv)

lemma service_run_inv:
  assumes "service_run hash config s"
  obtains c where "validate_config config = Inr c" and "sys_inv hash c s"
proof -
  have "\<exists>c. validate_config config = Inr c \<and> sys_inv hash c s"
    using assms
  proof (induction rule: service_run.induct)
    case (run_start present load seed ts px b)
    note o = service_ok [OF run_start(1,2,4)]
    show ?case using o run_start(5) by (intro exI [of _ "b_config b"]) (simp add: sys_inv_def hand_ids_def)
  next
    case (run_step s s')
    then show ?case using service_step_inv by blast
  qed
  then show thesis using that by blast
qed

end
