(* ===== verification/Broker_Example.thy ===== *)
theory Broker_Example
  imports Broker_Runs
begin

text \<open>
  A run of the service on concrete values, computed step by step: the service starts, a producer and
  a consumer register, a message is submitted, taken from the queue and delivered. The properties of the
  broker are applied to the states of this run.
\<close>

definition ex_plain :: HarbingerConfig where
  "ex_plain = \<lparr>hc_num_levels = 3, hc_aging = None, hc_default_max_retries = 2, hc_default_ttl = 0,
     hc_default_priority = 1, hc_max_pull_wait = 5000, hc_ttl_sweep_interval = 100, hc_delivery_lease = 30000,
     hc_lease_sweep_interval = 100, hc_completion_retention = 60000, hc_completion_cache_max_entries = 10000,
     hc_maintenance_batch_size = 256, hc_ingress_features = None, hc_feedback = None, hc_predictive_routing = None,
     hc_level_weights = None\<rparr>"

definition ex_service :: Broker where
  "ex_service = \<lparr>b_config = ex_plain, b_feature_extractor = None, b_predictor = None, b_snapshot_context = [], b_routing = no_routing,
     b_level_cost_ms = replicate 256 0, b_published = [], b_capture_drops = 0, b_queue = mlq_init 3 None StrictPriority None, b_dlq = [],
     b_proxy = \<lparr>px_counter = 1, px_accepted = 0\<rparr>, b_in_flight = [], b_deadlines = [], b_instance_token = ''7-1000-0'',
     b_completions = [], b_completed = [], b_next_completion = 0, b_registered_producers = [], b_producer_counter = 0,
     b_registered_consumers = [], b_consumer_counter = 0\<rparr>"

lemma ex_numbers:
  "nat_to_string 0 = ''0''" "nat_to_string (Suc 0) = ''1''" "nat_to_string 2 = ''2''" "nat_to_string 7 = ''7''" "int_to_string 1000 = ''1000''"
  by code_simp+

lemma ex_service_starts:
  "HarbingerService (\<lambda>_. False) (\<lambda>_ _ _. Inl []) 7 1000 \<lparr>px_counter = 0, px_accepted = 0\<rparr> ex_plain = Some ex_service"
  by (simp add: HarbingerService_def ex_plain_def validate_config_def check_delivery_def check_weights_def default_pause_def
      max_duration_def clock_max_def ns_per_ms_def make_queue_def make_MultiLevelQueue_def make_level_share_def generate_id_def
      ex_service_def ex_numbers)

definition ex_joined :: Broker where
  "ex_joined = ex_service\<lparr>b_producer_counter := 1, b_registered_producers := [''producer-0''], b_consumer_counter := 1,
     b_registered_consumers := [''consumer-0'']\<rparr>"

lemma ex_joins:
  "RegisterProducer ex_service = (((OK, []), ''producer-0''), ex_service\<lparr>b_producer_counter := 1, b_registered_producers := [''producer-0'']\<rparr>)"
  "RegisterConsumer (ex_service\<lparr>b_producer_counter := 1, b_registered_producers := [''producer-0'']\<rparr>) = (((OK, []), ''consumer-0''), ex_joined)"
  by (simp_all add: RegisterProducer_def RegisterConsumer_def ex_joined_def ex_service_def Let_def ex_numbers)

definition ex_message :: Message where
  "ex_message = \<lparr>m_id = ''1000-1'', m_payload = [], m_priority = 1, m_original_priority = 1, m_arrival_time = 1000, m_enqueue_time = 1000,
     m_ttl = 0, m_retry_count = 0, m_max_retries = 2, m_headers = [''__producer_id'' \<mapsto> ''producer-0''], m_routing_context = None,
     m_delivery_count = 0\<rparr>"

definition ex_request :: SubmitRequest where
  "ex_request = \<lparr>sr_producer_id = ''producer-0'', sr_payload = [], sr_headers = Map.empty, sr_ttl_ms = None\<rparr>"

definition ex_queued :: "Node list \<Rightarrow> Broker" where
  "ex_queued ns = ex_joined\<lparr>b_proxy := \<lparr>px_counter = 2, px_accepted = 1\<rparr>,
     b_queue := (mlq_init 3 None StrictPriority None)\<lparr>mq_queues := [[], ns, []], mq_total_size := length ns, mq_next_node := 1\<rparr>\<rparr>"

definition ex_submitted :: Broker where
  "ex_submitted = ex_queued [\<lparr>n_addr = 0, n_message = ex_message, n_expiry = None\<rparr>]"

lemma ex_submits: "rpc_Submit hash (\<lambda>_. 1000) 0 ex_request ex_joined = Some (((OK, []), ''1000-1''), ex_submitted)"
  by (simp add: rpc_Submit_def ex_request_def ex_joined_def ex_service_def is_registered_producer_def proxy_accept_def generate_id_def
      ex_numbers route_message_def assign_route_def ex_plain_def kTtlUnset_def capture_event_def has_writer_def publish_event_def Let_def
      enqueue_def place_message_def link_message_def note_aging_deadline_def mlq_init_def default_message_def is_promoted_def
      ex_submitted_def ex_queued_def ex_message_def numeral_3_eq_3)

lemma ex_takes: "dequeue (broker_cost ex_submitted) (b_queue ex_submitted) = (Some ex_message, b_queue (ex_queued []))"
  by (simp add: dequeue_def dequeue_locked_def ex_submitted_def ex_queued_def mlq_init_def remove_locked_def is_promoted_def ex_message_def
      size_dec_def numeral_3_eq_3)

definition ex_entry :: InFlightEntry where
  "ex_entry = \<lparr>f_message = ex_message\<lparr>m_delivery_count := 1\<rparr>, f_consumer_id = ''consumer-0'', f_pull_time = 1000,
     f_attempt_token = ''7-1000-0-1000-2'', f_deadline = 30000001000, f_attempt_id = 1\<rparr>"

definition ex_flying :: Broker where
  "ex_flying = (ex_queued [])\<lparr>b_proxy := \<lparr>px_counter = 3, px_accepted = 1\<rparr>, b_in_flight := [(''1000-1'', ex_entry)],
     b_deadlines := [(30000001000, ''1000-1'')]\<rparr>"

lemma ex_delivers:
  "deliver (\<lambda>_. 1000) False ''consumer-0'' ex_message (ex_queued []) =
     Some (((OK, []), Some \<lparr>pm_message_id = ''1000-1'', pm_attempt_token = ''7-1000-0-1000-2'', pm_lease_duration_ms = 30000,
       pm_payload = [], pm_headers = [''__producer_id'' \<mapsto> ''producer-0'']\<rparr>), ex_flying)"
  by (simp add: deliver_def new_token_def generate_id_def install_delivery_def ex_flying_def ex_queued_def ex_joined_def ex_service_def
      ex_message_def ex_entry_def ex_plain_def ex_numbers ms_to_ns_def ns_per_ms_def Let_def)

definition ex_system :: "Broker \<Rightarrow> Hand list \<Rightarrow> string list \<Rightarrow> System" where
  "ex_system b hands submitted = \<lparr>s_broker = b, s_hands = hands, s_submitted = submitted, s_acked = []\<rparr>"

lemma ex_run_start: "service_run (\<lambda>_. 0) ex_plain (ex_system ex_service [] [])"
  unfolding ex_system_def using ex_service_starts
  by (rule run_start) (simp_all add: restores_ok_def counter_left_def ex_service_def ex_plain_def)

lemma ex_run_joined: "service_run (\<lambda>_. 0) ex_plain (ex_system ex_joined [] [])"
  using run_step [OF run_step [OF ex_run_start step_producer] step_consumer] ex_joins by (simp add: ex_system_def)

lemma ex_counts: "counter_left ex_joined" "counter_left (ex_queued [])" "counter_left ex_submitted" "counter_left ex_flying"
  by (simp_all add: counter_left_def ex_joined_def ex_service_def ex_queued_def ex_submitted_def ex_flying_def)

lemma ex_consumer [simp]: "is_registered_consumer ''consumer-0'' ex_submitted" "is_registered_consumer ''consumer-0'' ex_flying"
  by (simp_all add: is_registered_consumer_def ex_submitted_def ex_flying_def ex_queued_def ex_joined_def)

lemma ex_config [simp]: "b_config ex_submitted = ex_plain" "b_config ex_flying = ex_plain" "b_config (ex_queued ns) = ex_plain"
  by (simp_all add: ex_submitted_def ex_flying_def ex_queued_def ex_joined_def ex_service_def)

lemma ex_run_submitted: "service_run (\<lambda>_. 0) ex_plain (ex_system ex_submitted [] [''1000-1''])"
  using step_submit [of "ex_system ex_joined [] []" "\<lambda>_. 0" "\<lambda>_. 1000" 0 ex_request "(OK, [])" "''1000-1''" ex_submitted]
  by (intro run_step [OF ex_run_joined]) (simp add: ex_system_def ex_submits ex_counts)

lemma ex_run_taken: "service_run (\<lambda>_. 0) ex_plain (ex_system (ex_queued []) [Pulled ''consumer-0'' ex_message] [''1000-1''])"
proof (rule run_step [OF ex_run_submitted])
  have "ex_submitted\<lparr>b_queue := b_queue (ex_queued [])\<rparr> = ex_queued []" by (simp add: ex_submitted_def ex_queued_def)
  then show "service_step (\<lambda>_. 0) (ex_system ex_submitted [] [''1000-1'']) (ex_system (ex_queued []) [Pulled ''consumer-0'' ex_message] [''1000-1''])"
    using step_take [of "''consumer-0''" "ex_system ex_submitted [] [''1000-1'']" ex_message "b_queue (ex_queued [])" "\<lambda>_. 0"]
    by (simp add: ex_system_def ex_takes)
qed

lemma ex_run_flying: "service_run (\<lambda>_. 0) ex_plain (ex_system ex_flying [] [''1000-1''])"
proof (rule run_step [OF ex_run_taken])
  have "\<not> is_expired 1000 ex_message" by (simp add: is_expired_def ex_message_def)
  then show "service_step (\<lambda>_. 0) (ex_system (ex_queued []) [Pulled ''consumer-0'' ex_message] [''1000-1'']) (ex_system ex_flying [] [''1000-1''])"
    using step_deliver [of "ex_system (ex_queued []) [Pulled ''consumer-0'' ex_message] [''1000-1'']" "[]" "''consumer-0''" ex_message "[]" 1000
        "\<lambda>_. 1000" False _ ex_flying "\<lambda>_. 0"]
    by (simp add: ex_system_def ex_counts ex_delivers)
qed

end
