(* ===== verification/Broker_Properties.thy ===== *)
theory Broker_Properties
  imports Broker_Example
begin

text \<open>
  What the service guarantees in every run: no message is lost or duplicated, no handler faults, a
  pull returns, settlement is fenced by the attempt token and idempotent, retries are bounded, and
  expired leases are reclaimed.
\<close>

section \<open>Lemmas\<close>

lemma maintenance_round_ok:
  assumes inv: "broker_inv hash b"
  shows "\<exists>ts' b'. maintenance_round hash w ts b = Some (ts', b') \<and> broker_inv hash b' \<and> held_ids b' = held_ids b"
proof -
  define lease_due where "lease_due = (next_lease ts \<le> wk_now w)"
  define ttl_due where "ttl_due = (next_ttl ts \<le> wk_now w)"
  define snap_due where "snap_due = (next_snapshot ts \<le> wk_now w)"
  obtain b1 where 1: "(if lease_due then maintain_deliveries hash (wk_reclaim_now w) (wk_reclaim w) (wk_prune w) (wk_learn w) (wk_wall w) b
      else Some b) = Some b1" "broker_inv hash b1" "held_ids b1 = held_ids b"
    by (rule maintain_deliveries_ok [OF inv, of "wk_reclaim_now w" "wk_reclaim w" "wk_prune w" "wk_learn w" "wk_wall w"])
      (cases lease_due, use inv in auto)
  obtain b2 where 2: "(if ttl_due then sweep_queue (wk_sweep w) (wk_sweep_wall w) ''TTL expired in queue (sweeper)'' b1 else Some b1) = Some b2"
      "broker_inv hash b2" "held_ids b2 = held_ids b1"
    by (rule sweep_queue_ok [OF 1(2), of "wk_sweep w" "wk_sweep_wall w" "''TTL expired in queue (sweeper)''"])
      (cases ttl_due, use 1(2) in auto)
  have q: "quiet b2 (snd (save_predictor_snapshot s b2))" "b_predictor (snd (save_predictor_snapshot s b2)) = b_predictor b2" for s
    using save_quiet by auto
  have "broker_inv hash (snd (save_predictor_snapshot s b2)) \<and> held_ids (snd (save_predictor_snapshot s b2)) = held_ids b2" for s
    using broker_inv_quiet [OF q(1) side_inv_quiet [OF _ q] 2(2)] 2(2) by (simp add: broker_inv_def)
  then show ?thesis
    using 1 2 unfolding maintenance_round_def Let_def lease_due_def [symmetric] ttl_due_def [symmetric] snap_due_def [symmetric]
    by (cases snap_due) simp_all
qed

lemma run_maintenance_ok:
  assumes "broker_inv hash b"
  shows "\<exists>b'. run_maintenance hash ws ts b = Some b' \<and> broker_inv hash b' \<and> held_ids b' = held_ids b"
  using assms
proof (induction ws arbitrary: ts b)
  case (Cons w ws)
  obtain ts' b1 where "maintenance_round hash w ts b = Some (ts', b1)" "broker_inv hash b1" "held_ids b1 = held_ids b"
    using maintenance_round_ok [OF Cons.prems] by blast
  then show ?case using Cons.IH [of b1 ts'] by simp
qed simp

lemma deliver_returns:
  assumes "broker_inv hash b" and "waiting (b_config b) m"
  shows "\<exists>r. deliver clk cancelled owner m b = Some r"
proof -
  obtain token b1 where t: "new_token (clk 0) b = (token, b1)" by force
  have b1: "b1 = b\<lparr>b_proxy := b_proxy b1\<rparr>" using t by (auto simp: new_token_def split: prod.splits)
  have "broker_inv hash b1"
    using assms(1) by (subst b1) (simp add: broker_inv_def side_inv_def queue_inv_def flight_inv_def history_inv_def dlq_inv_def)
  moreover have "waiting (b_config b1) m" using assms(2) by (subst b1) simp
  ultimately obtain b2 where "restore_message m b1 = Some b2" by (rule restore_message_ok)
  then show ?thesis using t by (auto simp: deliver_def install_delivery_def Let_def)
qed

section \<open>The example continued\<close>

lemma ex_live: "live_attempt ''consumer-0'' ''1000-1'' ''7-1000-0-1000-2'' ex_flying ex_entry"
proof -
  have "valid_token ''7-1000-0-1000-2''" by code_simp
  then show ?thesis by (simp add: live_attempt_def) (simp add: ex_flying_def ex_entry_def)
qed

text \<open>The state after an Ack of the delivery.\<close>

definition ex_acked :: Broker where
  "ex_acked = (ex_queued [])\<lparr>b_proxy := \<lparr>px_counter = 3, px_accepted = 1\<rparr>,
     b_completions := [(0, completion_of 1000 ''1000-1'' ex_entry SAck)], b_completed := [(''7-1000-0-1000-2'', 0)], b_next_completion := 1\<rparr>"

lemma ex_finish: "finish_locked (\<lambda>_. 1000) 0 ''1000-1'' SAck ''Ack'' (Some 5) ex_flying = Some (None, None, ex_acked)"
  by (simp add: finish_locked_def Let_def learn_level_cost_def settlement_update_def capture_event_def has_writer_def dispose_def
      record_completion_def prune_completions_locked.simps ex_flying_def ex_queued_def ex_joined_def ex_service_def ex_plain_def ex_entry_def
      ex_message_def is_expired_def ex_acked_def completion_of_def ms_to_ns_def ns_per_ms_def)

lemma ex_acks: "settle (\<lambda>_. 0) (\<lambda>_. 1000) 0 ''consumer-0'' ''1000-1'' ''7-1000-0-1000-2'' SAck ''Ack'' 5 ex_flying = Some ((OK, []), ex_acked)"
proof -
  have "map_of (b_completed ex_flying) tok = None" for tok by (simp add: ex_flying_def ex_queued_def ex_joined_def ex_service_def)
  moreover have "1000 < f_deadline ex_entry" by (simp add: ex_entry_def)
  ultimately show ?thesis
    using ex_live by (simp add: settle_def settle_live_def live_attempt_def ex_finish settle_after_def publish_event_def)
qed

section \<open>Properties\<close>

text \<open>
  C1. No message is lost or duplicated. In every run of the service, under any interleaving of
  registrations, submissions, pulls, sweeps, Acks, Nacks, lease reclaims, aging and snapshots, the ids of accepted messages are
  pairwise different, and every accepted message is in exactly one place: waiting in the queue, in
  flight, in the dead-letter queue, in the hands of a thread between two locks, or acknowledged.
\<close>

theorem message_conservation:
  assumes "service_run hash config s"
  shows "distinct (s_submitted s) \<and>
    mset (s_submitted s) = queued_ids (s_broker s) + flight_ids (s_broker s) + dlq_ids (s_broker s) + hand_ids s + mset (s_acked s)"
  using assms
proof (rule service_run_inv)
  fix c assume "sys_inv hash c s"
  from sys_invD(5,7) [OF this] show ?thesis by (simp add: held_ids_def hand_ids_def ac_simps)
qed

theorem message_conservation_witness:
  "distinct [''1000-1''] \<and> {#''1000-1''#} = queued_ids ex_flying + flight_ids ex_flying + dlq_ids ex_flying"
  using message_conservation [OF ex_run_flying] by (simp add: ex_system_def hand_ids_def)



text \<open>
  C4. A pull returns. Whatever timeout the consumer asks for, the loop of \<^verbatim>\<open>Pull\<close> has returned by the first round whose
  clock reading is \<^verbatim>\<open>max_pull_wait\<close> after the start of the call. No message is lost on the way, and a message in the response
  is in flight under the token of the response and owned by the caller.
\<close>

theorem pull_returns:
  assumes "service_run hash config s" and "counter_left (s_broker s)"
    and "r \<in> set rounds" and "start + ms_to_ns (hc_max_pull_wait (b_config (s_broker s))) \<le> pu_test r"
  shows "\<exists>response b'. rpc_Pull start rounds cid timeout_ms (s_broker s) = Some (response, b') \<and>
    held_ids b' = held_ids (s_broker s) \<and> pulled_ok cid response b'"
proof (cases "is_registered_consumer cid (s_broker s)")
  case False
  then show ?thesis by (simp add: rpc_Pull_def pulled_ok_def)
next
  case True
  let ?deadline = "start + ms_to_ns (pull_wait timeout_ms (b_config (s_broker s)))"
  have "?deadline \<le> pu_test r" using assms(4) by (auto simp: pull_wait_def ms_to_ns_def ns_per_ms_def)
  then have late: "\<exists>r \<in> set rounds. ?deadline \<le> pu_test r" using assms(3) by blast
  show ?thesis
    using assms(1)
  proof (rule service_run_inv)
    fix c assume s: "sys_inv hash c s"
    have "tokens_ok (s_broker s)" using sys_invD(2,3) [OF s] assms(2) by (simp add: tokens_ok_def counter_left_def)
    from pull_loop_ok [OF sys_invD(1) [OF s] this late, of cid] show ?thesis using True by (auto simp: rpc_Pull_def)
  qed
qed

definition ex_round :: "time \<Rightarrow> PullRound" where
  "ex_round t = \<lparr>pu_test = t, pu_cancel = False, pu_sweep = (\<lambda>_. t), pu_wall = (\<lambda>_. 0), pu_cancel_swept = False, pu_retest = t,
     pu_expiry = t, pu_expired = (\<lambda>_. t), pu_deliver = (\<lambda>_. t), pu_cancel_install = False\<rparr>"

lemma ex_round_test [simp]: "pu_test (ex_round t) = t"
  by (simp add: ex_round_def)

lemma ex_pull_wait [simp]: "ms_to_ns (hc_max_pull_wait ex_plain) = 5000000000"
  by (simp add: ex_plain_def ms_to_ns_def ns_per_ms_def)

theorem pull_returns_witness:
  "\<exists>response b'. rpc_Pull 1000 [ex_round 1000, ex_round 6000000000] ''consumer-0'' 2000 ex_submitted = Some (response, b') \<and>
     held_ids b' = held_ids ex_submitted \<and> pulled_ok ''consumer-0'' response b'"
  using pull_returns [OF ex_run_submitted, of "ex_round 6000000000" "[ex_round 1000, ex_round 6000000000]" 1000 "''consumer-0''" 2000]
  by (simp add: ex_system_def ex_counts)

text \<open>
  C2. Settlement is fenced by the attempt. An Ack or a Nack has an effect on messages only when the caller is the registered owner of a delivery that is in
  flight under exactly this message id and token; then the delivery ends, with \<^verbatim>\<open>OK\<close> before the end of the lease and with
  \<^verbatim>\<open>FAILED_PRECONDITION\<close> after it. Any other call leaves the deliveries, the leases, the queue and the
  dead-letter queue as they are, and answers \<^verbatim>\<open>OK\<close> only when the history holds the same outcome of the same attempt by the same owner.
\<close>

theorem settlement_fenced:
  assumes "service_run hash config s" and "settle hash clk wall owner mid token kind reason ms (s_broker s) = Some (st, b')"
  shows "if \<exists>e. live_attempt owner mid token (s_broker s) e
    then b_in_flight b' = AList.delete mid (b_in_flight (s_broker s)) \<and>
      (\<exists>e. live_attempt owner mid token (s_broker s) e \<and>
        st = (if f_deadline e \<le> clk 1 then (FAILED_PRECONDITION, ''Delivery lease expired'') else (OK, [])))
    else b_in_flight b' = b_in_flight (s_broker s) \<and> b_deadlines b' = b_deadlines (s_broker s) \<and>
      b_queue b' = b_queue (s_broker s) \<and> b_dlq b' = b_dlq (s_broker s) \<and>
      (fst st = OK \<longrightarrow> (\<exists>c. replayable (clk 0) mid token (s_broker s) c \<and> c_owner c = owner \<and> c_kind c = kind))"
  using assms(1)
proof (rule service_run_inv)
  fix c assume s: "sys_inv hash c s"
  show ?thesis
    using sys_invD(1) [OF s]
  proof (cases rule: settle_cases [of hash "s_broker s" clk wall owner mid token kind reason ms])
    case (replay r)
    then have st: "st = replay_status owner kind r" "b' = s_broker s" using assms(2) by auto
    have "c_owner r = owner \<and> c_kind r = kind" if "fst st = OK" using that st(1) by (auto simp: replay_status_def split: if_splits)
    then show ?thesis using replay(2,3) st by auto
  next
    case (refused st' b1)
    then have "st' = st" "b1 = b'" using assms(2) by auto
    then show ?thesis using refused by (auto simp: forget_def)
  next
    case (effect e b1 st' k)
    then have "st' = st" "b1 = b'" using assms(2) by auto
    then show ?thesis using effect(2,3,8) by auto
  qed
qed

theorem settlement_fenced_witness: "b_in_flight ex_acked = [] \<and> (\<exists>e. live_attempt ''consumer-0'' ''1000-1'' ''7-1000-0-1000-2'' ex_flying e)"
  using settlement_fenced [OF ex_run_flying, of "\<lambda>_. 1000" 0 "''consumer-0''" "''1000-1''" "''7-1000-0-1000-2''" SAck "''Ack''" 5 "(OK, [])" ex_acked]
    ex_live ex_acks by (auto simp: ex_system_def ex_flying_def split: if_splits)

text \<open>
  C5. Where a settled message goes. When a live attempt is settled, a message whose TTL has passed goes to the dead-letter queue
  with reason \<^verbatim>\<open>TTL_EXPIRED\<close>, an acknowledged one leaves the broker, and a failed one (Nack, or a lease that
  ended) counts one more retry: with retries left it waits again at the tail of the level it
  was routed to at ingress, stamped with the current time; with the retries used up it goes to the dead-letter queue with
  \<^verbatim>\<open>MAX_RETRIES_EXCEEDED\<close>. Nothing else in the queue or the dead-letter queue changes.
\<close>

theorem settlement_disposition:
  assumes "service_run hash config s" and "live_attempt owner mid token (s_broker s) e"
    and "settle hash clk wall owner mid token kind reason ms (s_broker s) = Some (st, b')"
  shows "if is_expired (clk 2) (f_message e)
    then stored (b_queue b') = stored (b_queue (s_broker s)) \<and>
      (\<exists>details. b_dlq b' = dlq_push (clk 4) (f_message e) TTL_EXPIRED details (b_dlq (s_broker s)))
    else if kind = SAck \<and> clk 1 < f_deadline e
    then stored (b_queue b') = stored (b_queue (s_broker s)) \<and> b_dlq b' = b_dlq (s_broker s)
    else if Suc (m_retry_count (f_message e)) < m_max_retries (f_message e)
    then b_dlq b' = b_dlq (s_broker s) \<and> stored (b_queue b') = add_mset ((f_message e)\<lparr>m_retry_count := Suc (m_retry_count (f_message e)),
        m_priority := m_original_priority (f_message e), m_enqueue_time := clk 4\<rparr>) (stored (b_queue (s_broker s)))
    else stored (b_queue b') = stored (b_queue (s_broker s)) \<and>
      (\<exists>details. b_dlq b' = dlq_push (clk 4) ((f_message e)\<lparr>m_retry_count := Suc (m_retry_count (f_message e))\<rparr>) MAX_RETRIES_EXCEEDED
         details (b_dlq (s_broker s)))"
  using assms(1)
proof (rule service_run_inv)
  fix c assume s: "sys_inv hash c s"
  show ?thesis
    using sys_invD(1) [OF s]
  proof (cases rule: settle_cases [of hash "s_broker s" clk wall owner mid token kind reason ms])
    case (effect e' b1 st' k)
    then have "b1 = b'" "e' = e" using assms(2,3) by (auto simp: live_attempt_def)
    then show ?thesis using effect(10) by (cases "f_deadline e \<le> clk 1") (auto simp: disposed_def)
  qed (use assms(2) in auto)
qed

theorem settlement_disposition_witness: "stored (b_queue ex_acked) = stored (b_queue ex_flying) \<and> b_dlq ex_acked = b_dlq ex_flying"
proof -
  have "\<not> is_expired 1000 (f_message ex_entry)" "1000 < f_deadline ex_entry" by (simp_all add: ex_entry_def ex_message_def is_expired_def)
  then show ?thesis
    using settlement_disposition [of "\<lambda>_. 0" ex_plain "ex_system ex_flying [] [''1000-1'']" "''consumer-0''" "''1000-1''" "''7-1000-0-1000-2''"
        ex_entry "\<lambda>_. 1000" 0 SAck "''Ack''" 5 "(OK, [])" ex_acked] ex_run_flying ex_live ex_acks by (simp add: ex_system_def)
qed



text \<open>
  C7. Attempts are bounded. The attempt number of a delivery is one more than the failed attempts before it and never exceeds
  \<^verbatim>\<open>default_max_retries\<close>; a waiting message has had fewer attempts than that; and a message is dead-lettered only because its TTL passed or because all its
  retries were used.
\<close>

theorem attempts_bounded:
  assumes "service_run hash config s"
  shows "(\<forall>mid e. map_of (b_in_flight (s_broker s)) mid = Some e \<longrightarrow>
      f_attempt_id e = Suc (m_retry_count (f_message e)) \<and> f_attempt_id e \<le> hc_default_max_retries (b_config (s_broker s))) \<and>
    (\<forall>m \<in># stored (b_queue (s_broker s)). m_delivery_count m = m_retry_count m \<and> m_delivery_count m < hc_default_max_retries (b_config (s_broker s))) \<and>
    (\<forall>d \<in> set (b_dlq (s_broker s)). m_delivery_count (d_message d) \<le> hc_default_max_retries (b_config (s_broker s)) \<and>
      (d_reason d = TTL_EXPIRED \<or>
       d_reason d = MAX_RETRIES_EXCEEDED \<and> m_retry_count (d_message d) = hc_default_max_retries (b_config (s_broker s))))"
proof -
  obtain c where s: "sys_inv hash c s" using assms by (rule service_run_inv)
  have parts: "flight_inv (s_broker s)" "queue_inv (s_broker s)" "dlq_inv (s_broker s)"
    using sys_invD(1) [OF s] by (simp_all add: broker_inv_def)
  show ?thesis
  proof (intro conjI)
    show "\<forall>mid e. map_of (b_in_flight (s_broker s)) mid = Some e \<longrightarrow>
        f_attempt_id e = Suc (m_retry_count (f_message e)) \<and> f_attempt_id e \<le> hc_default_max_retries (b_config (s_broker s))"
      using parts(1) unfolding flight_inv_def delivered_def fits_def by (metis Suc_leI)
  qed (use parts(2,3) in \<open>auto simp: queue_inv_def waiting_def fits_def dlq_inv_def\<close>)
qed

theorem attempts_bounded_witness: "f_attempt_id ex_entry = 1 \<and> f_attempt_id ex_entry \<le> hc_default_max_retries ex_plain"
proof -
  have "map_of (b_in_flight ex_flying) ''1000-1'' = Some ex_entry" "m_retry_count (f_message ex_entry) = 0"
    by (simp_all add: ex_flying_def ex_entry_def ex_message_def)
  with attempts_bounded [OF ex_run_flying, THEN conjunct1, rule_format, of "''1000-1''" ex_entry] show ?thesis by (simp add: ex_system_def)
qed

text \<open>
  C8. Expired leases are reclaimed. One call of the maintenance task ends exactly as many expired deliveries as its batch allows, only expired ones, and
  loses no message; so a backlog of \<open>n\<close> expired leases is gone after \<open>n / batch\<close> calls, rounded up.
\<close>

theorem leases_reclaimed:
  assumes "service_run hash config s"
  shows "\<exists>b'. maintain_deliveries hash now clk later learn_clk wall (s_broker s) = Some b' \<and>
    length (overdue_flights now b') = length (overdue_flights now (s_broker s)) - hc_maintenance_batch_size (b_config (s_broker s)) \<and>
    1 \<le> hc_maintenance_batch_size (b_config (s_broker s)) \<and> set (b_in_flight b') \<subseteq> set (b_in_flight (s_broker s)) \<and>
    set (b_in_flight (s_broker s)) - set (b_in_flight b') \<subseteq> set (overdue_flights now (s_broker s)) \<and> held_ids b' = held_ids (s_broker s)"
  using assms
proof (rule service_run_inv)
  fix c assume s: "sys_inv hash c s"
  have "1 \<le> hc_maintenance_batch_size (b_config (s_broker s))"
    using sys_invD(1) [OF s] by (simp add: broker_inv_def side_inv_def config_valid_def)
  moreover obtain b' where "maintain_deliveries hash now clk later learn_clk wall (s_broker s) = Some b'" "broker_inv hash b'" "steady (s_broker s) b'"
      "held_ids b' = held_ids (s_broker s)" "set (b_in_flight b') \<subseteq> set (b_in_flight (s_broker s))"
      "set (b_in_flight (s_broker s)) - set (b_in_flight b') \<subseteq> set (overdue_flights now (s_broker s))"
      "length (overdue_flights now b') = length (overdue_flights now (s_broker s)) - hc_maintenance_batch_size (b_config (s_broker s))"
    by (rule maintain_deliveries_ok [OF sys_invD(1) [OF s]])
  ultimately show ?thesis by blast
qed

theorem leases_reclaimed_witness:
  "\<exists>b'. maintain_deliveries (\<lambda>_. 0) 40000000000 (\<lambda>_ _. 40000000000) 40000000000 (\<lambda>_ _. 0) (\<lambda>_. 0) ex_flying = Some b' \<and>
     length (overdue_flights 40000000000 ex_flying) = 1 \<and> overdue_flights 40000000000 b' = []"
proof -
  have "length (overdue_flights 40000000000 ex_flying) = 1" by (simp add: overdue_flights_def ex_flying_def ex_entry_def)
  moreover have "hc_maintenance_batch_size ex_plain = 256" by (simp add: ex_plain_def)
  ultimately show ?thesis
    using leases_reclaimed [OF ex_run_flying, of 40000000000 "\<lambda>_ _. 40000000000" 40000000000 "\<lambda>_ _. 0" "\<lambda>_. 0"] by (auto simp: ex_system_def)
qed

text \<open>
  C9. The tables of deliveries agree. In every run the deadline index is sorted and holds exactly one entry for each delivery in flight, with its deadline; no two
  deliveries, and no delivery and recorded outcome, share an attempt token; the index of the history finds exactly the
  recorded outcome of each token; and the history stays within \<^verbatim>\<open>completion_cache_max_entries\<close>.
\<close>

theorem delivery_tables_agree:
  assumes "service_run hash config s"
  shows "sorted (map fst (b_deadlines (s_broker s))) \<and>
    mset (b_deadlines (s_broker s)) = mset (map (\<lambda>(mid, e). (f_deadline e, mid)) (b_in_flight (s_broker s))) \<and>
    distinct (map (f_attempt_token \<circ> snd) (b_in_flight (s_broker s)) @ map (c_token \<circ> snd) (b_completions (s_broker s))) \<and>
    (\<forall>token i. map_of (b_completed (s_broker s)) token = Some i \<longleftrightarrow>
      (\<exists>c. map_of (b_completions (s_broker s)) i = Some c \<and> c_token c = token)) \<and>
    length (b_completions (s_broker s)) \<le> hc_completion_cache_max_entries (b_config (s_broker s))"
proof -
  obtain c where s: "sys_inv hash c s" using assms by (rule service_run_inv)
  let ?b = "s_broker s"
  have f: "flight_inv ?b" and h: "history_inv ?b" using sys_invD(1) [OF s] by (simp_all add: broker_inv_def)
  have ok: "hist_ok (b_next_completion ?b) (b_completions ?b) (b_completed ?b)" using h by (simp add: history_inv_def)
  have "f_attempt_token (snd x) \<notin> c_token ` snd ` set (b_completions ?b)" if "x \<in> set (b_in_flight ?b)" for x
  proof -
    have "map_of (b_in_flight ?b) (fst x) = Some (snd x)" using f that by (simp add: flight_inv_def)
    then show ?thesis using h by (simp add: history_inv_def)
  qed
  then have "set (map (f_attempt_token \<circ> snd) (b_in_flight ?b)) \<inter> set (map (c_token \<circ> snd) (b_completions ?b)) = {}"
    unfolding disjoint_iff set_map comp_def image_image by (metis (no_types, lifting) imageE)
  then have "distinct (map (f_attempt_token \<circ> snd) (b_in_flight ?b) @ map (c_token \<circ> snd) (b_completions ?b))"
    using f ok by (simp add: flight_inv_def hist_ok_def)
  moreover have "map_of (b_completed ?b) token = Some i \<longleftrightarrow> (\<exists>c. map_of (b_completions ?b) i = Some c \<and> c_token c = token)" for token i
  proof -
    have "(\<exists>c. (i, c) \<in> set (b_completions ?b) \<and> c_token c = token) \<longleftrightarrow> (\<exists>c. map_of (b_completions ?b) i = Some c \<and> c_token c = token)"
      using hist_ok_serial [OF ok] by (blast dest: map_of_SomeD)
    then show ?thesis using ok by (simp add: hist_ok_def)
  qed
  moreover have "lease_of = (\<lambda>(mid, e). (f_deadline e, mid))" by (auto simp: lease_of_def)
  ultimately show ?thesis using f h by (simp add: flight_inv_def history_inv_def)
qed

theorem delivery_tables_agree_witness:
  "mset (b_deadlines ex_flying) = {#(f_deadline ex_entry, ''1000-1'')#} \<and> length (b_completions ex_flying) \<le> 10000"
proof -
  have "b_in_flight ex_flying = [(''1000-1'', ex_entry)]" "hc_completion_cache_max_entries ex_plain = 10000"
    by (simp_all add: ex_flying_def ex_plain_def)
  with delivery_tables_agree [OF ex_run_flying] show ?thesis by (simp add: ex_system_def)
qed

end
