(* ===== verification/Drift_Window.thy ===== *)
theory Drift_Window
  imports Broker
begin

text \<open>
  The drift monitor of the broker: a ring of the last 512 comparisons of a predicted tier with the observed one, with a
  running count of the agreements, and an alert that is latched below one half and released
  above six tenths. The ring computes what a plain recount of the last 512 comparisons computes.
\<close>

definition recent :: "bool list \<Rightarrow> bool list" where
  "recent flags = drop (length flags - 512) flags"

definition agreements :: "bool list \<Rightarrow> nat" where
  "agreements flags = length (filter id flags)"

text \<open>The alert as a function of all comparisons so far, oldest first: whether it is latched, and how often it was raised.\<close>

definition drift_step :: "bool list \<Rightarrow> bool \<times> nat \<Rightarrow> bool \<times> nat" where
  "drift_step flags s =
     (let share = real (agreements (recent flags)) / 512 in
      if length flags < 512 then s
      else if \<not> fst s \<and> share < 1 / 2 then (True, Suc (snd s))
      else if fst s \<and> 6 / 10 < share then (False, snd s) else s)"

definition drift_reference :: "bool list \<Rightarrow> bool \<times> nat" where
  "drift_reference flags = fold (\<lambda>n. drift_step (take (Suc n) flags)) [0 ..< length flags] (False, 0)"

lemma drift_reference_snoc: "drift_reference (flags @ [a]) = drift_step (flags @ [a]) (drift_reference flags)"
proof -
  have "fold (\<lambda>n. drift_step (take (Suc n) (flags @ [a]))) [0 ..< length flags] s = fold (\<lambda>n. drift_step (take (Suc n) flags)) [0 ..< length flags] s" for s
    by (rule fold_cong) auto
  then show ?thesis by (simp add: drift_reference_def)
qed

definition ring_inv :: "bool list \<Rightarrow> RoutingCounters \<Rightarrow> bool" where
  "ring_inv flags rt \<longleftrightarrow>
     length (rt_window rt) = 512 \<and> rt_window_size rt = min 512 (length flags) \<and> rt_window_next rt = length flags mod 512 \<and>
     (\<forall>j < length flags. length flags \<le> j + 512 \<longrightarrow> rt_window rt ! (j mod 512) = flags ! j) \<and>
     rt_window_hits rt = agreements (recent flags) \<and> rt_scored rt = length flags \<and> rt_matches rt = agreements flags \<and>
     (rt_drift_latched rt, rt_drift_alerts rt) = drift_reference flags"

lemma agreements_append [simp]: "agreements (xs @ ys) = agreements xs + agreements ys"
  by (simp add: agreements_def)

lemma agreements_single [simp]: "agreements [a] = (if a then 1 else 0)" "agreements [] = 0"
  by (simp_all add: agreements_def)

lemma recent_snoc:
  assumes "512 \<le> length flags"
  shows "recent flags = flags ! (length flags - 512) # drop (length flags - 511) flags" "recent (flags @ [a]) = drop (length flags - 511) flags @ [a]"
proof -
  have "Suc (length flags - 512) = length flags - 511" "length flags - 512 < length flags" using assms by simp_all
  then show "recent flags = flags ! (length flags - 512) # drop (length flags - 511) flags"
    using Cons_nth_drop_Suc [of "length flags - 512" flags] by (simp add: recent_def)
  show "recent (flags @ [a]) = drop (length flags - 511) flags @ [a]" using assms by (simp add: recent_def)
qed

lemma ring_step:
  assumes inv: "ring_inv flags rt"
  shows "ring_inv (flags @ [a]) (score_prediction a e rt)"
proof -
  let ?n = "length flags" and ?rt = "score_prediction a e rt"
  have w: "length (rt_window rt) = 512" "rt_window_size rt = min 512 ?n" "rt_window_next rt = ?n mod 512"
    and old: "\<And>j. j < ?n \<Longrightarrow> ?n \<le> j + 512 \<Longrightarrow> rt_window rt ! (j mod 512) = flags ! j"
    and hits: "rt_window_hits rt = agreements (recent flags)" and sc: "rt_scored rt = ?n" "rt_matches rt = agreements flags"
    and dr: "(rt_drift_latched rt, rt_drift_alerts rt) = drift_reference flags"
    using inv by (auto simp: ring_inv_def)
  define hits' where "hits' = (if a then Suc (if ?n < 512 then rt_window_hits rt else if rt_window rt ! (?n mod 512) then size_dec (rt_window_hits rt) else rt_window_hits rt)
    else (if ?n < 512 then rt_window_hits rt else if rt_window rt ! (?n mod 512) then size_dec (rt_window_hits rt) else rt_window_hits rt))"
  have h': "hits' = agreements (recent (flags @ [a]))"
  proof (cases "?n < 512")
    case True
    then show ?thesis using hits by (simp add: hits'_def recent_def)
  next
    case False
    have "(?n - 512) mod 512 = ?n mod 512" using False by (simp add: mod_if [of ?n])
    then have "rt_window rt ! (?n mod 512) = flags ! (?n - 512)" using old [of "?n - 512"] False by simp
    then show ?thesis using hits False recent_snoc(1) [of flags] recent_snoc(2) [of flags a] agreements_append [of "[flags ! (?n - 512)]"] by (simp add: hits'_def size_dec_def)
  qed
  have size: "rt_window_size ?rt = min 512 (Suc ?n)" and next_slot: "rt_window_next ?rt = Suc ?n mod 512"
    and ring: "rt_window ?rt = (rt_window rt)[?n mod 512 := a]" and count: "rt_window_hits ?rt = hits'"
    and total: "rt_scored ?rt = Suc ?n" "rt_matches ?rt = (if a then Suc (agreements flags) else agreements flags)"
    using w sc by (simp_all add: score_prediction_def Let_def hits'_def mod_Suc_eq)
  have alert: "(rt_drift_latched ?rt, rt_drift_alerts ?rt) = drift_step (flags @ [a]) (rt_drift_latched rt, rt_drift_alerts rt)"
  proof -
    consider "?n < 511" | "?n = 511" | "512 \<le> ?n" by linarith
    then show ?thesis
      unfolding drift_step_def Let_def h' [symmetric] using w
      by cases (simp_all add: score_prediction_def Let_def hits'_def)
  qed
  have "(rt_window rt)[?n mod 512 := a] ! (j mod 512) = (flags @ [a]) ! j" if "j < Suc ?n" "Suc ?n \<le> j + 512" for j
  proof (cases "j = ?n")
    case True
    then show ?thesis using w(1) by simp
  next
    case False
    then have lt: "j < ?n" "?n - j < 512" using that by auto
    then have "j mod 512 \<noteq> ?n mod 512" by (metis mod_eq_dvd_iff_nat less_imp_le_nat nat_dvd_not_less zero_less_diff)
    then show ?thesis using lt old [of j] that by (simp add: nth_append)
  qed
  then show ?thesis
    unfolding ring_inv_def using size next_slot ring count total alert h' w(1) dr by (simp add: drift_reference_snoc)
qed

section \<open>Property\<close>

text \<open>
  C37. The drift monitor is exact. After any sequence of scored predictions, the ring with its running counter holds the number of agreements among
  the last 512 comparisons (or all of them, while there are fewer), the totals count all of them, and the alert
  state and the number of alerts are those of a recount of the last 512 comparisons after each prediction.
\<close>

theorem drift_window_exact:
  "let flags = map fst scores; rt = fold (\<lambda>(agree, error). score_prediction agree error) scores no_routing in
     rt_window_size rt = length (recent flags) \<and> rt_window_hits rt = agreements (recent flags) \<and>
     rt_scored rt = length flags \<and> rt_matches rt = agreements flags \<and> (rt_drift_latched rt, rt_drift_alerts rt) = drift_reference flags"
proof -
  have "ring_inv (map fst scores) (fold (\<lambda>(agree, error). score_prediction agree error) scores no_routing)"
  proof (induction scores rule: rev_induct)
    case Nil
    then show ?case by (simp add: ring_inv_def no_routing_def recent_def drift_reference_def)
  next
    case (snoc x xs)
    then show ?case using ring_step [of "map fst xs" _ "fst x" "snd x"] by (cases x) simp
  qed
  then show ?thesis by (simp add: ring_inv_def Let_def recent_def)
qed

end
