(* ===== verification/Json_Reader.thy ===== *)
theory Json_Reader
  imports Charconv
begin

text \<open>
  The strict JSON reader of \<^verbatim>\<open>include/util/json.hpp\<close>, which the configuration loader and the offline
  tools share. The position in the text is the rest of the text. A parser returns an error text (the argument of \<^verbatim>\<open>fail\<close>) or a
  value and the rest. The loops over the members of an object and the elements of an array are
  partial functions: \<open>None\<close> would stand for a loop that does not end; on every text both end.
\<close>

section \<open>Data\<close>

text \<open>\<^verbatim>\<open>std::map\<close> is an association list in key order.\<close>

datatype Json = JNull | JBool bool | JInt int | JDouble real | JString string | JArray "Json list" | JObject "(string \<times> Json) list"

type_synonym 'a parse = "string + 'a \<times> string"

definition json_get :: "string \<Rightarrow> Json \<Rightarrow> Json option" where
  "json_get key j = (case j of JObject m \<Rightarrow> map_of m key | _ \<Rightarrow> None)"

definition json_string :: "Json \<Rightarrow> string option" where
  "json_string j = (case j of JString s \<Rightarrow> Some s | _ \<Rightarrow> None)"

text \<open>An integer is converted to a double; the conversion is exact on real numbers.\<close>

definition json_number_of :: "Json \<Rightarrow> real option" where
  "json_number_of j = (case j of JInt i \<Rightarrow> Some (real_of_int i) | JDouble d \<Rightarrow> Some d | _ \<Rightarrow> None)"

definition json_integer :: "Json \<Rightarrow> int option" where
  "json_integer j = (case j of JInt i \<Rightarrow> Some i | _ \<Rightarrow> None)"

section \<open>Tokens\<close>

definition is_blank :: "char \<Rightarrow> bool" where
  "is_blank c = (byte_of c \<in> {32, 9, 13, 10})"

definition skip :: "string \<Rightarrow> string" where
  "skip t = dropWhile is_blank t"

text \<open>The next character; the position moves over blanks only.\<close>

definition peek :: "string \<Rightarrow> char parse" where
  "peek t = (case skip t of [] \<Rightarrow> Inl ''unexpected end'' | c # r \<Rightarrow> Inr (c, c # r))"

definition expect :: "char \<Rightarrow> string \<Rightarrow> string + string" where
  "expect c t = (case peek t of Inl e \<Rightarrow> Inl e | Inr (d, r) \<Rightarrow> if d \<noteq> c then Inl ''unexpected token'' else Inr (tl r))"

definition literal :: "string \<Rightarrow> string \<Rightarrow> string option" where
  "literal word t = (if take (length word) t = word then Some (drop (length word) t) else None)"

section \<open>Strings\<close>

definition hex_value :: "char \<Rightarrow> nat option" where
  "hex_value c =
     (let n = byte_of c in
      if 48 \<le> n \<and> n \<le> 57 then Some (n - 48)
      else if 97 \<le> n \<and> n \<le> 102 then Some (n - 87)
      else if 65 \<le> n \<and> n \<le> 70 then Some (n - 55) else None)"

text \<open>\<^verbatim>\<open>std::from_chars(first, last, code, 16)\<close> that must reach \<^verbatim>\<open>last\<close>.\<close>

definition hex_code :: "string \<Rightarrow> nat option" where
  "hex_code ds = (if list_all (\<lambda>c. hex_value c \<noteq> None) ds then Some (foldl (\<lambda>v c. v * 16 + the (hex_value c)) 0 ds) else None)"

definition code_bytes :: "nat \<Rightarrow> string" where
  "code_bytes code =
     (if code < 0x80 then [char_of code]
      else if code < 0x800 then [char_of (0xC0 + code div 64), char_of (0x80 + code mod 64)]
      else [char_of (0xE0 + code div 4096), char_of (0x80 + code div 64 mod 64), char_of (0x80 + code mod 64)])"

text \<open>The escape behind a backslash: the bytes it stands for and the rest.\<close>

definition escape :: "char \<Rightarrow> string \<Rightarrow> string parse" where
  "escape e t =
     (if e = CHR 0x22 \<or> e = CHR 0x5C \<or> e = CHR ''/'' then Inr ([e], t)
      else if e = CHR ''b'' then Inr ([CHR 0x08], t)
      else if e = CHR ''f'' then Inr ([CHR 0x0C], t)
      else if e = CHR ''n'' then Inr ([CHR 0x0A], t)
      else if e = CHR ''r'' then Inr ([CHR 0x0D], t)
      else if e = CHR ''t'' then Inr ([CHR 0x09], t)
      else if e = CHR ''u'' then
        (if length t < 4 then Inl ''short unicode escape''
         else case hex_code (take 4 t) of
             None \<Rightarrow> Inl ''bad unicode escape''
           | Some code \<Rightarrow>
               if 0xD800 \<le> code \<and> code \<le> 0xDFFF then Inl ''surrogate escapes unsupported''
               else Inr (code_bytes code, drop 4 t))
      else Inl ''bad escape'')"

lemma escape_shorter: "escape e t = Inr (bs, r) \<Longrightarrow> length r \<le> length t"
  by (auto simp: escape_def split: if_splits option.splits)

text \<open>The loop of \<^verbatim>\<open>str\<close> behind the opening quote.\<close>

function str_loop :: "string \<Rightarrow> string \<Rightarrow> string parse" where
  "str_loop out [] = Inl ''unterminated string''"
| "str_loop out (c # t) =
     (if c = CHR 0x22 then Inr (out, t)
      else if byte_of c < 0x20 then Inl ''control character in string''
      else if c \<noteq> CHR 0x5C then str_loop (out @ [c]) t
      else case t of
          [] \<Rightarrow> Inl ''unterminated string''
        | e # t' \<Rightarrow> (case escape e t' of Inl err \<Rightarrow> Inl err | Inr (bs, r) \<Rightarrow> str_loop (out @ bs) r))"
  by pat_completeness auto
termination
  by (relation "measure (length \<circ> snd)") (auto dest: escape_shorter)

declare str_loop.simps [simp del]

definition str :: "string \<Rightarrow> string parse" where
  "str t = (case expect (CHR 0x22) t of Inl e \<Rightarrow> Inl e | Inr r \<Rightarrow> str_loop [] r)"

section \<open>Numbers\<close>

text \<open>\<^verbatim>\<open>std::from_chars\<close> on \<^verbatim>\<open>int64_t\<close>, when it succeeds on the whole text.\<close>

definition from_chars_int64 :: "string \<Rightarrow> int option" where
  "from_chars_int64 t =
     (let negative = (t \<noteq> [] \<and> hd t = CHR ''-''); ds = (if negative then tl t else t);
          v = (if negative then - int (digits_value ds) else int (digits_value ds))
      in if ds \<noteq> [] \<and> list_all is_digit ds \<and> - (2 ^ 63) \<le> v \<and> v < 2 ^ 63 then Some v else None)"

definition number_char :: "char \<Rightarrow> bool" where
  "number_char c = (c \<in> set ''0123456789.eE+-'')"

text \<open>A leading minus sign is a number character too.\<close>

definition number :: "string \<Rightarrow> Json parse" where
  "number t =
     (let tok = takeWhile number_char t; rest = dropWhile number_char t;
          floating = list_ex (\<lambda>c. c \<in> set ''.eE'') tok
      in if tok = [] then Inl ''expected value''
         else case (if floating then None else from_chars_int64 tok) of
             Some i \<Rightarrow> Inr (JInt i, rest)
           | None \<Rightarrow>
               (case from_chars_double tok of
                  FcValue (Finite v) r \<Rightarrow> if r = [] then Inr (JDouble v, rest) else Inl ''bad number''
                | _ \<Rightarrow> Inl ''bad number''))"

section \<open>Values\<close>

text \<open>The loops of \<^verbatim>\<open>array\<close> and \<^verbatim>\<open>object\<close>; \<open>val\<close> parses a value one level deeper.\<close>

partial_function (option) array_loop ::
  "(string \<Rightarrow> Json parse option) \<Rightarrow> Json list \<Rightarrow> string \<Rightarrow> Json parse option" where
  "array_loop val out t =
     (case val t of
        None \<Rightarrow> None
      | Some (Inl e) \<Rightarrow> Some (Inl e)
      | Some (Inr (v, r)) \<Rightarrow>
          (case peek r of
             Inl e \<Rightarrow> Some (Inl e)
           | Inr (c, r') \<Rightarrow>
               if c = CHR '','' then array_loop val (out @ [v]) (tl r')
               else (case expect (CHR '']'') r' of Inl e \<Rightarrow> Some (Inl e) | Inr r'' \<Rightarrow> Some (Inr (JArray (out @ [v]), r'')))))"

definition array_value :: "(string \<Rightarrow> Json parse option) \<Rightarrow> string \<Rightarrow> Json parse option" where
  "array_value val t =
     (case expect (CHR ''['') t of
        Inl e \<Rightarrow> Some (Inl e)
      | Inr r \<Rightarrow>
          (case peek r of
             Inl e \<Rightarrow> Some (Inl e)
           | Inr (c, r') \<Rightarrow> if c = CHR '']'' then Some (Inr (JArray [], tl r')) else array_loop val [] r'))"

partial_function (option) object_loop ::
  "(string \<Rightarrow> Json parse option) \<Rightarrow> (string \<times> Json) list \<Rightarrow> string \<Rightarrow> Json parse option" where
  "object_loop val out t =
     (case str t of
        Inl e \<Rightarrow> Some (Inl e)
      | Inr (key, r) \<Rightarrow>
          (case expect (CHR '':'') r of
             Inl e \<Rightarrow> Some (Inl e)
           | Inr r1 \<Rightarrow>
               (case val r1 of
                  None \<Rightarrow> None
                | Some (Inl e) \<Rightarrow> Some (Inl e)
                | Some (Inr (v, r2)) \<Rightarrow>
                    if map_of out key \<noteq> None then Some (Inl ''duplicate key'')
                    else (case peek r2 of
                        Inl e \<Rightarrow> Some (Inl e)
                      | Inr (c, r3) \<Rightarrow>
                          if c = CHR '','' then object_loop val (map_put key v out) (tl r3)
                          else (case expect (CHR ''}'') r3 of
                              Inl e \<Rightarrow> Some (Inl e)
                            | Inr r4 \<Rightarrow> Some (Inr (JObject (map_put key v out), r4)))))))"

declare array_loop.simps [code] object_loop.simps [code]

definition object_value :: "(string \<Rightarrow> Json parse option) \<Rightarrow> string \<Rightarrow> Json parse option" where
  "object_value val t =
     (case expect (CHR ''{'') t of
        Inl e \<Rightarrow> Some (Inl e)
      | Inr r \<Rightarrow>
          (case peek r of
             Inl e \<Rightarrow> Some (Inl e)
           | Inr (c, r') \<Rightarrow> if c = CHR ''}'' then Some (Inr (JObject [], tl r')) else object_loop val [] r'))"

text \<open>\<open>levels\<close> is the number of further levels of nesting: \<^verbatim>\<open>33 - depth\<close>.\<close>

primrec json_value :: "nat \<Rightarrow> string \<Rightarrow> Json parse option" where
  "json_value 0 t = Some (Inl ''nesting too deep'')"
| "json_value (Suc levels) t =
     (case peek t of
        Inl e \<Rightarrow> Some (Inl e)
      | Inr (c, r) \<Rightarrow>
          if c = CHR ''{'' then object_value (json_value levels) r
          else if c = CHR ''['' then array_value (json_value levels) r
          else if c = CHR 0x22 then Some (case str r of Inl e \<Rightarrow> Inl e | Inr (s, r') \<Rightarrow> Inr (JString s, r'))
          else if c = CHR ''t'' then Some (case literal ''true'' r of Some r' \<Rightarrow> Inr (JBool True, r') | None \<Rightarrow> Inl ''bad literal'')
          else if c = CHR ''f'' then Some (case literal ''false'' r of Some r' \<Rightarrow> Inr (JBool False, r') | None \<Rightarrow> Inl ''bad literal'')
          else if c = CHR ''n'' then Some (case literal ''null'' r of Some r' \<Rightarrow> Inr (JNull, r') | None \<Rightarrow> Inl ''bad literal'')
          else Some (number r))"

definition json_parse :: "string \<Rightarrow> (string + Json) option" where
  "json_parse text =
     (case json_value 33 text of
        None \<Rightarrow> None
      | Some (Inl e) \<Rightarrow> Some (Inl e)
      | Some (Inr (j, r)) \<Rightarrow> if skip r \<noteq> [] then Some (Inl ''trailing characters'') else Some (Inr j))"

end
