(* ===== verification/Config_File.thy ===== *)
theory Config_File
  imports Json_Reader Broker_Config
begin

text \<open>
  The configuration file of the standalone server, \<^verbatim>\<open>include/config_file.hpp\<close> and \<^verbatim>\<open>src/config_file.cpp\<close>. A section reads its fields
  one by one, remembers which it looked up, and rejects what is left over. An exception is an error value; the
  values in an error are those its message is made of. The file system is the argument of
  \<open>apply_config_file\<close>.
\<close>

section \<open>Sections\<close>

datatype ConfigError =
    NotAnObject string
  | BadInteger string string nat nat
  | BadNumber string string real real
  | BadBool string string
  | BadString string string nat
  | Required string string
  | UnknownField string string
  | BadField string string
  | BadSchema MlError
  | BadJson string
  | DocumentTooLarge
  | FileNotFound string
  | FileUnreadable
  | InFile string ConfigError

text \<open>\<^verbatim>\<open>seen_\<close> is a set of keys.\<close>

record Section =
  sec_object :: "(string \<times> Json) list"
  sec_path :: string
  sec_seen :: "string list"

definition make_Section :: "Json \<Rightarrow> string \<Rightarrow> ConfigError + Section" where
  "make_Section j path = (case j of JObject m \<Rightarrow> Inr \<lparr>sec_object = m, sec_path = path, sec_seen = []\<rparr> | _ \<Rightarrow> Inl (NotAnObject path))"

definition sec_find :: "string \<Rightarrow> Section \<Rightarrow> Json option \<times> Section" where
  "sec_find key s = (map_of (sec_object s) key, s\<lparr>sec_seen := List.insert key (sec_seen s)\<rparr>)"

definition sec_has :: "string \<Rightarrow> Section \<Rightarrow> bool \<times> Section" where
  "sec_has key s = (case sec_find key s of (v, s') \<Rightarrow> (v \<noteq> None, s'))"

definition sec_is_null :: "string \<Rightarrow> Section \<Rightarrow> bool \<times> Section" where
  "sec_is_null key s = (case sec_find key s of (v, s') \<Rightarrow> (v = Some JNull, s'))"

definition unsigned_value :: "string \<Rightarrow> nat \<Rightarrow> nat \<Rightarrow> Section \<Rightarrow> ConfigError + nat \<times> Section" where
  "unsigned_value key low high s =
     (case sec_find key s of
        (Some (JInt i), s') \<Rightarrow> if i < 0 \<or> nat i < low \<or> high < nat i then Inl (BadInteger (sec_path s) key low high) else Inr (nat i, s')
      | _ \<Rightarrow> Inl (BadInteger (sec_path s) key low high))"

text \<open>
  A statement that reads a field into a record is a function on the section and the record. The
  value is stored with the given update.
\<close>

type_synonym 'c step = "Section \<times> 'c \<Rightarrow> ConfigError + Section \<times> 'c"

fun steps :: "'c step list \<Rightarrow> 'c step" where
  "steps [] x = Inr x"
| "steps (f # fs) x = (case f x of Inl e \<Rightarrow> Inl e | Inr y \<Rightarrow> steps fs y)"

definition sec_read :: "string \<Rightarrow> nat \<Rightarrow> nat \<Rightarrow> (nat \<Rightarrow> 'c \<Rightarrow> 'c) \<Rightarrow> 'c step" where
  "sec_read key low high upd = (\<lambda>(s, c).
     case sec_has key s of (present, s1) \<Rightarrow>
       if present then (case unsigned_value key low high s1 of Inl e \<Rightarrow> Inl e | Inr (v, s2) \<Rightarrow> Inr (s2, upd v c)) else Inr (s1, c))"

definition year_ms :: nat where
  "year_ms = 365 * 24 * 3600 * 1000"

definition read_ms :: "string \<Rightarrow> nat \<Rightarrow> (millis \<Rightarrow> 'c \<Rightarrow> 'c) \<Rightarrow> 'c step" where
  "read_ms key low upd = sec_read key low year_ms (\<lambda>v. upd (int v))"

definition read_double :: "string \<Rightarrow> real \<Rightarrow> real \<Rightarrow> (real \<Rightarrow> 'c \<Rightarrow> 'c) \<Rightarrow> 'c step" where
  "read_double key low high upd = (\<lambda>(s, c).
     case sec_has key s of (present, s1) \<Rightarrow>
       if \<not> present then Inr (s1, c)
       else case sec_find key s1 of (v, s2) \<Rightarrow>
         (case Option.bind v json_number_of of
            Some n \<Rightarrow> if n < low \<or> high < n then Inl (BadNumber (sec_path s) key low high) else Inr (s2, upd n c)
          | None \<Rightarrow> Inl (BadNumber (sec_path s) key low high)))"

definition read_bool :: "string \<Rightarrow> (bool \<Rightarrow> 'c \<Rightarrow> 'c) \<Rightarrow> 'c step" where
  "read_bool key upd = (\<lambda>(s, c).
     case sec_has key s of (present, s1) \<Rightarrow>
       if \<not> present then Inr (s1, c)
       else case sec_find key s1 of
           (Some (JBool b), s2) \<Rightarrow> Inr (s2, upd b c)
         | _ \<Rightarrow> Inl (BadBool (sec_path s) key))"

definition sec_string :: "string \<Rightarrow> nat \<Rightarrow> Section \<Rightarrow> ConfigError + string \<times> Section" where
  "sec_string key max_bytes s =
     (case sec_find key s of
        (Some (JString v), s') \<Rightarrow> if v = [] \<or> max_bytes < length v then Inl (BadString (sec_path s) key max_bytes) else Inr (v, s')
      | _ \<Rightarrow> Inl (BadString (sec_path s) key max_bytes))"

text \<open>A required string, and one that may be absent.\<close>

definition need_string :: "string \<Rightarrow> nat \<Rightarrow> (string \<Rightarrow> 'c \<Rightarrow> ConfigError + 'c) \<Rightarrow> 'c step" where
  "need_string key max_bytes upd = (\<lambda>(s, c).
     case sec_string key max_bytes s of Inl e \<Rightarrow> Inl e | Inr (v, s') \<Rightarrow> (case upd v c of Inl e \<Rightarrow> Inl e | Inr c' \<Rightarrow> Inr (s', c')))"

definition when_has :: "string \<Rightarrow> 'c step \<Rightarrow> 'c step" where
  "when_has key f = (\<lambda>(s, c). case sec_has key s of (present, s1) \<Rightarrow> if present then f (s1, c) else Inr (s1, c))"

definition read_string :: "string \<Rightarrow> (string \<Rightarrow> 'c \<Rightarrow> 'c) \<Rightarrow> 'c step" where
  "read_string key upd = when_has key (need_string key 4096 (\<lambda>v c. Inr (upd v c)))"

definition sec_child :: "string \<Rightarrow> Section \<Rightarrow> ConfigError + Section \<times> Section" where
  "sec_child key s =
     (case sec_find key s of
        (None, s') \<Rightarrow> Inl (Required (sec_path s) key)
      | (Some v, s') \<Rightarrow> (case make_Section v (sec_path s @ ''.'' @ key) of Inl e \<Rightarrow> Inl e | Inr ch \<Rightarrow> Inr (ch, s')))"

definition sec_raw :: "string \<Rightarrow> Section \<Rightarrow> ConfigError + Json \<times> Section" where
  "sec_raw key s = (case sec_find key s of (None, s') \<Rightarrow> Inl (Required (sec_path s) key) | (Some v, s') \<Rightarrow> Inr (v, s'))"

definition sec_finish :: "Section \<Rightarrow> ConfigError + unit" where
  "sec_finish s =
     (case filter (\<lambda>k. k \<notin> set (sec_seen s)) (map fst (sec_object s)) of
        [] \<Rightarrow> Inr ()
      | key # _ \<Rightarrow> Inl (UnknownField (sec_path s) key))"

text \<open>Reading a whole section: its statements, then \<^verbatim>\<open>finish\<close>.\<close>

definition read_section :: "'c step list \<Rightarrow> Section \<Rightarrow> 'c \<Rightarrow> ConfigError + 'c" where
  "read_section fs s c =
     (case steps fs (s, c) of
        Inl e \<Rightarrow> Inl e
      | Inr (s', c') \<Rightarrow> (case sec_finish s' of Inl e \<Rightarrow> Inl e | Inr _ \<Rightarrow> Inr c'))"

text \<open>A child section that is read by \<open>f\<close>.\<close>

definition with_child :: "string \<Rightarrow> (Section \<Rightarrow> 'c \<Rightarrow> ConfigError + 'c) \<Rightarrow> 'c step" where
  "with_child key f = (\<lambda>(s, c).
     case sec_child key s of Inl e \<Rightarrow> Inl e | Inr (ch, s') \<Rightarrow> (case f ch c of Inl e \<Rightarrow> Inl e | Inr c' \<Rightarrow> Inr (s', c')))"

text \<open>An optional child section; \<^verbatim>\<open>null\<close> clears the setting.\<close>

definition child_or_null :: "string \<Rightarrow> ('c \<Rightarrow> 'c) \<Rightarrow> 'c step \<Rightarrow> 'c step" where
  "child_or_null key clear f = when_has key (\<lambda>(s, c). case sec_is_null key s of (null, s1) \<Rightarrow> if null then Inr (s1, clear c) else f (s1, c))"

section \<open>The broker section\<close>

fun weight_list :: "Json list \<Rightarrow> nat list option" where
  "weight_list [] = Some []"
| "weight_list (j # js) =
     (case j of JInt w \<Rightarrow> if w < 1 \<or> 1000 < w then None else map_option ((#) (nat w)) (weight_list js) | _ \<Rightarrow> None)"

definition read_weights :: "HarbingerConfig step" where
  "read_weights = (\<lambda>(s, c).
     case sec_raw ''level_weights'' s of
       Inl e \<Rightarrow> Inl e
     | Inr (JArray js, s') \<Rightarrow>
         if js = [] \<or> 255 < length js then Inl (BadField (sec_path s) ''level_weights must be an array of 1 to 255 integers'')
         else (case weight_list js of None \<Rightarrow> Inl (BadField (sec_path s) ''level_weights entries must be integers in [1, 1000]'')
           | Some w \<Rightarrow> Inr (s', c\<lparr>hc_level_weights := Some w\<rparr>))
     | Inr (_, s') \<Rightarrow> Inl (BadField (sec_path s) ''level_weights must be an array of 1 to 255 integers''))"

definition apply_aging :: "Section \<Rightarrow> HarbingerConfig \<Rightarrow> ConfigError + HarbingerConfig" where
  "apply_aging a c =
     map_sum id (\<lambda>ag. c\<lparr>hc_aging := Some ag\<rparr>)
       (read_section
         [read_ms ''threshold_ms'' 1 (\<lambda>v ag. ag\<lparr>ag_threshold := v\<rparr>),
          read_ms ''interval_ms'' 1 (\<lambda>v ag. ag\<lparr>ag_interval := v\<rparr>),
          read_bool ''pause_when_behind'' (\<lambda>v ag. ag\<lparr>ag_pause_when_behind := Some v\<rparr>)]
         a (case hc_aging c of Some ag \<Rightarrow> ag | None \<Rightarrow> default_aging))"

definition apply_broker :: "Section \<Rightarrow> HarbingerConfig \<Rightarrow> ConfigError + HarbingerConfig" where
  "apply_broker = read_section
     [sec_read ''num_levels'' 1 255 (\<lambda>v c. c\<lparr>hc_num_levels := v\<rparr>),
      sec_read ''default_priority'' 0 254 (\<lambda>v c. c\<lparr>hc_default_priority := v\<rparr>),
      sec_read ''default_max_retries'' 1 1000000 (\<lambda>v c. c\<lparr>hc_default_max_retries := v\<rparr>),
      read_ms ''default_ttl_ms'' 0 (\<lambda>v c. c\<lparr>hc_default_ttl := v\<rparr>),
      read_ms ''max_pull_wait_ms'' 1 (\<lambda>v c. c\<lparr>hc_max_pull_wait := v\<rparr>),
      read_ms ''ttl_sweep_interval_ms'' 0 (\<lambda>v c. c\<lparr>hc_ttl_sweep_interval := v\<rparr>),
      read_ms ''delivery_lease_ms'' 1 (\<lambda>v c. c\<lparr>hc_delivery_lease := v\<rparr>),
      read_ms ''lease_sweep_interval_ms'' 1 (\<lambda>v c. c\<lparr>hc_lease_sweep_interval := v\<rparr>),
      read_ms ''completion_retention_ms'' 1 (\<lambda>v c. c\<lparr>hc_completion_retention := v\<rparr>),
      sec_read ''completion_cache_max_entries'' 1 (2 ^ 30) (\<lambda>v c. c\<lparr>hc_completion_cache_max_entries := v\<rparr>),
      sec_read ''maintenance_batch_size'' 1 (2 ^ 20) (\<lambda>v c. c\<lparr>hc_maintenance_batch_size := v\<rparr>),
      child_or_null ''level_weights'' (\<lambda>c. c\<lparr>hc_level_weights := None\<rparr>) read_weights,
      child_or_null ''aging'' (\<lambda>c. c\<lparr>hc_aging := None\<rparr>) (with_child ''aging'' apply_aging)]"

section \<open>The features section\<close>

definition default_HeaderFeature :: HeaderFeature where
  "default_HeaderFeature = \<lparr>hf_name = [], hf_type = Numeric, hf_minimum = Finite 0, hf_maximum = Finite 0,
     hf_encoding = Vocabulary, hf_vocabulary = []\<rparr>"

fun strings_of :: "Json list \<Rightarrow> string list option" where
  "strings_of [] = Some []"
| "strings_of (j # js) = (case json_string j of None \<Rightarrow> None | Some v \<Rightarrow> map_option ((#) v) (strings_of js))"

definition read_vocabulary :: "HeaderFeature step" where
  "read_vocabulary = (\<lambda>(h, f).
     case sec_raw ''vocabulary'' h of
       Inl e \<Rightarrow> Inl e
     | Inr (JArray js, h') \<Rightarrow>
         if kMaxVocabulary < length js then Inl (BadField (sec_path h) ''vocabulary must be an array of strings'')
         else (case strings_of js of None \<Rightarrow> Inl (BadField (sec_path h) ''vocabulary must contain only strings'')
           | Some vs \<Rightarrow> Inr (h', f\<lparr>hf_vocabulary := hf_vocabulary f @ vs\<rparr>))
     | Inr (_, h') \<Rightarrow> Inl (BadField (sec_path h) ''vocabulary must be an array of strings''))"

text \<open>The local \<^verbatim>\<open>encoding\<close>, "vocabulary" unless the field is present.\<close>

definition read_encoding :: "HeaderFeature step" where
  "read_encoding = (\<lambda>(h, f).
     case read_string ''encoding'' (\<lambda>v _. v) (h, ''vocabulary'') of
       Inl e \<Rightarrow> Inl e
     | Inr (h', encoding) \<Rightarrow>
         if encoding = ''hash'' then Inr (h', f\<lparr>hf_encoding := Hash\<rparr>)
         else if encoding \<noteq> ''vocabulary'' then Inl (BadField (sec_path h) ''encoding must be vocabulary or hash'')
         else Inr (h', f))"

definition read_typed :: "HeaderFeature step" where
  "read_typed = (\<lambda>(h, f).
     case sec_string ''type'' 4096 h of
       Inl e \<Rightarrow> Inl e
     | Inr (type, h') \<Rightarrow>
         if type = ''numeric'' then
           steps [read_double ''minimum'' (- (10 ^ 300)) (10 ^ 300) (\<lambda>v f. f\<lparr>hf_minimum := Finite v\<rparr>),
                  read_double ''maximum'' (- (10 ^ 300)) (10 ^ 300) (\<lambda>v f. f\<lparr>hf_maximum := Finite v\<rparr>)]
             (h', f\<lparr>hf_type := Numeric\<rparr>)
         else if type = ''categorical'' then
           steps [read_encoding, when_has ''vocabulary'' read_vocabulary] (h', f\<lparr>hf_type := Categorical\<rparr>)
         else Inl (BadField (sec_path h) ''type must be numeric or categorical''))"

definition read_header :: "nat \<Rightarrow> Json \<Rightarrow> ConfigError + HeaderFeature" where
  "read_header i j =
     (case make_Section j (''features.headers['' @ nat_to_string i @ '']'') of
        Inl e \<Rightarrow> Inl e
      | Inr h \<Rightarrow> read_section [need_string ''name'' kMaxKeyBytes (\<lambda>v f. Inr (f\<lparr>hf_name := v\<rparr>)), read_typed] h default_HeaderFeature)"

fun read_headers :: "nat \<Rightarrow> Json list \<Rightarrow> ConfigError + HeaderFeature list" where
  "read_headers i [] = Inr []"
| "read_headers i (j # js) =
     (case read_header i j of
        Inl e \<Rightarrow> Inl e
      | Inr f \<Rightarrow> (case read_headers (i + 1) js of Inl e \<Rightarrow> Inl e | Inr fs \<Rightarrow> Inr (f # fs)))"

definition read_header_list :: "IngressFeatureConfig step" where
  "read_header_list = (\<lambda>(s, f).
     case sec_raw ''headers'' s of
       Inl e \<Rightarrow> Inl e
     | Inr (JArray js, s') \<Rightarrow>
         if kMaxHeaders < length js then Inl (BadField (sec_path s) ''headers must be an array of at most 16 objects'')
         else (case read_headers 0 js of Inl e \<Rightarrow> Inl e
           | Inr fs \<Rightarrow> Inr (s', f\<lparr>ic_schema := (ic_schema f)\<lparr>fs_headers := fs\<rparr>\<rparr>))
     | Inr (_, s') \<Rightarrow> Inl (BadField (sec_path s) ''headers must be an array of at most 16 objects''))"

definition apply_features :: "Section \<Rightarrow> HarbingerConfig \<Rightarrow> ConfigError + HarbingerConfig" where
  "apply_features s c =
     (case read_section
         [need_string ''schema_version'' 128 (\<lambda>v f. Inr (f\<lparr>ic_schema := (ic_schema f)\<lparr>fs_version := v\<rparr>\<rparr>)),
          need_string ''routing_policy_version'' 128 (\<lambda>v f. Inr (f\<lparr>ic_routing_policy_version := v\<rparr>)),
          when_has ''headers'' read_header_list]
         s \<lparr>ic_schema = \<lparr>fs_version = [], fs_headers = []\<rparr>, ic_routing_policy_version = []\<rparr> of
        Inl e \<Rightarrow> Inl e
      | Inr f \<Rightarrow>
          (case FeatureExtractor (ic_schema f) of
             Inl e \<Rightarrow> Inl (BadSchema e)
           | Inr _ \<Rightarrow> Inr (c\<lparr>hc_ingress_features := Some f\<rparr>)))"

section \<open>The feedback section\<close>

definition default_FeedbackConfig :: FeedbackConfig where
  "default_FeedbackConfig = \<lparr>fc_path = [], fc_buffer_records = 4096, fc_buffer_bytes = 32 * 1024 * 1024, fc_max_event_bytes = 16384,
     fc_segment_bytes = 64 * 1024 * 1024, fc_retention_bytes = 1024 * 1024 * 1024, fc_retention_age = 7 * 24 * 3600 * 1000,
     fc_sync_interval = 1000, fc_shutdown_drain = 1000, fc_max_segments = 256\<rparr>"

definition apply_feedback :: "Section \<Rightarrow> HarbingerConfig \<Rightarrow> ConfigError + HarbingerConfig" where
  "apply_feedback s c =
     map_sum id (\<lambda>f. c\<lparr>hc_feedback := Some f\<rparr>)
       (read_section
         [need_string ''directory'' 4096 (\<lambda>v f. Inr (f\<lparr>fc_path := v\<rparr>)),
          sec_read ''buffer_records'' 1 (2 ^ 24) (\<lambda>v f. f\<lparr>fc_buffer_records := v\<rparr>),
          sec_read ''buffer_bytes'' 1 (2 ^ 34) (\<lambda>v f. f\<lparr>fc_buffer_bytes := v\<rparr>),
          sec_read ''segment_bytes'' 1 (2 ^ 34) (\<lambda>v f. f\<lparr>fc_segment_bytes := v\<rparr>),
          sec_read ''retention_bytes'' 1 (2 ^ 44) (\<lambda>v f. f\<lparr>fc_retention_bytes := v\<rparr>),
          sec_read ''max_segments'' 1 (2 ^ 20) (\<lambda>v f. f\<lparr>fc_max_segments := v\<rparr>),
          read_ms ''retention_age_ms'' 1 (\<lambda>v f. f\<lparr>fc_retention_age := v\<rparr>),
          read_ms ''sync_interval_ms'' 1 (\<lambda>v f. f\<lparr>fc_sync_interval := v\<rparr>),
          read_ms ''shutdown_drain_ms'' 1 (\<lambda>v f. f\<lparr>fc_shutdown_drain := v\<rparr>)]
         s default_FeedbackConfig)"

section \<open>The routing section\<close>

definition read_summary :: "PerKeyPredictorConfig step" where
  "read_summary = (\<lambda>(s, p).
     case sec_string ''summary'' 4096 s of
       Inl e \<Rightarrow> Inl e
     | Inr (v, s') \<Rightarrow>
         if v = ''median'' then Inr (s', p\<lparr>pc_summary := Median\<rparr>)
         else if v = ''p75'' then Inr (s', p\<lparr>pc_summary := P75\<rparr>)
         else if v = ''mean'' then Inr (s', p\<lparr>pc_summary := Mean\<rparr>)
         else Inl (BadField (sec_path s) ''summary must be median, p75 or mean''))"

definition apply_predictor :: "Section \<Rightarrow> PerKeyPredictorConfig \<Rightarrow> ConfigError + PerKeyPredictorConfig" where
  "apply_predictor = read_section
     [when_has ''summary'' read_summary,
      sec_read ''min_samples'' 1 (2 ^ 30) (\<lambda>v p. p\<lparr>pc_min_samples := v\<rparr>),
      read_double ''spread_quantile'' 0.5 1 (\<lambda>v p. p\<lparr>pc_spread_quantile := Finite v\<rparr>),
      read_double ''max_spread_ratio'' 1 (10 ^ 9) (\<lambda>v p. p\<lparr>pc_max_spread_ratio := Finite v\<rparr>),
      read_double ''max_censored_fraction'' 0 1 (\<lambda>v p. p\<lparr>pc_max_censored_fraction := Finite v\<rparr>),
      read_double ''decay'' (1 / 10 ^ 9) 1 (\<lambda>v p. p\<lparr>pc_decay := Finite v\<rparr>),
      read_double ''global_decay'' (1 / 10 ^ 9) 1 (\<lambda>v p. p\<lparr>pc_global_decay := Finite v\<rparr>),
      read_ms ''time_half_life_ms'' 0 (\<lambda>v p. p\<lparr>pc_time_half_life := v\<rparr>),
      read_ms ''stale_after_ms'' 0 (\<lambda>v p. p\<lparr>pc_stale_after := v\<rparr>),
      sec_read ''histogram_bins'' 8 1024 (\<lambda>v p. p\<lparr>pc_histogram_bins := v\<rparr>),
      read_double ''min_ms'' (1 / 10 ^ 6) (10 ^ 12) (\<lambda>v p. p\<lparr>pc_min_ms := Finite v\<rparr>),
      read_double ''max_ms'' (1 / 10 ^ 6) (10 ^ 12) (\<lambda>v p. p\<lparr>pc_max_ms := Finite v\<rparr>),
      sec_read ''max_keys'' 1 (2 ^ 24) (\<lambda>v p. p\<lparr>pc_max_keys := v\<rparr>),
      sec_read ''shards'' 1 256 (\<lambda>v p. p\<lparr>pc_shards := v\<rparr>),
      read_ms ''idle_eviction_ms'' 0 (\<lambda>v p. p\<lparr>pc_idle_eviction := v\<rparr>),
      read_ms ''cold_eviction_grace_ms'' 0 (\<lambda>v p. p\<lparr>pc_cold_eviction_grace := v\<rparr>),
      sec_read ''boundary_refresh_every'' 1 (2 ^ 30) (\<lambda>v p. p\<lparr>pc_boundary_refresh_every := v\<rparr>),
      sec_read ''global_min_samples'' 0 (2 ^ 30) (\<lambda>v p. p\<lparr>pc_global_min_samples := v\<rparr>),
      read_double ''hysteresis'' 0 0.999 (\<lambda>v p. p\<lparr>pc_hysteresis := Finite v\<rparr>)]"

definition read_job_header :: "PredictorKeyPolicy step" where
  "read_job_header = child_or_null ''job_header'' (\<lambda>k. k\<lparr>kp_job_header := []\<rparr>)
     (need_string ''job_header'' kMaxKeyBytes (\<lambda>v k. Inr (k\<lparr>kp_job_header := v\<rparr>)))"

definition read_size_source :: "PredictorKeyPolicy step" where
  "read_size_source = (\<lambda>(s, k).
     case sec_string ''size_source'' 4096 s of
       Inl e \<Rightarrow> Inl e
     | Inr (v, s') \<Rightarrow>
         if v = ''none'' then Inr (s', k\<lparr>kp_size_source := SizeNone\<rparr>)
         else if v = ''payload'' then Inr (s', k\<lparr>kp_size_source := SizePayload\<rparr>)
         else if v = ''header'' then Inr (s', k\<lparr>kp_size_source := SizeHeader\<rparr>)
         else Inl (BadField (sec_path s) ''size_source must be none, payload or header''))"

definition apply_key :: "Section \<Rightarrow> PredictorKeyPolicy \<Rightarrow> ConfigError + PredictorKeyPolicy" where
  "apply_key = read_section
     [read_job_header,
      read_bool ''scope_by_producer'' (\<lambda>v k. k\<lparr>kp_scope_by_producer := v\<rparr>),
      when_has ''size_source'' read_size_source,
      when_has ''size_header'' (need_string ''size_header'' kMaxKeyBytes (\<lambda>v k. Inr (k\<lparr>kp_size_header := v\<rparr>)))]"

definition apply_snapshot :: "Section \<Rightarrow> PredictiveRoutingConfig \<Rightarrow> ConfigError + PredictiveRoutingConfig" where
  "apply_snapshot = read_section
     [need_string ''path'' 4096 (\<lambda>v r. Inr (r\<lparr>pr_snapshot_path := Some v\<rparr>)),
      read_ms ''interval_ms'' 1 (\<lambda>v r. r\<lparr>pr_snapshot_interval := v\<rparr>)]"

definition default_PredictorKeyPolicy :: PredictorKeyPolicy where
  "default_PredictorKeyPolicy = \<lparr>kp_job_header = ''job_type'', kp_scope_by_producer = True, kp_producer_header = ''__producer_id'',
     kp_size_source = SizeNone, kp_size_header = []\<rparr>"

definition default_PerKeyPredictorConfig :: PerKeyPredictorConfig where
  "default_PerKeyPredictorConfig = \<lparr>pc_num_levels = 3, pc_default_priority = 1, pc_summary = Median, pc_min_samples = 20,
     pc_spread_quantile = Finite 0.99, pc_max_spread_ratio = Finite 16, pc_max_censored_fraction = Finite 0.05,
     pc_decay = Finite 0.995, pc_global_decay = Finite 0.9999, pc_time_half_life = 600000, pc_stale_after = 1800000,
     pc_histogram_bins = 48, pc_min_ms = Finite 1, pc_max_ms = Finite 600000, pc_max_keys = 16384, pc_shards = 16,
     pc_idle_eviction = 600000, pc_cold_eviction_grace = 30000, pc_boundary_refresh_every = 256, pc_global_min_samples = 100,
     pc_hysteresis = Finite 0.1\<rparr>"

definition default_PredictiveRoutingConfig :: PredictiveRoutingConfig where
  "default_PredictiveRoutingConfig = \<lparr>pr_mode = Shadow, pr_key = default_PredictorKeyPolicy,
     pr_predictor = default_PerKeyPredictorConfig, pr_routing_policy_version = ''per-key-v2'', pr_snapshot_path = None,
     pr_snapshot_interval = 60000\<rparr>"

definition read_mode :: "PredictiveRoutingConfig step" where
  "read_mode = (\<lambda>(s, r).
     case sec_string ''mode'' 4096 s of
       Inl e \<Rightarrow> Inl e
     | Inr (v, s') \<Rightarrow>
         if v = ''shadow'' then Inr (s', r\<lparr>pr_mode := Shadow\<rparr>)
         else if v = ''predictive'' then Inr (s', r\<lparr>pr_mode := Predictive\<rparr>)
         else Inl (BadField (sec_path s) ''mode must be shadow or predictive (omit the routing section for static routing)''))"

definition apply_routing :: "Section \<Rightarrow> HarbingerConfig \<Rightarrow> ConfigError + HarbingerConfig" where
  "apply_routing s c =
     map_sum id (\<lambda>r. c\<lparr>hc_predictive_routing := Some r\<rparr>)
       (read_section
         [read_mode,
          read_string ''routing_policy_version'' (\<lambda>v r. r\<lparr>pr_routing_policy_version := v\<rparr>),
          when_has ''key'' (with_child ''key'' (\<lambda>k r. map_sum id (\<lambda>v. r\<lparr>pr_key := v\<rparr>) (apply_key k (pr_key r)))),
          when_has ''predictor''
            (with_child ''predictor'' (\<lambda>p r. map_sum id (\<lambda>v. r\<lparr>pr_predictor := v\<rparr>) (apply_predictor p (pr_predictor r)))),
          when_has ''snapshot'' (with_child ''snapshot'' apply_snapshot)]
         s default_PredictiveRoutingConfig)"

section \<open>Documents and files\<close>

record ServerSettings =
  ss_listen_address :: string
  ss_stats_interval :: millis

definition default_ServerSettings :: ServerSettings where
  "default_ServerSettings = \<lparr>ss_listen_address = ''0.0.0.0:50051'', ss_stats_interval = 0\<rparr>"

definition default_HarbingerConfig :: HarbingerConfig where
  "default_HarbingerConfig = \<lparr>hc_num_levels = 3, hc_aging = None, hc_default_max_retries = 3, hc_default_ttl = 0,
     hc_default_priority = 1, hc_max_pull_wait = 5000, hc_ttl_sweep_interval = 100, hc_delivery_lease = 30000,
     hc_lease_sweep_interval = 100, hc_completion_retention = 60000, hc_completion_cache_max_entries = 10000,
     hc_maintenance_batch_size = 256, hc_ingress_features = None, hc_feedback = None, hc_predictive_routing = None,
     hc_level_weights = None\<rparr>"

definition kMaxConfigFileBytes :: nat where
  "kMaxConfigFileBytes = 1024 * 1024"

text \<open>A document changes the pair of the two settings structures, or neither.\<close>

type_synonym settings = "HarbingerConfig \<times> ServerSettings"

definition on_config :: "(Section \<Rightarrow> HarbingerConfig \<Rightarrow> ConfigError + HarbingerConfig) \<Rightarrow> Section \<Rightarrow> settings \<Rightarrow> ConfigError + settings" where
  "on_config f s = (\<lambda>(c, server). map_sum id (\<lambda>c'. (c', server)) (f s c))"

definition read_version :: "settings step" where
  "read_version = (\<lambda>(s, c).
     case sec_has ''config_version'' s of (present, s1) \<Rightarrow>
       if \<not> present then Inl (BadField (sec_path s) ''config_version must be 1'')
       else case unsigned_value ''config_version'' 1 1 s1 of
           Inl e \<Rightarrow> Inl e
         | Inr (v, s2) \<Rightarrow> if v \<noteq> 1 then Inl (BadField (sec_path s) ''config_version must be 1'') else Inr (s2, c))"

definition apply_root :: "Section \<Rightarrow> settings \<Rightarrow> ConfigError + settings" where
  "apply_root = read_section
     [read_version,
      read_string ''listen'' (\<lambda>v (c, server). (c, server\<lparr>ss_listen_address := v\<rparr>)),
      read_ms ''stats_interval_ms'' 0 (\<lambda>v (c, server). (c, server\<lparr>ss_stats_interval := v\<rparr>)),
      when_has ''broker'' (with_child ''broker'' (on_config apply_broker)),
      child_or_null ''features'' (\<lambda>(c, server). (c\<lparr>hc_ingress_features := None\<rparr>, server))
        (with_child ''features'' (on_config apply_features)),
      child_or_null ''feedback'' (\<lambda>(c, server). (c\<lparr>hc_feedback := None\<rparr>, server))
        (with_child ''feedback'' (on_config apply_feedback)),
      child_or_null ''routing'' (\<lambda>(c, server). (c\<lparr>hc_predictive_routing := None\<rparr>, server))
        (with_child ''routing'' (on_config apply_routing))]"

definition apply_config_document :: "string \<Rightarrow> settings \<Rightarrow> (ConfigError + settings) option" where
  "apply_config_document document x =
     (if kMaxConfigFileBytes < length document then Some (Inl DocumentTooLarge)
      else case json_parse document of
          None \<Rightarrow> None
        | Some (Inl e) \<Rightarrow> Some (Inl (BadJson e))
        | Some (Inr j) \<Rightarrow>
            Some (case make_Section j ''config'' of Inl e \<Rightarrow> Inl e | Inr s \<Rightarrow> apply_root s x))"

text \<open>
  What the file system tells of a path: whether it is a regular file, its size unless that fails, and the text
  of that many bytes unless reading fails.
\<close>

record ConfigFile =
  cf_regular :: bool
  cf_size :: "nat option"
  cf_text :: "string option"

definition apply_config_file :: "(string \<Rightarrow> ConfigFile) \<Rightarrow> string \<Rightarrow> settings \<Rightarrow> (ConfigError + settings) option" where
  "apply_config_file files path x =
     (if \<not> cf_regular (files path) then Some (Inl (FileNotFound path))
      else case cf_size (files path) of
          None \<Rightarrow> Some (Inl FileUnreadable)
        | Some n \<Rightarrow>
            if kMaxConfigFileBytes < n then Some (Inl FileUnreadable)
            else case cf_text (files path) of
                None \<Rightarrow> Some (Inl FileUnreadable)
              | Some t \<Rightarrow>
                  (case apply_config_document t x of
                     None \<Rightarrow> None
                   | Some (Inl e) \<Rightarrow> Some (Inl (InFile path e))
                   | Some (Inr y) \<Rightarrow> Some (Inr y)))"

section \<open>The summary line\<close>

fun join_weights :: "string \<Rightarrow> nat list \<Rightarrow> string" where
  "join_weights text [] = text"
| "join_weights text (w # ws) = join_weights (text @ (if text = [] then [] else ''/'') @ nat_to_string w) ws"

definition describe_routing :: "PredictiveRoutingConfig \<Rightarrow> string" where
  "describe_routing r =
     (if pr_mode r = Predictive then ''predictive'' else ''shadow'') @ '' policy='' @ pr_routing_policy_version r @
     '' key='' @ (if kp_scope_by_producer (pr_key r) then ''producer'' else []) @
     (if kp_job_header (pr_key r) = [] then [] else ''+'' @ kp_job_header (pr_key r)) @
     (case kp_size_source (pr_key r) of SizePayload \<Rightarrow> ''+size(payload)'' | SizeHeader \<Rightarrow> ''+size('' @ kp_size_header (pr_key r) @ '')'' | SizeNone \<Rightarrow> []) @
     '' snapshot='' @ (case pr_snapshot_path r of Some p \<Rightarrow> p | None \<Rightarrow> ''off'')"

definition describe_config :: "HarbingerConfig \<Rightarrow> ServerSettings \<Rightarrow> string" where
  "describe_config c server =
     ''listen='' @ ss_listen_address server @ '' levels='' @ nat_to_string (hc_num_levels c) @
     '' default_priority='' @ nat_to_string (hc_default_priority c) @ '' max_retries='' @ nat_to_string (hc_default_max_retries c) @
     '' default_ttl_ms='' @ int_to_string (hc_default_ttl c) @ '' aging='' @
     (case hc_aging c of
        None \<Rightarrow> ''off''
      | Some a \<Rightarrow> int_to_string (ag_threshold a) @ ''/'' @ int_to_string (ag_interval a) @ ''ms'' @
          (if (case ag_pause_when_behind a of Some b \<Rightarrow> b | None \<Rightarrow> hc_level_weights c \<noteq> None) then ''(pausing)'' else [])) @
     '' level_weights='' @ (case hc_level_weights c of None \<Rightarrow> ''off'' | Some w \<Rightarrow> join_weights [] w) @
     '' delivery_lease_ms='' @ int_to_string (hc_delivery_lease c) @
     '' features='' @ (case hc_ingress_features c of Some f \<Rightarrow> fs_version (ic_schema f) | None \<Rightarrow> ''off'') @
     '' feedback='' @ (case hc_feedback c of Some f \<Rightarrow> fc_path f | None \<Rightarrow> ''off'') @
     '' routing='' @ (case hc_predictive_routing c of None \<Rightarrow> ''static'' | Some r \<Rightarrow> describe_routing r) @
     '' stats_interval_ms='' @ int_to_string (ss_stats_interval server)"

end
