(* ===== verification/Json_Properties.thy ===== *)
theory Json_Properties
  imports Json_Reader
begin

text \<open>
  The language of the JSON reader. It terminates on every text; it accepts exactly the texts of a
  grammar (blanks, literals, numbers, strings with escapes, arrays, objects without repeated keys, at most 33
  levels), and the value it returns is the one the grammar assigns.
\<close>

section \<open>Termination\<close>

lemma skip_append: "skip (ws @ t) = (if list_all is_blank ws then skip t else skip ws @ t)"
  unfolding skip_def by (induction ws) auto

lemma skip_split: obtains ws where "t = ws @ skip t" and "list_all is_blank ws"
  using takeWhile_dropWhile_id [of is_blank t] set_takeWhileD [of _ is_blank t] unfolding skip_def list_all_iff by metis

lemma skip_head: "skip t = c # r \<Longrightarrow> \<not> is_blank c"
  unfolding skip_def by (metis hd_dropWhile list.distinct(1) list.sel(1))

lemma peek_Inr: "peek t = Inr (c, r) \<longleftrightarrow> skip t = r \<and> r \<noteq> [] \<and> hd r = c"
  by (auto simp: peek_def split: list.splits)

lemma expect_Inr: "expect c t = Inr r \<longleftrightarrow> skip t = c # r"
  by (auto simp: expect_def peek_def split: list.splits)

lemma length_skip: "length (skip t) \<le> length t"
  by (simp add: skip_def length_dropWhile_le)

lemma str_loop_shorter: "str_loop out t = Inr (s, r) \<Longrightarrow> length r < length t"
proof (induction out t rule: str_loop.induct)
  case (2 out c t)
  show ?case
    using "2.prems" "2.IH" escape_shorter by (subst (asm) str_loop.simps) (fastforce split: if_splits list.splits sum.splits)
qed (simp add: str_loop.simps)

lemma str_shorter: "str t = Inr (s, r) \<Longrightarrow> length r < length t"
  using length_skip [of t] by (auto simp: str_def expect_Inr dest!: str_loop_shorter split: sum.splits)

definition good_val :: "(string \<Rightarrow> Json parse option) \<Rightarrow> bool" where
  "good_val val \<longleftrightarrow> (\<forall>t. \<exists>x. val t = Some x \<and> (\<forall>j r. x = Inr (j, r) \<longrightarrow> length r < length t))"

lemma good_valE:
  assumes "good_val val"
  obtains (error) e where "val t = Some (Inl e)" | (parsed) j r where "val t = Some (Inr (j, r))" and "length r < length t"
  using assms unfolding good_val_def by (metis old.sum.exhaust surj_pair)

lemma array_loop_good:
  assumes val: "good_val val"
  shows "\<exists>x. array_loop val out t = Some x \<and> (\<forall>j r. x = Inr (j, r) \<longrightarrow> length r < length t)"
proof (induction "length t" arbitrary: out t rule: less_induct)
  case less
  show ?case
    using val
  proof (cases rule: good_valE [of val t])
    case (error e)
    then show ?thesis by (simp add: array_loop.simps)
  next
    case (parsed v r)
    show ?thesis
    proof (cases "skip r")
      case Nil
      then show ?thesis using parsed by (simp add: array_loop.simps peek_def)
    next
      case (Cons c r')
      then have len: "length r' < length t" using length_skip [of r] parsed(2) by simp
      show ?thesis
      proof (cases "c = CHR '',''")
        case True
        then show ?thesis using parsed Cons less [OF len, of "out @ [v]"] len by (subst array_loop.simps) (force simp: peek_def)
      next
        case False
        then show ?thesis using parsed Cons len length_skip [of "c # r'"]
          by (subst array_loop.simps) (auto simp: peek_def expect_Inr split: sum.splits)
      qed
    qed
  qed
qed

lemma object_loop_good:
  assumes val: "good_val val"
  shows "\<exists>x. object_loop val out t = Some x \<and> (\<forall>j r. x = Inr (j, r) \<longrightarrow> length r < length t)"
proof (induction "length t" arbitrary: out t rule: less_induct)
  case less
  show ?case
  proof (cases "\<exists>key r r1. str t = Inr (key, r) \<and> expect (CHR '':'') r = Inr r1")
    case False
    then show ?thesis by (subst object_loop.simps) (auto split: sum.splits)
  next
    case True
    then obtain key r r1 where r: "str t = Inr (key, r)" "expect (CHR '':'') r = Inr r1" by blast
    have r1: "length r1 < length t" using str_shorter [OF r(1)] r(2) length_skip [of r] by (simp add: expect_Inr)
    show ?thesis
      using val
    proof (cases rule: good_valE [of val r1])
      case (error e)
      then show ?thesis using r by (subst object_loop.simps) simp
    next
      case (parsed v r2)
      show ?thesis
      proof (cases "map_of out key \<noteq> None \<or> skip r2 = []")
        case True
        then show ?thesis using r parsed by (subst object_loop.simps) (auto simp: peek_def)
      next
        case False
        then obtain c r3 where c: "skip r2 = c # r3" and key: "map_of out key = None" by (auto simp: neq_Nil_conv)
        have len: "length r3 < length t" using length_skip [of r2] parsed(2) c r1 by simp
        show ?thesis
        proof (cases "c = CHR '',''")
          case True
          then show ?thesis using r parsed c key less [OF len, of "map_put key v out"] len by (subst object_loop.simps) (force simp: peek_def)
        next
          case False
          then show ?thesis using r parsed c key len length_skip [of "c # r3"]
            by (subst object_loop.simps) (auto simp: peek_def expect_Inr split: sum.splits)
        qed
      qed
    qed
  qed
qed

lemma array_value_good: "good_val val \<Longrightarrow> good_val (array_value val)"
  unfolding good_val_def [of "array_value val"]
proof
  fix t assume val: "good_val val"
  show "\<exists>x. array_value val t = Some x \<and> (\<forall>j r. x = Inr (j, r) \<longrightarrow> length r < length t)"
  proof (cases "\<exists>c r r'. expect (CHR ''['') t = Inr r \<and> peek r = Inr (c, r')")
    case True
    then obtain c r r' where r: "expect (CHR ''['') t = Inr r" "peek r = Inr (c, r')" by blast
    then have "length r' < length t" using length_skip [of t] length_skip [of r] by (auto simp: expect_Inr peek_Inr)
    then show ?thesis using array_loop_good [OF val, of "[]" r'] r by (cases "c = CHR '']''") (force simp: array_value_def)+
  qed (auto simp: array_value_def split: sum.splits)
qed

lemma object_value_good: "good_val val \<Longrightarrow> good_val (object_value val)"
  unfolding good_val_def [of "object_value val"]
proof
  fix t assume val: "good_val val"
  show "\<exists>x. object_value val t = Some x \<and> (\<forall>j r. x = Inr (j, r) \<longrightarrow> length r < length t)"
  proof (cases "\<exists>c r r'. expect (CHR ''{'') t = Inr r \<and> peek r = Inr (c, r')")
    case True
    then obtain c r r' where r: "expect (CHR ''{'') t = Inr r" "peek r = Inr (c, r')" by blast
    then have "length r' < length t" using length_skip [of t] length_skip [of r] by (auto simp: expect_Inr peek_Inr)
    then show ?thesis using object_loop_good [OF val, of "[]" r'] r by (cases "c = CHR ''}''") (force simp: object_value_def)+
  qed (auto simp: object_value_def split: sum.splits)
qed

lemma number_shorter: "number t = Inr (j, r) \<Longrightarrow> length r < length t"
proof -
  assume n: "number t = Inr (j, r)"
  then have "takeWhile number_char t \<noteq> []" "r = dropWhile number_char t"
    by (auto simp: number_def Let_def split: if_splits option.splits FromChars.splits double.splits)
  moreover have "length t = length (takeWhile number_char t) + length (dropWhile number_char t)"
    by (metis length_append takeWhile_dropWhile_id)
  ultimately show ?thesis by simp
qed

lemma literal_shorter: "literal w t = Some r \<Longrightarrow> w \<noteq> [] \<Longrightarrow> length r < length t"
  by (cases t; cases w) (auto simp: literal_def split: if_splits)

lemma json_value_good: "good_val (json_value n)"
proof (induction n)
  case (Suc n)
  show ?case
    unfolding good_val_def
  proof
    fix t
    show "\<exists>x. json_value (Suc n) t = Some x \<and> (\<forall>j r. x = Inr (j, r) \<longrightarrow> length r < length t)"
    proof (cases "peek t")
      case (Inr x)
      then obtain c r where r: "peek t = Inr (c, r)" by (cases x) auto
      then have len: "length r \<le> length t" using length_skip [of t] by (simp add: peek_Inr)
      obtain x1 where x1: "object_value (json_value n) r = Some x1" "\<forall>j r'. x1 = Inr (j, r') \<longrightarrow> length r' < length r"
        using object_value_good [OF Suc] unfolding good_val_def by blast
      obtain x2 where x2: "array_value (json_value n) r = Some x2" "\<forall>j r'. x2 = Inr (j, r') \<longrightarrow> length r' < length r"
        using array_value_good [OF Suc] unfolding good_val_def by blast
      have lit: "\<forall>j r'. (case literal w r of Some r' \<Rightarrow> Inr (v, r') | None \<Rightarrow> Inl e) = Inr (j, r') \<longrightarrow> length r' < length r" if "w \<noteq> []" for w v e
        using literal_shorter [OF _ that, of r] by (auto split: option.splits)
      have st: "\<forall>j r'. (case str r of Inl e \<Rightarrow> Inl e | Inr (s, r') \<Rightarrow> Inr (JString s, r')) = Inr (j, r') \<longrightarrow> length r' < length r"
        using str_shorter [of r] by (auto split: sum.splits)
      have num: "\<forall>j r'. number r = Inr (j, r') \<longrightarrow> length r' < length r" using number_shorter by blast
      consider "c = CHR ''{''" | "c = CHR ''[''" | "c = CHR 0x22" | "c = CHR ''t''" | "c = CHR ''f''" | "c = CHR ''n''"
        | "c \<notin> {CHR ''{'', CHR ''['', CHR 0x22, CHR ''t'', CHR ''f'', CHR ''n''}" by blast
      then have "\<exists>x. json_value (Suc n) t = Some x \<and> (\<forall>j r'. x = Inr (j, r') \<longrightarrow> length r' < length r)"
        using r x1 x2 st num by cases (simp_all, (rule lit, simp)+)
      then show ?thesis using len by (meson order_less_le_trans)
    qed simp
  qed
qed (simp add: good_val_def)

section \<open>Grammar\<close>

definition blanks :: "string \<Rightarrow> bool" where
  "blanks ws = list_all is_blank ws"

definition simple_escapes :: "(char \<times> char) set" where
  "simple_escapes = {(CHR 0x22, CHR 0x22), (CHR 0x5C, CHR 0x5C), (CHR ''/'', CHR ''/''), (CHR ''b'', CHR 0x08), (CHR ''f'', CHR 0x0C),
     (CHR ''n'', CHR 0x0A), (CHR ''r'', CHR 0x0D), (CHR ''t'', CHR 0x09)}"

text \<open>The text between the quotes of a string, and the bytes it denotes.\<close>

inductive str_text :: "string \<Rightarrow> string \<Rightarrow> bool" where
  st_end: "str_text [] []"
| st_char: "32 \<le> byte_of c \<Longrightarrow> c \<noteq> CHR 0x22 \<Longrightarrow> c \<noteq> CHR 0x5C \<Longrightarrow> str_text t s \<Longrightarrow> str_text (c # t) (c # s)"
| st_escape: "(e, b) \<in> simple_escapes \<Longrightarrow> str_text t s \<Longrightarrow> str_text (CHR 0x5C # e # t) (b # s)"
| st_unicode: "length u = 4 \<Longrightarrow> hex_code u = Some code \<Longrightarrow> scalar_value code \<Longrightarrow> str_text t s \<Longrightarrow>
    str_text (CHR 0x5C # CHR ''u'' # u @ t) (utf8_encode code @ s)"

text \<open>A number token denotes an integer when it is one and fits 64 bits, and the value of its decimal text otherwise.\<close>

definition number_text :: "string \<Rightarrow> Json \<Rightarrow> bool" where
  "number_text s j \<longleftrightarrow> s \<noteq> [] \<and> list_all number_char s \<and>
     (case from_chars_int64 s of Some i \<Rightarrow> j = JInt i | None \<Rightarrow> \<exists>v. from_chars_double s = FcValue (Finite v) [] \<and> j = JDouble v)"

inductive json_text :: "nat \<Rightarrow> string \<Rightarrow> Json \<Rightarrow> bool"
  and array_text :: "nat \<Rightarrow> string \<Rightarrow> Json list \<Rightarrow> bool"
  and object_text :: "nat \<Rightarrow> string \<Rightarrow> (string \<times> Json) list \<Rightarrow> bool" where
  jt_null: "blanks ws \<Longrightarrow> json_text (Suc n) (ws @ ''null'') JNull"
| jt_true: "blanks ws \<Longrightarrow> json_text (Suc n) (ws @ ''true'') (JBool True)"
| jt_false: "blanks ws \<Longrightarrow> json_text (Suc n) (ws @ ''false'') (JBool False)"
| jt_number: "blanks ws \<Longrightarrow> number_text s j \<Longrightarrow> json_text (Suc n) (ws @ s) j"
| jt_string: "blanks ws \<Longrightarrow> str_text s v \<Longrightarrow> json_text (Suc n) (ws @ CHR 0x22 # s @ [CHR 0x22]) (JString v)"
| jt_array0: "blanks ws \<Longrightarrow> blanks ws' \<Longrightarrow> json_text (Suc n) (ws @ CHR ''['' # ws' @ '']'') (JArray [])"
| jt_array: "blanks ws \<Longrightarrow> array_text n s vs \<Longrightarrow> json_text (Suc n) (ws @ CHR ''['' # s @ '']'') (JArray vs)"
| jt_object0: "blanks ws \<Longrightarrow> blanks ws' \<Longrightarrow> json_text (Suc n) (ws @ CHR ''{'' # ws' @ ''}'') (JObject [])"
| jt_object: "blanks ws \<Longrightarrow> object_text n s m \<Longrightarrow> distinct (map fst m) \<Longrightarrow>
    json_text (Suc n) (ws @ CHR ''{'' # s @ ''}'') (JObject (fold (\<lambda>(k, v). map_put k v) m []))"
| at_one: "json_text n s v \<Longrightarrow> blanks ws \<Longrightarrow> array_text n (s @ ws) [v]"
| at_more: "json_text n s v \<Longrightarrow> blanks ws \<Longrightarrow> array_text n t vs \<Longrightarrow> array_text n (s @ ws @ CHR '','' # t) (v # vs)"
| ot_one: "blanks ws \<Longrightarrow> str_text k key \<Longrightarrow> blanks ws1 \<Longrightarrow> json_text n s v \<Longrightarrow> blanks ws2 \<Longrightarrow>
    object_text n (ws @ CHR 0x22 # k @ CHR 0x22 # ws1 @ CHR '':'' # s @ ws2) [(key, v)]"
| ot_more: "blanks ws \<Longrightarrow> str_text k key \<Longrightarrow> blanks ws1 \<Longrightarrow> json_text n s v \<Longrightarrow> blanks ws2 \<Longrightarrow> object_text n t m \<Longrightarrow>
    object_text n (ws @ CHR 0x22 # k @ CHR 0x22 # ws1 @ CHR '':'' # s @ ws2 @ CHR '','' # t) ((key, v) # m)"

section \<open>Strings\<close>

lemma hex_code_bound: "length u = 4 \<Longrightarrow> hex_code u = Some code \<Longrightarrow> code < 65536"
proof -
  assume u: "length u = 4" "hex_code u = Some code"
  then obtain a b c d where eq: "u = [a, b, c, d]" by (auto simp: numeral_eq_Suc length_Suc_conv)
  have digit: "y < 16" if "hex_value x = Some y" for x y using that by (auto simp: hex_value_def Let_def split: if_splits)
  have "\<forall>x \<in> {a, b, c, d}. the (hex_value x) < 16"
    and "code = ((the (hex_value a) * 16 + the (hex_value b)) * 16 + the (hex_value c)) * 16 + the (hex_value d)"
    using u(2) eq by (auto simp: hex_code_def split: if_splits dest: digit)
  then show ?thesis by simp
qed

lemma code_bytes_utf8: "code < 65536 \<Longrightarrow> code_bytes code = utf8_encode code"
  by (simp add: code_bytes_def utf8_encode_def utf8_bytes_def div_mult2_eq [symmetric])

lemma scalar_not_surrogate: "code < 65536 \<Longrightarrow> scalar_value code \<longleftrightarrow> \<not> (0xD800 \<le> code \<and> code \<le> 0xDFFF)"
  by (auto simp: scalar_value_def)

lemma escape_simple: "(e, b) \<in> simple_escapes \<Longrightarrow> escape e t = Inr ([b], t)"
  by (auto simp: simple_escapes_def escape_def)

lemma escape_unicode:
  assumes "length u = 4" and "hex_code u = Some code" and "scalar_value code"
  shows "escape (CHR ''u'') (u @ t) = Inr (utf8_encode code, t)"
  using assms scalar_not_surrogate [OF hex_code_bound [OF assms(1,2)]] code_bytes_utf8 [OF hex_code_bound [OF assms(1,2)]]
  by (simp add: escape_def)

lemma escape_cases:
  assumes "escape e t = Inr (bs, r)"
  obtains (simple) b where "(e, b) \<in> simple_escapes" and "bs = [b]" and "t = r"
  | (unicode) u code where "e = CHR ''u''" and "t = u @ r" and "length u = 4" and "hex_code u = Some code" and "scalar_value code"
      and "bs = utf8_encode code"
proof (cases "e = CHR ''u''")
  case True
  then have len: "4 \<le> length t" and "hex_code (take 4 t) \<noteq> None" using assms by (auto simp: escape_def split: if_splits option.splits)
  then obtain code where code: "hex_code (take 4 t) = Some code" by blast
  have u: "length (take 4 t) = 4" using len by simp
  note b = hex_code_bound [OF u code]
  show thesis
    by (rule unicode [of "take 4 t" code])
      (use True assms code u len scalar_not_surrogate [OF b] code_bytes_utf8 [OF b] in \<open>auto simp: escape_def split: if_splits\<close>)
next
  case False
  then show thesis using assms simple by (auto simp: escape_def simple_escapes_def split: if_splits)
qed

lemma str_loop_complete: "str_text t s \<Longrightarrow> str_loop out (t @ CHR 0x22 # rest) = Inr (out @ s, rest)"
proof (induction arbitrary: out rule: str_text.induct)
  case (st_unicode u code t s)
  then show ?case using escape_unicode [OF st_unicode(1-3)] by (simp add: str_loop.simps)
qed (simp_all add: str_loop.simps escape_simple)

lemma str_loop_sound:
  "str_loop out t = Inr (v, r) \<Longrightarrow> \<exists>b s. t = b @ CHR 0x22 # r \<and> str_text b s \<and> v = out @ s"
proof (induction out t rule: str_loop.induct)
  case (2 out c t)
  consider (quote) "c = CHR 0x22" | (plain) "c \<noteq> CHR 0x22" "c \<noteq> CHR 0x5C" | (esc) "c = CHR 0x5C" by blast
  then show ?case
  proof cases
    case quote
    then show ?thesis using "2.prems" st_end by (auto simp: str_loop.simps)
  next
    case plain
    then have ge: "\<not> byte_of c < 0x20" and "str_loop (out @ [c]) t = Inr (v, r)" using "2.prems" by (auto simp: str_loop.simps split: if_splits)
    then obtain b s where b: "t = b @ CHR 0x22 # r" "str_text b s" "v = (out @ [c]) @ s" using "2.IH"(1) plain by blast
    have "str_text (c # b) (c # s)" using b(2) plain ge by (intro st_char) auto
    then show ?thesis using b by (intro exI [of _ "c # b"] exI [of _ "c # s"]) simp
  next
    case esc
    then obtain e t' bs r' where e: "t = e # t'" "escape e t' = Inr (bs, r')" "str_loop (out @ bs) r' = Inr (v, r)"
      using "2.prems" by (auto simp: str_loop.simps split: list.splits sum.splits)
    have "\<exists>b s. r' = b @ CHR 0x22 # r \<and> str_text b s \<and> v = (out @ bs) @ s" by (rule "2.IH"(2)) (use esc e in auto)
    then obtain b s where b: "r' = b @ CHR 0x22 # r" "str_text b s" "v = (out @ bs) @ s" by blast
    show ?thesis
      using e(2)
    proof (cases rule: escape_cases)
      case (simple x)
      have "str_text (CHR 0x5C # e # b) (x # s)" using simple(1) b(2) by (rule st_escape)
      then show ?thesis using b e simple esc by (intro exI [of _ "CHR 0x5C # e # b"] exI [of _ "x # s"]) simp
    next
      case (unicode u code)
      have "str_text (CHR 0x5C # CHR ''u'' # u @ b) (utf8_encode code @ s)" using unicode(3-5) b(2) by (rule st_unicode)
      then show ?thesis using b e unicode esc by (intro exI [of _ "CHR 0x5C # CHR ''u'' # u @ b"] exI [of _ "utf8_encode code @ s"]) simp
    qed
  qed
qed (simp add: str_loop.simps)

lemma quote_not_blank [simp]: "\<not> is_blank (CHR 0x22)" "\<not> is_blank (CHR ''['')" "\<not> is_blank (CHR '']'')" "\<not> is_blank (CHR ''{'')"
  "\<not> is_blank (CHR ''}'')" "\<not> is_blank (CHR '','')" "\<not> is_blank (CHR '':'')" "\<not> is_blank (CHR ''t'')" "\<not> is_blank (CHR ''f'')"
  "\<not> is_blank (CHR ''n'')"
  by (simp_all add: is_blank_def)

lemma skip_Cons [simp]: "\<not> is_blank c \<Longrightarrow> skip (c # t) = c # t"
  by (simp add: skip_def)

lemma skip_blanks [simp]: "blanks ws \<Longrightarrow> skip (ws @ t) = skip t"
  by (simp add: skip_append blanks_def)

lemma skip_append_Cons: "skip s = c # r \<Longrightarrow> skip (s @ t) = c # r @ t"
proof -
  assume c: "skip s = c # r"
  obtain ws where ws: "s = ws @ skip s" "list_all is_blank ws" by (rule skip_split)
  then have "s @ t = ws @ c # r @ t" using c by simp
  then show ?thesis using ws(2) skip_head [OF c] by (simp add: blanks_def)
qed

lemma skip_skip [simp]: "skip (skip t) = skip t"
proof (cases "skip t")
  case (Cons c r)
  then show ?thesis using skip_Cons [OF skip_head [OF Cons]] by simp
qed (simp add: skip_def)

lemma str_complete: "blanks ws \<Longrightarrow> str_text k key \<Longrightarrow> str (ws @ CHR 0x22 # k @ CHR 0x22 # rest) = Inr (key, rest)"
  using str_loop_complete [of k key "[]" rest] by (simp add: str_def expect_def peek_def)

lemma str_sound: "str t = Inr (key, r) \<Longrightarrow> \<exists>ws k. blanks ws \<and> str_text k key \<and> t = ws @ CHR 0x22 # k @ CHR 0x22 # r"
proof -
  assume "str t = Inr (key, r)"
  then obtain q where q: "skip t = CHR 0x22 # q" "str_loop [] q = Inr (key, r)" by (auto simp: str_def expect_Inr split: sum.splits)
  obtain b where b: "q = b @ CHR 0x22 # r" "str_text b key" using str_loop_sound [OF q(2)] by auto
  obtain ws where ws: "t = ws @ skip t" "list_all is_blank ws" by (rule skip_split)
  show ?thesis using ws b q(1) by (intro exI [of _ ws] exI [of _ b]) (auto simp: blanks_def)
qed

section \<open>Numbers\<close>

lemma floating_not_int: "list_ex (\<lambda>c. c \<in> set ''.eE'') s \<Longrightarrow> from_chars_int64 s = None"
proof -
  assume "list_ex (\<lambda>c. c \<in> set ''.eE'') s"
  then obtain c where c: "c \<in> set s" "c \<in> set ''.eE''" by (auto simp: list_ex_iff)
  have "\<not> is_digit c" "c \<noteq> CHR ''-''" using c(2) by (auto simp: is_digit_def)
  then have "\<not> list_all is_digit (if s \<noteq> [] \<and> hd s = CHR ''-'' then tl s else s)" using c(1) by (cases s) (auto simp: list_all_iff)
  then show ?thesis by (simp add: from_chars_int64_def Let_def)
qed

definition ends_number :: "string \<Rightarrow> bool" where
  "ends_number rest \<longleftrightarrow> rest = [] \<or> \<not> number_char (hd rest)"

lemma number_token:
  assumes "list_all number_char s" and "ends_number rest"
  shows "takeWhile number_char (s @ rest) = s" and "dropWhile number_char (s @ rest) = rest"
  using assms by (induction s; cases rest; simp add: ends_number_def)+

lemma number_complete: "number_text s j \<Longrightarrow> ends_number rest \<Longrightarrow> number (s @ rest) = Inr (j, rest)"
  using number_token [of s rest] floating_not_int [of s]
  by (auto simp: number_text_def number_def Let_def split: option.splits)

lemma number_sound:
  assumes "number t = Inr (j, r)"
  shows "\<exists>s. t = s @ r \<and> number_text s j"
proof (intro exI conjI)
  let ?s = "takeWhile number_char t"
  have r: "r = dropWhile number_char t"
    using assms by (auto simp: number_def Let_def split: if_splits option.splits FromChars.splits double.splits)
  show "t = ?s @ r" by (simp add: r)
  have "list_all number_char ?s" using set_takeWhileD by (fastforce simp: list_all_iff)
  then show "number_text ?s j"
    using assms floating_not_int [of ?s] unfolding number_text_def
    by (auto simp: number_def Let_def split: if_splits option.splits FromChars.splits double.splits)
qed

section \<open>Values\<close>

lemma json_value_skip [simp]: "json_value n (skip t) = json_value n t"
  by (cases n) (simp_all add: peek_def)

lemma array_loop_skip: "array_loop (json_value n) out (skip t) = array_loop (json_value n) out t"
  by (simp add: array_loop.simps)

lemma object_loop_skip: "object_loop val out (skip t) = object_loop val out t"
  by (subst (1 2) object_loop.simps) (simp add: str_def expect_def peek_def)

text \<open>The first character of a value is none of the closing and separating ones.\<close>

lemma number_head:
  assumes "number_text s j"
  obtains c r where "s = c # r" and "number_char c" and "\<not> is_blank c" and "c \<notin> {CHR ''{'', CHR ''['', CHR 0x22, CHR ''t'', CHR ''f'', CHR ''n'', CHR '']''}"
proof -
  obtain c r where s: "s = c # r" "number_char c" using assms by (cases s) (auto simp: number_text_def)
  then show thesis using that by (auto simp: number_char_def is_blank_def)
qed

lemma json_text_head: "json_text n s j \<Longrightarrow> \<exists>c r. skip s = c # r \<and> c \<noteq> CHR '']''"
  by (erule json_text.cases) (auto elim!: number_head)

lemma array_text_head: "array_text n s vs \<Longrightarrow> \<exists>c r. skip s = c # r \<and> c \<noteq> CHR '']''"
proof -
  have head: "\<exists>c r. skip (s @ t) = c # r \<and> c \<noteq> CHR '']''" if "json_text n s v" for s v t
    using json_text_head [OF that] skip_append_Cons by fastforce
  show "array_text n s vs \<Longrightarrow> \<exists>c r. skip s = c # r \<and> c \<noteq> CHR '']''" by (erule array_text.cases) (use head in auto)
qed

lemma object_text_head: "object_text n s m \<Longrightarrow> \<exists>r. skip s = CHR 0x22 # r"
  by (erule object_text.cases) auto

section \<open>Completeness\<close>

lemma ends_number_simps [simp]:
  "ends_number []" "ends_number (CHR '']'' # t)" "ends_number (CHR ''}'' # t)" "ends_number (CHR '','' # t)"
  by (simp_all add: ends_number_def number_char_def)

lemma ends_number_blanks [simp]: "blanks ws \<Longrightarrow> ends_number t \<Longrightarrow> ends_number (ws @ t)"
  by (cases ws) (auto simp: ends_number_def blanks_def number_char_def is_blank_def)

lemma peek_blanks [simp]: "blanks ws \<Longrightarrow> \<not> is_blank c \<Longrightarrow> peek (ws @ c # t) = Inr (c, c # t)"
  by (simp add: peek_def)

lemma expect_blanks [simp]: "blanks ws \<Longrightarrow> \<not> is_blank c \<Longrightarrow> expect c (ws @ c # t) = Inr t"
  by (simp add: expect_def peek_def)

lemma blanks_Nil [simp]: "blanks []"
  by (simp add: blanks_def)

lemmas peek_now [simp] = peek_blanks [OF blanks_Nil, simplified]
lemmas expect_now [simp] = expect_blanks [OF blanks_Nil, simplified]

lemma number_value:
  assumes "blanks ws" and "number_text s j" and "ends_number rest"
  shows "json_value (Suc n) (ws @ s @ rest) = Some (Inr (j, rest))"
proof -
  obtain c r where c: "s = c # r" "number_char c" "\<not> is_blank c" "c \<notin> {CHR ''{'', CHR ''['', CHR 0x22, CHR ''t'', CHR ''f'', CHR ''n'', CHR '']''}"
    by (rule number_head [OF assms(2)])
  have "peek (ws @ s @ rest) = Inr (c, s @ rest)" using c(1,3) assms(1) by simp
  then show ?thesis using number_complete [OF assms(2,3)] c(4) by simp
qed

lemma array_value_loop:
  assumes "skip s = c # r" and "c \<noteq> CHR '']''"
  shows "array_value (json_value n) (CHR ''['' # s @ t) = array_loop (json_value n) [] (s @ t)"
proof -
  have p: "peek (s @ t) = Inr (c, skip (s @ t))" using skip_append_Cons [OF assms(1), of t] by (simp add: peek_def)
  show ?thesis unfolding array_value_def using p assms(2) by (simp add: array_loop_skip)
qed

lemma object_value_loop:
  assumes "skip s = CHR 0x22 # r"
  shows "object_value val (CHR ''{'' # s @ t) = object_loop val [] (s @ t)"
proof -
  have p: "peek (s @ t) = Inr (CHR 0x22, skip (s @ t))" using skip_append_Cons [OF assms, of t] by (simp add: peek_def)
  show ?thesis unfolding object_value_def using p by (simp add: object_loop_skip)
qed

lemma reader_complete:
  "json_text n s j \<Longrightarrow> \<forall>rest. ends_number rest \<longrightarrow> json_value n (s @ rest) = Some (Inr (j, rest))"
  "array_text n s vs \<Longrightarrow> \<forall>out rest. array_loop (json_value n) out (s @ CHR '']'' # rest) = Some (Inr (JArray (out @ vs), rest))"
  "object_text n s m \<Longrightarrow> \<forall>out rest. distinct (map fst m) \<longrightarrow> (\<forall>k \<in> fst ` set m. map_of out k = None) \<longrightarrow>
    object_loop (json_value n) out (s @ CHR ''}'' # rest) = Some (Inr (JObject (fold (\<lambda>(k, v). map_put k v) m out), rest))"
proof (induction rule: json_text_array_text_object_text.inducts)
  case (jt_number ws s j n)
  then show ?case using number_value by simp
next
  case (jt_string ws s v n)
  then show ?case using str_complete [OF blanks_Nil jt_string(2)] by simp
next
  case (jt_array0 ws ws' n)
  then show ?case by (simp add: array_value_def)
next
  case (jt_array ws n s vs)
  obtain c r where c: "skip s = c # r" "c \<noteq> CHR '']''" using array_text_head [OF jt_array(2)] by blast
  show ?case using jt_array array_value_loop [OF c] by simp
next
  case (jt_object0 ws ws' n)
  then show ?case by (simp add: object_value_def)
next
  case (jt_object ws n s m)
  obtain r where c: "skip s = CHR 0x22 # r" using object_text_head [OF jt_object(2)] by blast
  show ?case using jt_object object_value_loop [OF c] by simp
next
  case (at_one n s v ws)
  then show ?case by (simp add: array_loop.simps)
next
  case (at_more n s v ws t vs)
  then show ?case by (subst array_loop.simps) simp
next
  case (ot_one ws k key ws1 n s v ws2)
  then show ?case by (simp add: object_loop.simps str_complete)
next
  case (ot_more ws k key ws1 n s v ws2 t m)
  have "\<forall>k \<in> fst ` set m. map_of (map_put key v out) k = None"
    if "distinct (map fst ((key, v) # m))" "\<forall>k \<in> fst ` set ((key, v) # m). map_of out k = None" for out
    using that by auto
  then show ?case using ot_more by (subst object_loop.simps) (simp add: str_complete)
qed (simp_all add: literal_def)

section \<open>Soundness\<close>

definition val_sound :: "nat \<Rightarrow> bool" where
  "val_sound n \<longleftrightarrow> (\<forall>t j r. json_value n t = Some (Inr (j, r)) \<longrightarrow> (\<exists>s. t = s @ r \<and> json_text n s j))"

lemma skip_tail:
  assumes "skip t = c # r"
  obtains ws where "blanks ws" and "t = ws @ c # r"
  using skip_split [of t] assms by (metis blanks_def)

lemma json_value_shorter: "json_value n t = Some (Inr (j, r)) \<Longrightarrow> length r < length t"
  using json_value_good [of n] unfolding good_val_def by (metis option.inject)

text \<open>What a round of the two loops does when the loop succeeds.\<close>

lemma array_loop_cases:
  assumes "array_loop (json_value n) out t = Some (Inr (j, r))"
  obtains (last) v ws where "json_value n t = Some (Inr (v, ws @ CHR '']'' # r))" and "blanks ws" and "j = JArray (out @ [v])"
  | (more) v ws t' where "json_value n t = Some (Inr (v, ws @ CHR '','' # t'))" and "blanks ws"
      and "array_loop (json_value n) (out @ [v]) t' = Some (Inr (j, r))"
proof -
  obtain v r1 where v: "json_value n t = Some (Inr (v, r1))"
    using assms by (subst (asm) array_loop.simps) (auto split: option.splits sum.splits)
  obtain c r2 where c: "skip r1 = c # r2"
    using assms v by (subst (asm) array_loop.simps) (auto simp: peek_def split: list.splits)
  obtain ws where ws: "blanks ws" "r1 = ws @ c # r2" by (rule skip_tail [OF c])
  show thesis
  proof (cases "c = CHR '',''")
    case True
    then have "array_loop (json_value n) (out @ [v]) r2 = Some (Inr (j, r))"
      using assms v c by (subst (asm) array_loop.simps) (simp add: peek_def)
    then show thesis using more v ws True by blast
  next
    case False
    then have "skip (c # r2) = CHR '']'' # r \<and> j = JArray (out @ [v])"
      using assms v c by (subst (asm) array_loop.simps) (auto simp: peek_def expect_Inr split: sum.splits)
    then show thesis using last v ws skip_head [OF c] by simp
  qed
qed

lemma object_loop_cases:
  assumes "object_loop (json_value n) out t = Some (Inr (j, r))"
  obtains (last) ws k key ws1 r1 v ws2 where "blanks ws" and "str_text k key" and "blanks ws1" and "blanks ws2" and "map_of out key = None"
      and "t = ws @ CHR 0x22 # k @ CHR 0x22 # ws1 @ CHR '':'' # r1" and "json_value n r1 = Some (Inr (v, ws2 @ CHR ''}'' # r))"
      and "j = JObject (map_put key v out)"
  | (more) ws k key ws1 r1 v ws2 t' where "blanks ws" and "str_text k key" and "blanks ws1" and "blanks ws2" and "map_of out key = None"
      and "t = ws @ CHR 0x22 # k @ CHR 0x22 # ws1 @ CHR '':'' # r1" and "json_value n r1 = Some (Inr (v, ws2 @ CHR '','' # t'))"
      and "object_loop (json_value n) (map_put key v out) t' = Some (Inr (j, r))"
proof -
  obtain key r0 where key: "str t = Inr (key, r0)"
    using assms by (subst (asm) object_loop.simps) (auto split: sum.splits)
  obtain r1 where r1: "expect (CHR '':'') r0 = Inr r1"
    using assms key by (subst (asm) object_loop.simps) (auto split: sum.splits)
  obtain v r2 where v: "json_value n r1 = Some (Inr (v, r2))"
    using assms key r1 by (subst (asm) object_loop.simps) (auto split: option.splits sum.splits)
  have new: "map_of out key = None"
    using assms key r1 v by (subst (asm) object_loop.simps) (auto split: if_splits)
  obtain c r3 where c: "skip r2 = c # r3"
    using assms key r1 v new by (subst (asm) object_loop.simps) (auto simp: peek_def split: list.splits)
  obtain ws k where k: "blanks ws" "str_text k key" "t = ws @ CHR 0x22 # k @ CHR 0x22 # r0" using str_sound [OF key] by blast
  obtain ws1 where ws1: "blanks ws1" "r0 = ws1 @ CHR '':'' # r1" using skip_tail [of r0 "CHR '':''" r1] r1 by (auto simp: expect_Inr)
  obtain ws2 where ws2: "blanks ws2" "r2 = ws2 @ c # r3" by (rule skip_tail [OF c])
  show thesis
  proof (cases "c = CHR '',''")
    case True
    then have "object_loop (json_value n) (map_put key v out) r3 = Some (Inr (j, r))"
      using assms key r1 v new c by (subst (asm) object_loop.simps) (simp add: peek_def)
    then show thesis using more k ws1 ws2 new v True by blast
  next
    case False
    then have "skip (c # r3) = CHR ''}'' # r \<and> j = JObject (map_put key v out)"
      using assms key r1 v new c by (subst (asm) object_loop.simps) (auto simp: peek_def expect_Inr split: sum.splits)
    then show thesis using last [OF k(1,2) ws1(1) ws2(1) new] k ws1 ws2 v skip_head [OF c] by simp
  qed
qed

lemma array_loop_sound:
  assumes "val_sound n"
  shows "array_loop (json_value n) out t = Some (Inr (j, r)) \<Longrightarrow> \<exists>s vs. t = s @ CHR '']'' # r \<and> array_text n s vs \<and> j = JArray (out @ vs)"
proof (induction "length t" arbitrary: out t rule: less_induct)
  case less
  from less.prems show ?case
  proof (cases rule: array_loop_cases)
    case (last v ws)
    then obtain s where "t = s @ ws @ CHR '']'' # r" "json_text n s v" using assms unfolding val_sound_def by blast
    then show ?thesis using last at_one [of n s v ws] by (intro exI [of _ "s @ ws"] exI [of _ "[v]"]) simp
  next
    case (more v ws t')
    then obtain s where s: "t = s @ ws @ CHR '','' # t'" "json_text n s v" using assms unfolding val_sound_def by blast
    have "length t' < length t" using s by simp
    from less.hyps [OF this more(3)] obtain s' vs where "t' = s' @ CHR '']'' # r" "array_text n s' vs" "j = JArray ((out @ [v]) @ vs)" by blast
    then show ?thesis using s more at_more [of n s v ws s' vs] by (intro exI [of _ "s @ ws @ CHR '','' # s'"] exI [of _ "v # vs"]) simp
  qed
qed

lemma object_loop_sound:
  assumes "val_sound n"
  shows "object_loop (json_value n) out t = Some (Inr (j, r)) \<Longrightarrow>
    \<exists>s m. t = s @ CHR ''}'' # r \<and> object_text n s m \<and> distinct (map fst m) \<and> (\<forall>k \<in> fst ` set m. map_of out k = None) \<and>
      j = JObject (fold (\<lambda>(k, v). map_put k v) m out)"
proof (induction "length t" arbitrary: out t rule: less_induct)
  case less
  from less.prems show ?case
  proof (cases rule: object_loop_cases)
    case (last ws k key ws1 r1 v ws2)
    then obtain s where s: "r1 = s @ ws2 @ CHR ''}'' # r" "json_text n s v" using assms unfolding val_sound_def by blast
    show ?thesis
      by (intro exI [of _ "ws @ CHR 0x22 # k @ CHR 0x22 # ws1 @ CHR '':'' # s @ ws2"] exI [of _ "[(key, v)]"] conjI ot_one)
        (use last s in simp_all)
  next
    case (more ws k key ws1 r1 v ws2 t')
    then obtain s where s: "r1 = s @ ws2 @ CHR '','' # t'" "json_text n s v" using assms unfolding val_sound_def by blast
    have "length t' < length t" using s more(6) by simp
    from less.hyps [OF this more(8)] obtain s' m where m: "t' = s' @ CHR ''}'' # r" "object_text n s' m" "distinct (map fst m)"
        "\<forall>k \<in> fst ` set m. map_of (map_put key v out) k = None" "j = JObject (fold (\<lambda>(k, v). map_put k v) m (map_put key v out))" by blast
    have k: "key \<notin> fst ` set m" "\<forall>k \<in> fst ` set m. map_of out k = None" using m(4) by (auto split: if_splits)
    show ?thesis
      by (intro exI [of _ "ws @ CHR 0x22 # k @ CHR 0x22 # ws1 @ CHR '':'' # s @ ws2 @ CHR '','' # s'"] exI [of _ "(key, v) # m"] conjI ot_more)
        (use more s m k in simp_all)
  qed
qed

lemma array_value_sound:
  assumes "val_sound n" and "array_value (json_value n) (CHR ''['' # q) = Some (Inr (j, r))"
  shows "\<exists>s. CHR ''['' # q = s @ r \<and> json_text (Suc n) s j"
proof -
  obtain c q' where c: "skip q = c # q'" using assms(2) by (auto simp: array_value_def peek_def split: list.splits)
  obtain ws where ws: "blanks ws" "q = ws @ c # q'" by (rule skip_tail [OF c])
  show ?thesis
  proof (cases "c = CHR '']''")
    case True
    then have "j = JArray []" "q' = r" using assms(2) c by (auto simp: array_value_def peek_def)
    then show ?thesis using ws True jt_array0 [OF blanks_Nil ws(1), of n] by (intro exI [of _ "CHR ''['' # ws @ '']''"]) simp
  next
    case False
    then have "array_loop (json_value n) [] q = Some (Inr (j, r))"
      using assms(2) c by (auto simp: array_value_def peek_def array_loop_skip [of n "[]" q, unfolded c])
    from array_loop_sound [OF assms(1) this] obtain s vs where "q = s @ CHR '']'' # r" "array_text n s vs" "j = JArray vs" by auto
    then show ?thesis using jt_array [OF blanks_Nil, of n s vs] by (intro exI [of _ "CHR ''['' # s @ '']''"]) simp
  qed
qed

lemma object_value_sound:
  assumes "val_sound n" and "object_value (json_value n) (CHR ''{'' # q) = Some (Inr (j, r))"
  shows "\<exists>s. CHR ''{'' # q = s @ r \<and> json_text (Suc n) s j"
proof -
  obtain c q' where c: "skip q = c # q'" using assms(2) by (auto simp: object_value_def peek_def split: list.splits)
  obtain ws where ws: "blanks ws" "q = ws @ c # q'" by (rule skip_tail [OF c])
  show ?thesis
  proof (cases "c = CHR ''}''")
    case True
    then have "j = JObject []" "q' = r" using assms(2) c by (auto simp: object_value_def peek_def)
    then show ?thesis using ws True jt_object0 [OF blanks_Nil ws(1), of n] by (intro exI [of _ "CHR ''{'' # ws @ ''}''"]) simp
  next
    case False
    then have "object_loop (json_value n) [] q = Some (Inr (j, r))"
      using assms(2) c by (auto simp: object_value_def peek_def object_loop_skip [of "json_value n" "[]" q, unfolded c])
    from object_loop_sound [OF assms(1) this] obtain s m where
      "q = s @ CHR ''}'' # r" "object_text n s m" "distinct (map fst m)" "j = JObject (fold (\<lambda>(k, v). map_put k v) m [])" by auto
    then show ?thesis using jt_object [OF blanks_Nil, of n s m] by (intro exI [of _ "CHR ''{'' # s @ ''}''"]) simp
  qed
qed

lemma literal_Some: "literal w t = Some r \<longleftrightarrow> t = w @ r"
  by (auto simp: literal_def) (metis append_take_drop_id)

lemma json_text_blanks: "json_text n s j \<Longrightarrow> blanks ws \<Longrightarrow> json_text n (ws @ s) j"
proof -
  have app: "blanks (a @ b)" if "blanks a" "blanks b" for a b using that by (simp add: blanks_def)
  show "json_text n s j \<Longrightarrow> blanks ws \<Longrightarrow> json_text n (ws @ s) j"
    by (erule json_text.cases; simp only: append.assoc [symmetric]) (intro json_text_array_text_object_text.intros app; assumption)+
qed

lemma json_value_sound: "val_sound n"
proof (induction n)
  case (Suc n)
  show ?case
    unfolding val_sound_def
  proof (intro allI impI)
    fix t j r assume v: "json_value (Suc n) t = Some (Inr (j, r))"
    obtain c q where c: "skip t = c # q" using v by (auto simp: peek_def split: list.splits)
    obtain ws where ws: "blanks ws" "t = ws @ c # q" by (rule skip_tail [OF c])
    have p: "peek t = Inr (c, c # q)" using c by (simp add: peek_def)
    have "\<exists>s. c # q = s @ r \<and> json_text (Suc n) s j"
    proof -
      consider "c = CHR ''{''" | "c = CHR ''[''" | "c = CHR 0x22" | "c = CHR ''t''" | "c = CHR ''f''" | "c = CHR ''n''"
        | "c \<notin> {CHR ''{'', CHR ''['', CHR 0x22, CHR ''t'', CHR ''f'', CHR ''n''}" by blast
      then show ?thesis
      proof cases
        case 1
        then show ?thesis using v p object_value_sound [OF Suc, of q j r] by simp
      next
        case 2
        then show ?thesis using v p array_value_sound [OF Suc, of q j r] by simp
      next
        case 3
        then obtain v' where v': "str (c # q) = Inr (v', r)" "j = JString v'" using v p by (auto split: sum.splits)
        then have "str_loop [] q = Inr (v', r)" using 3 by (simp add: str_def)
        from str_loop_sound [OF this] obtain b where "q = b @ CHR 0x22 # r" "str_text b v'" by auto
        then show ?thesis using jt_string [OF blanks_Nil, of b v' n] v'(2) 3 by (intro exI [of _ "CHR 0x22 # b @ [CHR 0x22]"]) simp
      next
        case 4
        then have "c # q = ''true'' @ r" "j = JBool True" using v p literal_Some [of "''true''" "c # q"] by (auto split: option.splits)
        then show ?thesis using jt_true [OF blanks_Nil, of n] by (intro exI [of _ "''true''"]) simp
      next
        case 5
        then have "c # q = ''false'' @ r" "j = JBool False" using v p literal_Some [of "''false''" "c # q"] by (auto split: option.splits)
        then show ?thesis using jt_false [OF blanks_Nil, of n] by (intro exI [of _ "''false''"]) simp
      next
        case 6
        then have "c # q = ''null'' @ r" "j = JNull" using v p literal_Some [of "''null''" "c # q"] by (auto split: option.splits)
        then show ?thesis using jt_null [OF blanks_Nil, of n] by (intro exI [of _ "''null''"]) simp
      next
        case 7
        then have "number (c # q) = Inr (j, r)" using v p by simp
        from number_sound [OF this] obtain s where "c # q = s @ r" "number_text s j" by blast
        then show ?thesis using jt_number [OF blanks_Nil, of s j n] by (intro exI [of _ s]) simp
      qed
    qed
    then obtain s where "c # q = s @ r" "json_text (Suc n) s j" by blast
    then show "\<exists>s. t = s @ r \<and> json_text (Suc n) s j"
      using ws json_text_blanks [of "Suc n" s j ws] by (intro exI [of _ "ws @ s"]) simp
  qed
qed (simp add: val_sound_def)

section \<open>Property\<close>

lemma json_parse_returns: "\<exists>r. json_parse t = Some r"
proof -
  obtain x where "json_value 33 t = Some x" using json_value_good [of 33] unfolding good_val_def by blast
  then show ?thesis by (cases x) (auto simp: json_parse_def)
qed

text \<open>
  C38. The JSON reader terminates on every text and accepts exactly the documents of its grammar: one value with blanks around it, nested at most 33 deep,
  whose objects repeat no key, whose strings hold no control characters and no surrogate escapes, and whose numbers are finite; the value
  it returns is the one the grammar assigns.
\<close>

theorem json_reader_language:
  "(\<exists>r. json_parse t = Some r) \<and> (json_parse t = Some (Inr j) \<longleftrightarrow> (\<exists>s ws. t = s @ ws \<and> blanks ws \<and> json_text 33 s j))"
proof (intro conjI iffI)
  show "\<exists>r. json_parse t = Some r" by (rule json_parse_returns)
next
  assume p: "json_parse t = Some (Inr j)"
  then obtain r where r: "json_value 33 t = Some (Inr (j, r))" "skip r = []"
    by (auto simp: json_parse_def split: option.splits sum.splits prod.splits if_splits)
  obtain s where s: "t = s @ r" "json_text 33 s j" using json_value_sound r(1) unfolding val_sound_def by blast
  have "blanks r" using r(2) by (simp add: skip_def blanks_def list_all_iff)
  then show "\<exists>s ws. t = s @ ws \<and> blanks ws \<and> json_text 33 s j" using s by blast
next
  assume "\<exists>s ws. t = s @ ws \<and> blanks ws \<and> json_text 33 s j"
  then obtain s ws where s: "t = s @ ws" "blanks ws" "json_text 33 s j" by blast
  have "json_value 33 t = Some (Inr (j, ws))" using reader_complete(1) [OF s(3)] s(1,2) ends_number_blanks [OF s(2), of "[]"] by simp
  moreover have "skip ws = []" using s(2) by (simp add: skip_def blanks_def list_all_iff)
  ultimately show "json_parse t = Some (Inr j)" by (simp add: json_parse_def)
qed

text \<open>The reader is not strict about numbers: leading zeros and a missing integer part are accepted.\<close>

lemma json_accepts_leading_zero: "json_parse ''01'' = Some (Inr (JInt 1))"
proof -
  have "number_text ''01'' (JInt 1)" by (simp add: number_text_def number_char_def from_chars_int64_def digits_value_def is_digit_def)
  then have "json_value 33 (''01'' @ []) = Some (Inr (JInt 1, []))"
    using number_value [of "[]" "''01''" "JInt 1" "[]" 32] by (simp add: numeral_eq_Suc)
  then show ?thesis by (simp add: json_parse_def skip_def)
qed

end
