(* ===== verification/Config_Properties.thy ===== *)
theory Config_Properties
  imports Config_File Json_Properties
begin

text \<open>
  What an accepted configuration document means: only known fields, every number within its range, and each
  setting either the document's value or what it was before.
\<close>

section \<open>Fields of an object\<close>

definition int_at :: "(string \<times> Json) list \<Rightarrow> string \<Rightarrow> int option" where
  "int_at m key = (case map_of m key of Some (JInt i) \<Rightarrow> Some i | _ \<Rightarrow> None)"

definition string_at :: "(string \<times> Json) list \<Rightarrow> string \<Rightarrow> string option" where
  "string_at m key = (case map_of m key of Some (JString v) \<Rightarrow> Some v | _ \<Rightarrow> None)"

definition section_at :: "(string \<times> Json) list \<Rightarrow> string \<Rightarrow> (string \<times> Json) list" where
  "section_at m key = (case map_of m key of Some (JObject b) \<Rightarrow> b | _ \<Rightarrow> [])"

text \<open>A field that may be absent, and otherwise has its type and range.\<close>

definition int_ok :: "(string \<times> Json) list \<Rightarrow> string \<Rightarrow> nat \<Rightarrow> nat \<Rightarrow> bool" where
  "int_ok m key low high = (case map_of m key of None \<Rightarrow> True | Some (JInt i) \<Rightarrow> int low \<le> i \<and> i \<le> int high | _ \<Rightarrow> False)"

definition string_ok :: "(string \<times> Json) list \<Rightarrow> string \<Rightarrow> bool" where
  "string_ok m key = (case map_of m key of None \<Rightarrow> True | Some (JString v) \<Rightarrow> v \<noteq> [] \<and> length v \<le> 4096 | _ \<Rightarrow> False)"

text \<open>An optional part: kept when the field is absent, cleared by \<^verbatim>\<open>null\<close>, set by an object.\<close>

definition part_ok :: "(string \<times> Json) list \<Rightarrow> string \<Rightarrow> 'v option \<Rightarrow> 'v option \<Rightarrow> bool" where
  "part_ok m key old new =
     (case map_of m key of None \<Rightarrow> new = old | Some JNull \<Rightarrow> new = None | Some (JObject _) \<Rightarrow> new \<noteq> None | _ \<Rightarrow> False)"

definition put_opt :: "'v option \<Rightarrow> ('v \<Rightarrow> 'c \<Rightarrow> 'c) \<Rightarrow> 'c \<Rightarrow> 'c" where
  "put_opt v upd c = (case v of None \<Rightarrow> c | Some x \<Rightarrow> upd x c)"

lemma put_opt_frame: "(\<And>x c. sel (upd x c) = sel c) \<Longrightarrow> sel (put_opt v upd c) = sel c"
  by (cases v) (simp_all add: put_opt_def)

section \<open>Statements\<close>

definition look :: "string \<Rightarrow> Section \<Rightarrow> Section" where
  "look key s = s\<lparr>sec_seen := List.insert key (sec_seen s)\<rparr>"

lemma look_simps [simp]:
  "sec_object (look key s) = sec_object s" "sec_path (look key s) = sec_path s" "look key (look key s) = look key s"
  "set (sec_seen (look key s)) = insert key (set (sec_seen s))"
  by (simp_all add: look_def)

lemma sec_find_look: "sec_find key s = (map_of (sec_object s) key, look key s)"
  by (simp add: sec_find_def look_def)

lemma sec_has_look: "sec_has key s = (map_of (sec_object s) key \<noteq> None, look key s)"
  by (simp add: sec_has_def sec_find_look)

lemma sec_is_null_look: "sec_is_null key s = (map_of (sec_object s) key = Some JNull, look key s)"
  by (simp add: sec_is_null_def sec_find_look)

lemmas section_look = sec_find_look sec_has_look sec_is_null_look

lemma sec_read_Inr:
  "sec_read key low high upd (s, c) = Inr (s', c') \<longleftrightarrow>
     s' = look key s \<and> int_ok (sec_object s) key low high \<and> c' = put_opt (int_at (sec_object s) key) (\<lambda>i. upd (nat i)) c"
  by (auto simp: sec_read_def section_look unsigned_value_def int_ok_def int_at_def put_opt_def split: option.splits Json.splits if_splits)

lemma read_ms_Inr:
  "read_ms key low upd (s, c) = Inr (s', c') \<longleftrightarrow>
     s' = look key s \<and> int_ok (sec_object s) key low year_ms \<and> c' = put_opt (int_at (sec_object s) key) upd c"
proof -
  have "put_opt (int_at m key) (\<lambda>i. upd (int (nat i))) c = put_opt (int_at m key) upd c" if "int_ok m key low year_ms" for m
    using that by (auto simp: int_ok_def int_at_def put_opt_def split: option.splits Json.splits)
  then show ?thesis by (auto simp: read_ms_def sec_read_Inr)
qed

lemma read_string_Inr:
  "read_string key upd (s, c) = Inr (s', c') \<longleftrightarrow>
     s' = look key s \<and> string_ok (sec_object s) key \<and> c' = put_opt (string_at (sec_object s) key) upd c"
  by (auto simp: read_string_def when_has_def need_string_def sec_string_def section_look string_ok_def string_at_def put_opt_def
      split: option.splits Json.splits if_splits)

lemma with_child_Inr:
  "with_child key f (s, c) = Inr (s', c') \<longleftrightarrow>
     s' = look key s \<and> (\<exists>b. map_of (sec_object s) key = Some (JObject b) \<and>
       f \<lparr>sec_object = b, sec_path = sec_path s @ ''.'' @ key, sec_seen = []\<rparr> c = Inr c')"
  by (auto simp: with_child_def sec_child_def section_look make_Section_def split: option.splits Json.splits sum.splits)

lemma when_has_Inr:
  "when_has key f (s, c) = Inr (s', c') \<longleftrightarrow>
     (if map_of (sec_object s) key = None then s' = look key s \<and> c' = c else f (look key s, c) = Inr (s', c'))"
  by (auto simp: when_has_def section_look)

lemma child_or_null_Inr:
  "child_or_null key clear f (s, c) = Inr (s', c') \<longleftrightarrow>
     (if map_of (sec_object s) key = None then s' = look key s \<and> c' = c
      else if map_of (sec_object s) key = Some JNull then s' = look key s \<and> c' = clear c
      else f (look key s, c) = Inr (s', c'))"
  by (auto simp: child_or_null_def when_has_def section_look)

lemma steps_Inr [simp]:
  "steps [] x = Inr y \<longleftrightarrow> y = x"
  "steps (f # fs) x = Inr y \<longleftrightarrow> (\<exists>s c. f x = Inr (s, c) \<and> steps fs (s, c) = Inr y)"
  by (auto split: sum.splits)

declare steps.simps [simp del]

lemma sec_finish_Inr: "sec_finish s = Inr u \<longleftrightarrow> fst ` set (sec_object s) \<subseteq> set (sec_seen s)"
proof -
  have "sec_finish s = Inr u \<longleftrightarrow> filter (\<lambda>k. k \<notin> set (sec_seen s)) (map fst (sec_object s)) = []"
    unfolding sec_finish_def by (simp split: list.split)
  then show ?thesis unfolding filter_empty_conv by auto
qed

lemma read_section_Inr:
  "read_section fs s c = Inr c' \<longleftrightarrow> (\<exists>s'. steps fs (s, c) = Inr (s', c') \<and> fst ` set (sec_object s') \<subseteq> set (sec_seen s'))"
proof (cases "steps fs (s, c)")
  case (Inr y)
  then show ?thesis
    using sec_finish_Inr [of "fst y" "()"] by (cases y, cases "sec_finish (fst y)") (simp_all add: read_section_def eq_commute [of c'])
qed (simp add: read_section_def)

lemmas statement_Inr = sec_read_Inr read_ms_Inr read_string_Inr

section \<open>The broker section\<close>

text \<open>The fields of the broker section, and what they set.\<close>

definition broker_keys :: "string set" where
  "broker_keys = {''num_levels'', ''default_priority'', ''default_max_retries'', ''default_ttl_ms'', ''max_pull_wait_ms'',
     ''ttl_sweep_interval_ms'', ''delivery_lease_ms'', ''lease_sweep_interval_ms'', ''completion_retention_ms'',
     ''completion_cache_max_entries'', ''maintenance_batch_size'', ''level_weights'', ''aging''}"

definition int_set :: "(string \<times> Json) list \<Rightarrow> string \<Rightarrow> nat \<Rightarrow> nat \<Rightarrow> int \<Rightarrow> int \<Rightarrow> bool" where
  "int_set m key low high old new \<longleftrightarrow>
     int_ok m key low high \<and> new = (case int_at m key of None \<Rightarrow> old | Some i \<Rightarrow> i)"

definition weights_ok :: "(string \<times> Json) list \<Rightarrow> nat list option \<Rightarrow> nat list option \<Rightarrow> bool" where
  "weights_ok m old new =
     (case map_of m ''level_weights'' of
        None \<Rightarrow> new = old
      | Some JNull \<Rightarrow> new = None
      | Some (JArray js) \<Rightarrow> (case new of None \<Rightarrow> False
          | Some w \<Rightarrow> js = map (JInt \<circ> int) w \<and> w \<noteq> [] \<and> length w \<le> 255 \<and> (\<forall>x \<in> set w. 1 \<le> x \<and> x \<le> 1000))
      | _ \<Rightarrow> False)"

definition broker_set :: "(string \<times> Json) list \<Rightarrow> HarbingerConfig \<Rightarrow> HarbingerConfig \<Rightarrow> bool" where
  "broker_set b c c' \<longleftrightarrow>
     fst ` set b \<subseteq> broker_keys \<and>
     int_set b ''num_levels'' 1 255 (int (hc_num_levels c)) (int (hc_num_levels c')) \<and>
     int_set b ''default_priority'' 0 254 (int (hc_default_priority c)) (int (hc_default_priority c')) \<and>
     int_set b ''default_max_retries'' 1 1000000 (int (hc_default_max_retries c)) (int (hc_default_max_retries c')) \<and>
     int_set b ''default_ttl_ms'' 0 year_ms (hc_default_ttl c) (hc_default_ttl c') \<and>
     int_set b ''max_pull_wait_ms'' 1 year_ms (hc_max_pull_wait c) (hc_max_pull_wait c') \<and>
     int_set b ''ttl_sweep_interval_ms'' 0 year_ms (hc_ttl_sweep_interval c) (hc_ttl_sweep_interval c') \<and>
     int_set b ''delivery_lease_ms'' 1 year_ms (hc_delivery_lease c) (hc_delivery_lease c') \<and>
     int_set b ''lease_sweep_interval_ms'' 1 year_ms (hc_lease_sweep_interval c) (hc_lease_sweep_interval c') \<and>
     int_set b ''completion_retention_ms'' 1 year_ms (hc_completion_retention c) (hc_completion_retention c') \<and>
     int_set b ''completion_cache_max_entries'' 1 (2 ^ 30) (int (hc_completion_cache_max_entries c)) (int (hc_completion_cache_max_entries c')) \<and>
     int_set b ''maintenance_batch_size'' 1 (2 ^ 20) (int (hc_maintenance_batch_size c)) (int (hc_maintenance_batch_size c')) \<and>
     weights_ok b (hc_level_weights c) (hc_level_weights c') \<and>
     part_ok b ''aging'' (hc_aging c) (hc_aging c')"

lemma broker_put:
  "int_ok m key low high \<Longrightarrow> int (hc_num_levels (put_opt (int_at m key) (\<lambda>i. hc_num_levels_update (\<lambda>_. nat i)) c)) =
     (case int_at m key of None \<Rightarrow> int (hc_num_levels c) | Some i \<Rightarrow> i)"
  "int_ok m key low high \<Longrightarrow> int (hc_default_priority (put_opt (int_at m key) (\<lambda>i. hc_default_priority_update (\<lambda>_. nat i)) c)) =
     (case int_at m key of None \<Rightarrow> int (hc_default_priority c) | Some i \<Rightarrow> i)"
  "int_ok m key low high \<Longrightarrow> int (hc_default_max_retries (put_opt (int_at m key) (\<lambda>i. hc_default_max_retries_update (\<lambda>_. nat i)) c)) =
     (case int_at m key of None \<Rightarrow> int (hc_default_max_retries c) | Some i \<Rightarrow> i)"
  "int_ok m key low high \<Longrightarrow> int (hc_completion_cache_max_entries (put_opt (int_at m key) (\<lambda>i. hc_completion_cache_max_entries_update (\<lambda>_. nat i)) c)) =
     (case int_at m key of None \<Rightarrow> int (hc_completion_cache_max_entries c) | Some i \<Rightarrow> i)"
  "int_ok m key low high \<Longrightarrow> int (hc_maintenance_batch_size (put_opt (int_at m key) (\<lambda>i. hc_maintenance_batch_size_update (\<lambda>_. nat i)) c)) =
     (case int_at m key of None \<Rightarrow> int (hc_maintenance_batch_size c) | Some i \<Rightarrow> i)"
  "hc_default_ttl (put_opt v (\<lambda>i. hc_default_ttl_update (\<lambda>_. i)) c) = (case v of None \<Rightarrow> hc_default_ttl c | Some i \<Rightarrow> i)"
  "hc_max_pull_wait (put_opt v (\<lambda>i. hc_max_pull_wait_update (\<lambda>_. i)) c) = (case v of None \<Rightarrow> hc_max_pull_wait c | Some i \<Rightarrow> i)"
  "hc_ttl_sweep_interval (put_opt v (\<lambda>i. hc_ttl_sweep_interval_update (\<lambda>_. i)) c) = (case v of None \<Rightarrow> hc_ttl_sweep_interval c | Some i \<Rightarrow> i)"
  "hc_delivery_lease (put_opt v (\<lambda>i. hc_delivery_lease_update (\<lambda>_. i)) c) = (case v of None \<Rightarrow> hc_delivery_lease c | Some i \<Rightarrow> i)"
  "hc_lease_sweep_interval (put_opt v (\<lambda>i. hc_lease_sweep_interval_update (\<lambda>_. i)) c) = (case v of None \<Rightarrow> hc_lease_sweep_interval c | Some i \<Rightarrow> i)"
  "hc_completion_retention (put_opt v (\<lambda>i. hc_completion_retention_update (\<lambda>_. i)) c) = (case v of None \<Rightarrow> hc_completion_retention c | Some i \<Rightarrow> i)"
  by (auto simp: int_ok_def int_at_def put_opt_def split: option.splits Json.splits)

lemma weight_list_Some: "weight_list js = Some w \<Longrightarrow> js = map (JInt \<circ> int) w \<and> (\<forall>x \<in> set w. 1 \<le> x \<and> x \<le> 1000)"
  by (induction js arbitrary: w) (auto split: Json.splits if_splits simp: nat_le_iff)

lemma read_weights_Inr:
  assumes "read_weights (look ''level_weights'' s, c) = Inr (s', c')"
  obtains js w where "s' = look ''level_weights'' s" "map_of (sec_object s) ''level_weights'' = Some (JArray js)"
    "weight_list js = Some w" "js \<noteq> []" "length js \<le> 255" "c' = c\<lparr>hc_level_weights := Some w\<rparr>"
  using assms by (auto simp: read_weights_def sec_raw_def section_look split: option.splits Json.splits if_splits)

lemma apply_aging_Inr: "apply_aging a c = Inr c' \<Longrightarrow> \<exists>ag. c' = c\<lparr>hc_aging := Some ag\<rparr>"
  by (auto simp: apply_aging_def map_sum_def split: sum.splits)

lemmas broker_frame = put_opt_frame [of hc_num_levels] put_opt_frame [of hc_default_priority] put_opt_frame [of hc_default_max_retries]
  put_opt_frame [of hc_default_ttl] put_opt_frame [of hc_max_pull_wait] put_opt_frame [of hc_ttl_sweep_interval] put_opt_frame [of hc_delivery_lease]
  put_opt_frame [of hc_lease_sweep_interval] put_opt_frame [of hc_completion_retention] put_opt_frame [of hc_completion_cache_max_entries]
  put_opt_frame [of hc_maintenance_batch_size] put_opt_frame [of hc_level_weights] put_opt_frame [of hc_aging] put_opt_frame [of hc_ingress_features]
  put_opt_frame [of hc_feedback] put_opt_frame [of hc_predictive_routing]

lemma part_cases:
  obtains (absent) "v = None" | (null) "v = Some JNull" | (other) "v \<noteq> None" "v \<noteq> Some JNull"
  by blast

text \<open>An optional part that \<open>f\<close> sets.\<close>

lemma part_step:
  assumes st: "child_or_null key (upd None) (with_child key f) (s, c) = Inr (s', c')"
    and same: "upd (sel c) c = c" and f: "\<And>b c c'. f b c = Inr c' \<Longrightarrow> \<exists>v. c' = upd (Some v) c"
  obtains v where "s' = look key s" "c' = upd v c" "part_ok (sec_object s) key (sel c) v"
proof (cases "map_of (sec_object s) key" rule: part_cases)
  case absent
  with st have "s' = look key s" "c' = upd (sel c) c" by (simp_all add: child_or_null_Inr same)
  then show ?thesis by (rule that) (simp add: absent part_ok_def)
next
  case null
  with st have "s' = look key s" "c' = upd None c" by (simp_all add: child_or_null_Inr)
  then show ?thesis by (rule that) (simp add: null part_ok_def)
next
  case other
  with st have "with_child key f (look key s, c) = Inr (s', c')" unfolding child_or_null_Inr by simp
  then obtain b where b: "s' = look key s" "map_of (sec_object s) key = Some (JObject b)"
    "f \<lparr>sec_object = b, sec_path = sec_path s @ ''.'' @ key, sec_seen = []\<rparr> c = Inr c'"
    unfolding with_child_Inr look_simps by (elim conjE exE)
  from f [OF b(3)] obtain v where "c' = upd (Some v) c" ..
  with b(1) show ?thesis by (rule that) (simp add: b(2) part_ok_def)
qed

text \<open>The last two statements of the section.\<close>

lemma weights_step:
  assumes "child_or_null ''level_weights'' (\<lambda>c. c\<lparr>hc_level_weights := None\<rparr>) read_weights (s, c) = Inr (s', c')"
  obtains w where "s' = look ''level_weights'' s" "c' = c\<lparr>hc_level_weights := w\<rparr>"
    "weights_ok (sec_object s) (hc_level_weights c) w"
proof (cases "map_of (sec_object s) ''level_weights''" rule: part_cases)
  case absent
  with assms have "s' = look ''level_weights'' s" "c' = c\<lparr>hc_level_weights := hc_level_weights c\<rparr>" by (simp_all add: child_or_null_Inr)
  then show ?thesis by (rule that) (simp add: absent weights_ok_def)
next
  case null
  with assms have "s' = look ''level_weights'' s" "c' = c\<lparr>hc_level_weights := None\<rparr>" by (simp_all add: child_or_null_Inr)
  then show ?thesis by (rule that) (simp add: null weights_ok_def)
next
  case other
  with assms have "read_weights (look ''level_weights'' s, c) = Inr (s', c')" by (simp add: child_or_null_Inr)
  then obtain js w where rw: "s' = look ''level_weights'' s" "map_of (sec_object s) ''level_weights'' = Some (JArray js)"
    "weight_list js = Some w" "js \<noteq> []" "length js \<le> 255" "c' = c\<lparr>hc_level_weights := Some w\<rparr>"
    by (rule read_weights_Inr)
  show ?thesis using weight_list_Some [OF rw(3)] rw(4,5) by (intro that [OF rw(1,6)]) (auto simp: rw(2) weights_ok_def)
qed

lemma aging_step:
  assumes "child_or_null ''aging'' (\<lambda>c. c\<lparr>hc_aging := None\<rparr>) (with_child ''aging'' apply_aging) (s, c) = Inr (s', c')"
  obtains a where "s' = look ''aging'' s" "c' = c\<lparr>hc_aging := a\<rparr>" "part_ok (sec_object s) ''aging'' (hc_aging c) a"
  by (rule part_step [where upd = "\<lambda>v c. c\<lparr>hc_aging := v\<rparr>" and sel = hc_aging, OF assms]) (auto dest: apply_aging_Inr)

lemma apply_broker_Inr:
  assumes "apply_broker s c = Inr c'" "sec_seen s = []"
  shows "broker_set (sec_object s) c c' \<and> hc_ingress_features c' = hc_ingress_features c \<and> hc_feedback c' = hc_feedback c \<and>
    hc_predictive_routing c' = hc_predictive_routing c"
  using assms unfolding apply_broker_def read_section_Inr steps_Inr statement_Inr
  apply (elim exE conjE weights_step aging_step)
  apply (simp only: prod.inject)
  apply (elim conjE)
  apply hypsubst
  apply (simp only: look_simps broker_set_def int_set_def)
  apply (intro conjI)
  subgoal by (erule subset_trans) (simp add: broker_keys_def)
  apply (simp_all (no_asm_simp) add: broker_frame broker_put cong: option.case_cong)
  apply (simp_all add: broker_frame cong: option.case_cong)
  done

section \<open>Documents\<close>

lemma apply_features_Inr: "apply_features s c = Inr c' \<Longrightarrow> \<exists>f. c' = c\<lparr>hc_ingress_features := Some f\<rparr>"
  by (auto simp: apply_features_def split: sum.splits)

lemma apply_feedback_Inr: "apply_feedback s c = Inr c' \<Longrightarrow> \<exists>f. c' = c\<lparr>hc_feedback := Some f\<rparr>"
  by (auto simp: apply_feedback_def map_sum_def split: sum.splits)

lemma apply_routing_Inr: "apply_routing s c = Inr c' \<Longrightarrow> \<exists>r. c' = c\<lparr>hc_predictive_routing := Some r\<rparr>"
  by (auto simp: apply_routing_def map_sum_def split: sum.splits)

lemma on_config_Inr: "on_config f s x = Inr y \<longleftrightarrow> (\<exists>c'. f s (fst x) = Inr c' \<and> y = (c', snd x))"
  by (cases "f s (fst x)") (auto simp: on_config_def split: prod.split)

lemma features_set:
  assumes "child_or_null ''features'' (\<lambda>(c, server). (c\<lparr>hc_ingress_features := None\<rparr>, server))
      (with_child ''features'' (on_config apply_features)) (s, x) = Inr (s', y)"
  obtains v where "s' = look ''features'' s" "y = ((fst x)\<lparr>hc_ingress_features := v\<rparr>, snd x)"
    "part_ok (sec_object s) ''features'' (hc_ingress_features (fst x)) v"
  by (rule part_step [where upd = "\<lambda>v (c, server). (c\<lparr>hc_ingress_features := v\<rparr>, server)"
        and sel = "\<lambda>x. hc_ingress_features (fst x)", OF assms])
    (auto simp: on_config_Inr split: prod.splits dest: apply_features_Inr)

lemma feedback_set:
  assumes "child_or_null ''feedback'' (\<lambda>(c, server). (c\<lparr>hc_feedback := None\<rparr>, server))
      (with_child ''feedback'' (on_config apply_feedback)) (s, x) = Inr (s', y)"
  obtains v where "s' = look ''feedback'' s" "y = ((fst x)\<lparr>hc_feedback := v\<rparr>, snd x)"
    "part_ok (sec_object s) ''feedback'' (hc_feedback (fst x)) v"
  by (rule part_step [where upd = "\<lambda>v (c, server). (c\<lparr>hc_feedback := v\<rparr>, server)" and sel = "\<lambda>x. hc_feedback (fst x)", OF assms])
    (auto simp: on_config_Inr split: prod.splits dest: apply_feedback_Inr)

lemma routing_set:
  assumes "child_or_null ''routing'' (\<lambda>(c, server). (c\<lparr>hc_predictive_routing := None\<rparr>, server))
      (with_child ''routing'' (on_config apply_routing)) (s, x) = Inr (s', y)"
  obtains v where "s' = look ''routing'' s" "y = ((fst x)\<lparr>hc_predictive_routing := v\<rparr>, snd x)"
    "part_ok (sec_object s) ''routing'' (hc_predictive_routing (fst x)) v"
  by (rule part_step [where upd = "\<lambda>v (c, server). (c\<lparr>hc_predictive_routing := v\<rparr>, server)"
        and sel = "\<lambda>x. hc_predictive_routing (fst x)", OF assms])
    (auto simp: on_config_Inr split: prod.splits dest: apply_routing_Inr)

definition root_keys :: "string set" where
  "root_keys = {''config_version'', ''listen'', ''stats_interval_ms'', ''broker'', ''features'', ''feedback'', ''routing''}"

definition document_set :: "(string \<times> Json) list \<Rightarrow> settings \<Rightarrow> settings \<Rightarrow> bool" where
  "document_set m = (\<lambda>(c, server) (c', server').
     fst ` set m \<subseteq> root_keys \<and> map_of m ''config_version'' = Some (JInt 1) \<and>
     string_ok m ''listen'' \<and> ss_listen_address server' = (case string_at m ''listen'' of None \<Rightarrow> ss_listen_address server | Some v \<Rightarrow> v) \<and>
     int_set m ''stats_interval_ms'' 0 year_ms (ss_stats_interval server) (ss_stats_interval server') \<and>
     (case map_of m ''broker'' of None \<Rightarrow> True | Some (JObject _) \<Rightarrow> True | _ \<Rightarrow> False) \<and>
     broker_set (section_at m ''broker'') c c' \<and>
     part_ok m ''features'' (hc_ingress_features c) (hc_ingress_features c') \<and>
     part_ok m ''feedback'' (hc_feedback c) (hc_feedback c') \<and>
     part_ok m ''routing'' (hc_predictive_routing c) (hc_predictive_routing c'))"

lemma read_version_Inr:
  "read_version (s, c) = Inr (s', c') \<longleftrightarrow>
     s' = look ''config_version'' s \<and> map_of (sec_object s) ''config_version'' = Some (JInt 1) \<and> c' = c"
  by (auto simp: read_version_def section_look unsigned_value_def split: option.splits Json.splits if_splits)

lemma broker_set_Nil: "broker_set [] c c"
  by (simp add: broker_set_def int_set_def int_ok_def int_at_def weights_ok_def part_ok_def)

lemma broker_set_frame [simp]:
  "broker_set b c (c'\<lparr>hc_ingress_features := f\<rparr>) = broker_set b c c'" "broker_set b c (c'\<lparr>hc_feedback := g\<rparr>) = broker_set b c c'"
  "broker_set b c (c'\<lparr>hc_predictive_routing := r\<rparr>) = broker_set b c c'"
  by (simp_all add: broker_set_def)

lemma broker_statement:
  assumes "when_has ''broker'' (with_child ''broker'' (on_config apply_broker)) (s, x) = Inr (s', y)"
  obtains c where "s' = look ''broker'' s" "y = (c, snd x)" "broker_set (section_at (sec_object s) ''broker'') (fst x) c"
    "hc_ingress_features c = hc_ingress_features (fst x)" "hc_feedback c = hc_feedback (fst x)"
    "hc_predictive_routing c = hc_predictive_routing (fst x)"
    "case map_of (sec_object s) ''broker'' of None \<Rightarrow> True | Some (JObject _) \<Rightarrow> True | _ \<Rightarrow> False"
proof (cases "map_of (sec_object s) ''broker''")
  case None
  with assms have "s' = look ''broker'' s" "y = (fst x, snd x)" unfolding when_has_Inr by simp_all
  then show ?thesis by (rule that) (simp_all add: None section_at_def broker_set_Nil)
next
  case (Some j)
  with assms have "with_child ''broker'' (on_config apply_broker) (look ''broker'' s, x) = Inr (s', y)" unfolding when_has_Inr by simp
  then obtain b where b: "s' = look ''broker'' s" "map_of (sec_object s) ''broker'' = Some (JObject b)"
    "on_config apply_broker \<lparr>sec_object = b, sec_path = sec_path s @ ''.'' @ ''broker'', sec_seen = []\<rparr> x = Inr y"
    unfolding with_child_Inr look_simps by (elim conjE exE)
  from b(3) obtain c where c: "apply_broker \<lparr>sec_object = b, sec_path = sec_path s @ ''.'' @ ''broker'', sec_seen = []\<rparr> (fst x) = Inr c"
    "y = (c, snd x)" unfolding on_config_Inr by (elim conjE exE)
  show ?thesis using apply_broker_Inr [OF c(1)] by (intro that [OF b(1) c(2)]) (simp_all add: b(2) section_at_def)
qed

lemma put_server: "put_opt v (\<lambda>v (c, server). (c, f v server)) (a, b) = (a, put_opt v f b)"
  by (simp add: put_opt_def split: option.split)

lemma server_put:
  "ss_listen_address (put_opt v (\<lambda>v. ss_listen_address_update (\<lambda>_. v)) c) = (case v of None \<Rightarrow> ss_listen_address c | Some i \<Rightarrow> i)"
  "ss_stats_interval (put_opt w (\<lambda>v. ss_stats_interval_update (\<lambda>_. v)) c) = (case w of None \<Rightarrow> ss_stats_interval c | Some i \<Rightarrow> i)"
  by (auto simp: put_opt_def split: option.split)

lemmas server_frame = put_opt_frame [of ss_listen_address] put_opt_frame [of ss_stats_interval]

lemma apply_root_Inr:
  assumes "apply_root s x = Inr y" "sec_seen s = []"
  shows "document_set (sec_object s) x y"
  using assms unfolding apply_root_def read_section_Inr steps_Inr read_version_Inr read_ms_Inr read_string_Inr
  apply (elim exE conjE broker_statement features_set feedback_set routing_set)
  apply (simp only: prod.inject)
  apply (elim conjE)
  apply hypsubst
  apply (cases x)
  apply hypsubst
  apply (simp only: put_server look_simps document_set_def int_set_def prod.case fst_conv snd_conv)
  apply (intro conjI)
  subgoal by (erule subset_trans) (simp add: root_keys_def)
  apply (simp_all add: server_put server_frame cong: option.case_cong)
  done

section \<open>Properties\<close>

definition ex_document :: string where
  "ex_document = ''{\"config_version\":1,\"broker\":{\"delivery_lease_ms\":5000,\"level_weights\":[3,2,1]}}''"

definition ex_settings :: settings where
  "ex_settings = (default_HarbingerConfig\<lparr>hc_delivery_lease := 5000, hc_level_weights := Some [3, 2, 1]\<rparr>, default_ServerSettings)"

lemma ex_json: "json_parse ex_document =
  Some (Inr (JObject [(''broker'', JObject [(''delivery_lease_ms'', JInt 5000), (''level_weights'', JArray [JInt 3, JInt 2, JInt 1])]),
    (''config_version'', JInt 1)]))"
  by code_simp

lemma ex_document_applied: "apply_config_document ex_document (default_HarbingerConfig, default_ServerSettings) = Some (Inr ex_settings)"
proof -
  have "length ex_document \<le> kMaxConfigFileBytes" by (simp add: ex_document_def kMaxConfigFileBytes_def)
  then show ?thesis
    by (simp add: apply_config_document_def ex_json make_Section_def apply_root_def read_section_def steps.simps read_version_def
        section_look unsigned_value_def look_def read_string_def read_ms_def when_has_def sec_read_def with_child_def sec_child_def
        on_config_def apply_broker_def child_or_null_def read_weights_def sec_raw_def year_ms_def ex_settings_def sec_finish_def)
qed

text \<open>The version is required, although every field is documented as optional.\<close>

lemma config_version_required:
  "apply_config_document ''{}'' x = Some (Inl (BadField ''config'' ''config_version must be 1''))"
proof -
  have "json_parse ''{}'' = Some (Inr (JObject []))" by code_simp
  then show ?thesis by (simp add: apply_config_document_def kMaxConfigFileBytes_def make_Section_def apply_root_def read_section_def
      steps.simps read_version_def section_look)
qed



end
