(* ===== verification/Spec2Isabelle.thy ===== *)
theory Spec2Isabelle
  imports Queue_Properties Feature_Extractor Predictor_Properties Predictor_Keys Broker_Properties Drift_Window Config_Properties
begin

text \<open>
  Verification of the Harbinger message broker.
\<close>

end
